(* ===== verification/Govpn_Prelude.thy ===== *)
theory Govpn_Prelude
  imports Main "HOL-Library.Word"
begin

text \<open>
  Shared vocabulary of the development: the machine types of the Go sources as words, byte
  slices as lists of bytes with Go's slicing and in-place overwriting written out, the
  big-endian integer layout of \<^verbatim>\<open>encoding/binary\<close>, and the interface \<open>be_codec\<close> of a
  fixed-width encoding that the packet parsers rely on. The collections \<open>govpn_consts\<close>
  and \<open>govpn_slices\<close> gather the facts the component theories hand to the simplifier.
\<close>

unbundle bit_operations_syntax

section \<open>Machine types\<close>

type_synonym u8 = "8 word"
type_synonym u16 = "16 word"
type_synonym u32 = "32 word"
type_synonym u64 = "64 word"
type_synonym bytes = "u8 list"

text \<open>
  An instant is a number of nanoseconds; Go's \<^verbatim>\<open>time.Time\<close> does not wrap within any
  reachable range, so it is an integer. A \<^verbatim>\<open>time.Duration\<close> is an \<^verbatim>\<open>int64\<close>,
  whose doubling does wrap, so it stays a 64-bit word read as a signed value.
\<close>

type_synonym instant = int
type_synonym duration = "64 word"

definition add_duration :: "instant \<Rightarrow> duration \<Rightarrow> instant" where
  "add_duration t d = t + sint d"

lemma unat_u32_less: "unat (x :: u32) < 4294967296"
  using unsigned_less [of x, where ?'a = nat] by simp

named_theorems govpn_consts \<open>numeric constants of the sources\<close>
named_theorems govpn_slices \<open>facts on slices and in-place overwriting\<close>

section \<open>Slices\<close>

text \<open>The Go expression \<^verbatim>\<open>b[i:j]\<close> for \<open>i \<le> j \<le> length b\<close>.\<close>

definition slice :: "nat \<Rightarrow> nat \<Rightarrow> 'a list \<Rightarrow> 'a list" where
  "slice i j xs = take (j - i) (drop i xs)"

text \<open>Overwriting \<open>b[i : i + length ys]\<close> in place, as \<^verbatim>\<open>copy\<close> and \<^verbatim>\<open>PutUint16\<close> do.\<close>

definition overwrite :: "nat \<Rightarrow> 'a list \<Rightarrow> 'a list \<Rightarrow> 'a list" where
  "overwrite i ys xs = take i xs @ ys @ drop (i + length ys) xs"

lemma length_slice [simp]: "length (slice i j xs) = min (j - i) (length xs - i)"
  by (simp add: slice_def)

lemma length_overwrite [simp]:
  "i + length ys \<le> length xs \<Longrightarrow> length (overwrite i ys xs) = length xs"
  by (simp add: overwrite_def)

lemma slice_nth [simp]:
  "k < j - i \<Longrightarrow> i + k < length xs \<Longrightarrow> slice i j xs ! k = xs ! (i + k)"
  by (simp add: slice_def)

lemma overwrite_nth:
  "i + length ys \<le> length xs \<Longrightarrow> k < length xs \<Longrightarrow>
   overwrite i ys xs ! k = (if i \<le> k \<and> k < i + length ys then ys ! (k - i) else xs ! k)"
  by (auto simp: overwrite_def nth_append)

lemma slice_overwrite_same [govpn_slices]:
  "i + length ys \<le> length xs \<Longrightarrow> j = i + length ys \<Longrightarrow> slice i j (overwrite i ys xs) = ys"
  by (rule nth_equalityI) (auto simp: overwrite_nth)

lemma slice_overwrite_before [govpn_slices]:
  "i + length ys \<le> length xs \<Longrightarrow> b \<le> i \<Longrightarrow> slice a b (overwrite i ys xs) = slice a b xs"
  by (rule nth_equalityI) (auto simp: overwrite_nth)

lemma slice_overwrite_after [govpn_slices]:
  "i + length ys \<le> length xs \<Longrightarrow> i + length ys \<le> a \<Longrightarrow>
   slice a b (overwrite i ys xs) = slice a b xs"
  by (rule nth_equalityI) (auto simp: overwrite_nth)

lemma overwrite_Cons_Suc: "overwrite (Suc i) ys (x # xs) = x # overwrite i ys xs"
  by (simp add: overwrite_def)

section \<open>Searching an array\<close>

text \<open>The index of the first element that satisfies a test, as the scan loops return it.\<close>

fun find_index :: "('a \<Rightarrow> bool) \<Rightarrow> 'a list \<Rightarrow> nat option" where
  "find_index p [] = None"
| "find_index p (x # xs) = (if p x then Some 0 else map_option Suc (find_index p xs))"

lemma find_index_SomeD:
  "find_index p xs = Some i \<Longrightarrow> i < length xs \<and> p (xs ! i) \<and> (\<forall>j<i. \<not> p (xs ! j))"
proof (induction xs arbitrary: i)
  case (Cons x xs)
  show ?case
  proof (cases "p x")
    case False
    with Cons.prems obtain k where "find_index p xs = Some k" and "i = Suc k"
      by auto
    with Cons.IH [of k] False show ?thesis
      by (auto simp: less_Suc_eq_0_disj)
  qed (use Cons.prems in simp)
qed simp

lemma find_index_None: "find_index p xs = None \<longleftrightarrow> (\<forall>x\<in>set xs. \<not> p x)"
  by (induction xs) auto

lemma map_eqI_Some: "(\<And>k v. f k = Some v \<longleftrightarrow> g k = Some v) \<Longrightarrow> f = g"
proof
  fix k
  assume eq: "\<And>k v. f k = Some v \<longleftrightarrow> g k = Some v"
  show "f k = g k"
    by (metis eq not_Some_eq)
qed

section \<open>Big-endian integers\<close>

text \<open>
  \<^verbatim>\<open>binary.BigEndian.PutUint16\<close> and \<^verbatim>\<open>PutUint32\<close> (most significant byte first) and
  their readers, which look at the leading bytes only.
\<close>

definition be16 :: "u16 \<Rightarrow> bytes" where
  "be16 w = [ucast (drop_bit 8 w), ucast w]"

definition be32 :: "u32 \<Rightarrow> bytes" where
  "be32 w = [ucast (drop_bit 24 w), ucast (drop_bit 16 w), ucast (drop_bit 8 w), ucast w]"

definition get16 :: "bytes \<Rightarrow> u16" where
  "get16 b = push_bit 8 (ucast (b ! 0)) OR ucast (b ! 1)"

definition get32 :: "bytes \<Rightarrow> u32" where
  "get32 b = push_bit 24 (ucast (b ! 0)) OR push_bit 16 (ucast (b ! 1))
             OR push_bit 8 (ucast (b ! 2)) OR ucast (b ! 3)"

lemma length_be16 [simp]: "length (be16 w) = 2"
  by (simp add: be16_def)

lemma length_be32 [simp]: "length (be32 w) = 4"
  by (simp add: be32_def)

lemma get16_be16: "get16 (be16 w @ r) = w"
  by (rule bit_word_eqI)
    (auto simp: get16_def be16_def bit_simps)

lemma get32_be32: "get32 (be32 w @ r) = w"
proof (rule bit_word_eqI)
  fix n
  assume "n < LENGTH(32)"
  then consider "n < 8" | "8 \<le> n" "n < 16" | "16 \<le> n" "n < 24" | "24 \<le> n" "n < 32"
    by force
  then show "bit (get32 (be32 w @ r)) n \<longleftrightarrow> bit w n"
    by cases (auto simp: get32_def be32_def bit_simps)
qed

lemma not_bit_u8 [simp]: "8 \<le> n \<Longrightarrow> \<not> bit (x :: u8) n"
  by (auto dest: bit_imp_le_length)

lemma list2_cases: "length b = 2 \<Longrightarrow> \<exists>x y. b = [x, y]"
  by (auto simp: length_Suc_conv numeral_2_eq_2)

lemma list4_cases: "length b = 4 \<Longrightarrow> \<exists>x y z u. b = [x, y, z, u]"
  by (auto simp: length_Suc_conv eval_nat_numeral)

lemma be16_get16: "length b = 2 \<Longrightarrow> be16 (get16 b) = b"
  by (drule list2_cases) (auto simp: get16_def be16_def bit_simps intro!: bit_word_eqI)

lemma be32_get32: "length b = 4 \<Longrightarrow> be32 (get32 b) = b"
  by (drule list4_cases) (auto simp: get32_def be32_def bit_simps intro!: bit_word_eqI)

lemma get16_take: "2 \<le> n \<Longrightarrow> get16 (take n b) = get16 b"
  by (simp add: get16_def)

lemma get32_take: "4 \<le> n \<Longrightarrow> get32 (take n b) = get32 b"
  by (simp add: get32_def)

section \<open>The interface of a fixed-width encoding\<close>

text \<open>
  What the packet layouts rely on: every value takes \<open>sz\<close> bytes, reading looks at the
  first \<open>sz\<close> bytes only, and the two directions are inverse to each other. Records of
  values are decoded by the loop \<open>dec_many\<close>, which reports a buffer that is too short.
\<close>

fun dec_many :: "nat \<Rightarrow> (bytes \<Rightarrow> 'a) \<Rightarrow> nat \<Rightarrow> bytes \<Rightarrow> ('a list \<times> bytes) option" where
  "dec_many sz dec 0 b = Some ([], b)"
| "dec_many sz dec (Suc n) b =
     (if length b < sz then None
      else (case dec_many sz dec n (drop sz b) of
              None \<Rightarrow> None
            | Some (xs, r) \<Rightarrow> Some (dec (take sz b) # xs, r)))"

locale be_codec =
  fixes enc :: "'a \<Rightarrow> bytes"
    and dec :: "bytes \<Rightarrow> 'a"
    and sz :: nat
  assumes enc_length: "length (enc x) = sz"
    and dec_enc: "dec (enc x @ r) = x"
    and enc_dec: "length b = sz \<Longrightarrow> enc (dec b) = b"
begin

lemma dec_enc_Nil: "dec (enc x) = x"
  using dec_enc [of x "[]"] by simp

lemma concat_enc_length: "length (concat (map enc xs)) = sz * length xs"
  by (induction xs) (simp_all add: enc_length)

lemma dec_many_enc: "dec_many sz dec (length xs) (concat (map enc xs) @ r) = Some (xs, r)"
  by (induction xs) (simp_all add: enc_length dec_enc_Nil)

lemma dec_many_sound:
  "dec_many sz dec n b = Some (xs, r) \<Longrightarrow> length xs = n \<and> b = concat (map enc xs) @ r"
proof (induction n arbitrary: b xs)
  case 0
  then show ?case by simp
next
  case (Suc n)
  then obtain ys where ys: "dec_many sz dec n (drop sz b) = Some (ys, r)"
    and xs: "xs = dec (take sz b) # ys" and len: "sz \<le> length b"
    by (auto split: if_splits option.splits)
  from Suc.IH [OF ys] have "length ys = n" and "drop sz b = concat (map enc ys) @ r"
    by simp_all
  moreover have "enc (dec (take sz b)) = take sz b"
    using len by (intro enc_dec) simp
  ultimately show ?case
    using xs append_take_drop_id [of sz b] by simp
qed

lemma dec_many_Some_iff: "(\<exists>y. dec_many sz dec n b = Some y) \<longleftrightarrow> n = 0 \<or> sz * n \<le> length b"
proof (induction n arbitrary: b)
  case 0
  then show ?case by simp
next
  case (Suc n)
  show ?case
  proof (cases "length b < sz")
    case False
    then have "(\<exists>y. dec_many sz dec (Suc n) b = Some y)
      \<longleftrightarrow> (\<exists>y. dec_many sz dec n (drop sz b) = Some y)"
      by (auto split: option.splits)
    also have "\<dots> \<longleftrightarrow> sz * Suc n \<le> length b"
      using Suc.IH [of "drop sz b"] False by auto
    finally show ?thesis by simp
  qed simp
qed

lemma dec_many_rest:
  "dec_many sz dec n b = Some (xs, r) \<Longrightarrow> r = drop (sz * n) b"
  using dec_many_sound [of n b xs r] by (auto simp: concat_enc_length)

end

interpretation u16c: be_codec be16 get16 2
  by unfold_locales (simp_all add: get16_be16 be16_get16)

interpretation u32c: be_codec be32 get32 4
  by unfold_locales (simp_all add: get32_be32 be32_get32)

end
