(* ===== verification/Wire.thy ===== *)
theory Wire
  imports Govpn_Prelude
begin

text \<open>
  The control-channel wire format of \<^verbatim>\<open>internal/wire/wire.go\<close>: the packed
  opcode/key-id byte, and the plaintext body (acknowledgement array, optional remote session
  id, optional own packet id, payload) with its parser and its serialiser. A
  \<^verbatim>\<open>SessionID\<close> is an array of eight bytes, here a list whose length the
  well-formedness predicates fix. The parser's typed errors are the values of
  \<open>wire_error\<close>.
\<close>

unbundle bit_operations_syntax

section \<open>Constants, header and packets\<close>

abbreviation (input) OpControlSoftResetV1 :: u8 where "OpControlSoftResetV1 \<equiv> 3"
abbreviation (input) OpControlV1 :: u8 where "OpControlV1 \<equiv> 4"
abbreviation (input) OpAckV1 :: u8 where "OpAckV1 \<equiv> 5"
abbreviation (input) OpDataV1 :: u8 where "OpDataV1 \<equiv> 6"
abbreviation (input) OpControlHardResetClientV2 :: u8 where "OpControlHardResetClientV2 \<equiv> 7"
abbreviation (input) OpControlHardResetServerV2 :: u8 where "OpControlHardResetServerV2 \<equiv> 8"
abbreviation (input) OpDataV2 :: u8 where "OpDataV2 \<equiv> 9"
abbreviation (input) OpControlHardResetClientV3 :: u8 where "OpControlHardResetClientV3 \<equiv> 10"
abbreviation (input) OpControlWKCV1 :: u8 where "OpControlWKCV1 \<equiv> 11"

definition FirstOpcode :: u8 where [govpn_consts]: "FirstOpcode = 3"
definition LastOpcode :: u8 where [govpn_consts]: "LastOpcode = 11"
definition SessionIDSize :: nat where [govpn_consts]: "SessionIDSize = 8"
definition MaxAcks :: nat where [govpn_consts]: "MaxAcks = 8"
definition packetIDSize :: nat where [govpn_consts]: "packetIDSize = 4"

datatype wire_error = ErrTooShort | ErrTooManyAcks | ErrBadOpcode

record wire_header =
  hd_opcode :: u8
  hd_keyID :: u8
  hd_sessionID :: bytes

record control_packet =
  cp_opcode :: u8
  cp_keyID :: u8
  cp_sessionID :: bytes
  cp_acks :: "u32 list"
  cp_remoteSessionID :: bytes
  cp_packetID :: u32
  cp_payload :: bytes

section \<open>Operations\<close>

definition ParseHeaderByte :: "u8 \<Rightarrow> u8 \<times> u8" where
  "ParseHeaderByte b = (drop_bit 3 b, b AND 7)"

definition AppendHeaderByte :: "bytes \<Rightarrow> u8 \<Rightarrow> u8 \<Rightarrow> bytes" where
  "AppendHeaderByte dst opcode keyID = dst @ [push_bit 3 opcode OR (keyID AND 7)]"

definition ValidOpcode :: "u8 \<Rightarrow> bool" where
  "ValidOpcode op \<longleftrightarrow> FirstOpcode \<le> op \<and> op \<le> LastOpcode"

text \<open>
  The three optional parts of the body after the acknowledgement count, each read from the
  rest of the buffer: the acknowledgement loop, the remote session id (present only with
  acknowledgements, else the zero array) and the packet's own id (absent for
  \<^verbatim>\<open>OpAckV1\<close>).
\<close>

definition parse_remote_sid :: "nat \<Rightarrow> bytes \<Rightarrow> wire_error + bytes \<times> bytes" where
  "parse_remote_sid ackCount buf =
     (if ackCount > 0 then
        if length buf < SessionIDSize then Inl ErrTooShort
        else Inr (take SessionIDSize buf, drop SessionIDSize buf)
      else Inr (replicate SessionIDSize 0, buf))"

definition parse_own_pid :: "u8 \<Rightarrow> bytes \<Rightarrow> wire_error + u32 \<times> bytes" where
  "parse_own_pid opcode buf =
     (if opcode \<noteq> OpAckV1 then
        if length buf < packetIDSize then Inl ErrTooShort
        else Inr (get32 (take packetIDSize buf), drop packetIDSize buf)
      else Inr (0, buf))"

definition ParseControlPacket :: "bytes \<Rightarrow> wire_header \<Rightarrow> wire_error + control_packet" where
  "ParseControlPacket plaintext hdr =
     (if \<not> ValidOpcode (hd_opcode hdr) then Inl ErrBadOpcode
      else case plaintext of
        [] \<Rightarrow> Inl ErrTooShort
      | n # buf \<Rightarrow>
          let ackCount = unat n in
          if ackCount > MaxAcks then Inl ErrTooManyAcks
          else case dec_many packetIDSize get32 ackCount buf of
            None \<Rightarrow> Inl ErrTooShort
          | Some (acks, buf1) \<Rightarrow>
              (case parse_remote_sid ackCount buf1 of
                 Inl e \<Rightarrow> Inl e
               | Inr (remoteSID, buf2) \<Rightarrow>
                   (case parse_own_pid (hd_opcode hdr) buf2 of
                      Inl e \<Rightarrow> Inl e
                    | Inr (pid, payload) \<Rightarrow>
                        Inr \<lparr>cp_opcode = hd_opcode hdr, cp_keyID = hd_keyID hdr,
                             cp_sessionID = hd_sessionID hdr, cp_acks = acks,
                             cp_remoteSessionID = remoteSID, cp_packetID = pid,
                             cp_payload = payload\<rparr>)))"

definition AppendPlaintext :: "control_packet \<Rightarrow> bytes \<Rightarrow> bytes" where
  "AppendPlaintext p dst =
     dst @ [of_nat (length (cp_acks p))]
         @ concat (map be32 (cp_acks p))
         @ (if cp_acks p \<noteq> [] then cp_remoteSessionID p else [])
         @ (if cp_opcode p \<noteq> OpAckV1 then be32 (cp_packetID p) else [])
         @ cp_payload p"

section \<open>Well-formed packets\<close>

text \<open>
  What a sender builds and a parse returns: an array of eight bytes for the remote session
  id, at most \<open>MaxAcks\<close> acknowledgements, and the zero value in each field that is not
  on the wire.
\<close>

definition wf_packet :: "control_packet \<Rightarrow> bool" where
  "wf_packet p \<longleftrightarrow>
     ValidOpcode (cp_opcode p) \<and> length (cp_acks p) \<le> MaxAcks \<and>
     length (cp_remoteSessionID p) = SessionIDSize \<and>
     (cp_acks p = [] \<longrightarrow> cp_remoteSessionID p = replicate SessionIDSize 0) \<and>
     (cp_opcode p = OpAckV1 \<longrightarrow> cp_packetID p = 0)"

definition packet_header :: "control_packet \<Rightarrow> wire_header" where
  "packet_header p = \<lparr>hd_opcode = cp_opcode p, hd_keyID = cp_keyID p,
                      hd_sessionID = cp_sessionID p\<rparr>"

text \<open>The number of plaintext bytes before the payload.\<close>

definition body_prefix_len :: "u8 \<Rightarrow> nat \<Rightarrow> nat" where
  "body_prefix_len op n =
     1 + packetIDSize * n + (if n > 0 then SessionIDSize else 0)
       + (if op \<noteq> OpAckV1 then packetIDSize else 0)"

lemma unat_ack_count: "n \<le> MaxAcks \<Longrightarrow> unat (of_nat n :: u8) = n"
  by (simp add: unat_of_nat govpn_consts)

lemma dec_acks_append:
  "dec_many packetIDSize get32 (length acks) (concat (map be32 acks) @ r) = Some (acks, r)"
  unfolding packetIDSize_def by (rule u32c.dec_many_enc)

lemma parse_remote_sid_append:
  "length sid = SessionIDSize \<Longrightarrow> (n = 0 \<longrightarrow> sid = replicate SessionIDSize 0) \<Longrightarrow>
   parse_remote_sid n ((if n > 0 then sid else []) @ r) = Inr (sid, r)"
  by (auto simp: parse_remote_sid_def)

lemma parse_own_pid_append:
  "(op = OpAckV1 \<longrightarrow> pid = 0) \<Longrightarrow>
   parse_own_pid op ((if op \<noteq> OpAckV1 then be32 pid else []) @ r) = Inr (pid, r)"
  by (auto simp: parse_own_pid_def govpn_consts u32c.dec_enc_Nil)

lemma parse_remote_sid_inv:
  "parse_remote_sid n b = Inr (sid, r) \<Longrightarrow>
   b = (if n > 0 then sid else []) @ r \<and> length sid = SessionIDSize \<and>
   (n = 0 \<longrightarrow> sid = replicate SessionIDSize 0)"
  by (auto simp: parse_remote_sid_def split: if_splits)

lemma parse_own_pid_inv:
  "parse_own_pid op b = Inr (pid, r) \<Longrightarrow>
   b = (if op \<noteq> OpAckV1 then be32 pid else []) @ r \<and> (op = OpAckV1 \<longrightarrow> pid = 0)"
  by (auto simp: parse_own_pid_def govpn_consts be32_get32 split: if_splits)

section \<open>Round trips and acceptance\<close>

lemma parse_appended_body:
  assumes "wf_packet p"
  shows "ParseControlPacket (AppendPlaintext p []) (packet_header p) = Inr p"
proof -
  let ?r2 = "cp_payload p"
  let ?r1 = "(if cp_opcode p \<noteq> OpAckV1 then be32 (cp_packetID p) else []) @ ?r2"
  let ?r0 = "(if length (cp_acks p) > 0 then cp_remoteSessionID p else []) @ ?r1"
  have "parse_remote_sid (length (cp_acks p)) ?r0 = Inr (cp_remoteSessionID p, ?r1)"
    using assms by (intro parse_remote_sid_append) (auto simp: wf_packet_def)
  moreover have "parse_own_pid (cp_opcode p) ?r1 = Inr (cp_packetID p, ?r2)"
    using assms by (intro parse_own_pid_append) (simp add: wf_packet_def)
  moreover have "AppendPlaintext p [] =
      of_nat (length (cp_acks p)) # concat (map be32 (cp_acks p)) @ ?r0"
    by (simp add: AppendPlaintext_def)
  ultimately show ?thesis
    using assms by (simp add: ParseControlPacket_def packet_header_def wf_packet_def
        unat_ack_count dec_acks_append not_less del: if_split append.append_Cons)
qed

lemma parse_result_shape:
  assumes "ParseControlPacket b hdr = Inr p"
  shows "wf_packet p \<and> packet_header p = hdr \<and> AppendPlaintext p [] = b"
proof -
  from assms obtain n buf acks buf1 sid buf2 pid payload where
    valid: "ValidOpcode (hd_opcode hdr)" and b: "b = n # buf" and n: "unat n \<le> MaxAcks"
    and acks: "dec_many packetIDSize get32 (unat n) buf = Some (acks, buf1)"
    and sid: "parse_remote_sid (unat n) buf1 = Inr (sid, buf2)"
    and pid: "parse_own_pid (hd_opcode hdr) buf2 = Inr (pid, payload)"
    and p: "p = \<lparr>cp_opcode = hd_opcode hdr, cp_keyID = hd_keyID hdr,
        cp_sessionID = hd_sessionID hdr, cp_acks = acks,
        cp_remoteSessionID = sid, cp_packetID = pid, cp_payload = payload\<rparr>"
    by (auto simp: ParseControlPacket_def Let_def
        split: if_splits list.splits option.splits sum.splits)
  from acks have "length acks = unat n" and "buf = concat (map be32 acks) @ buf1"
    unfolding packetIDSize_def by (auto dest: u32c.dec_many_sound)
  moreover have "of_nat (unat n) = n"
    by simp
  ultimately show ?thesis
    using valid n b p parse_remote_sid_inv [OF sid] parse_own_pid_inv [OF pid]
    by (auto simp: wf_packet_def packet_header_def AppendPlaintext_def)
qed

lemma parse_remote_sid_ok: "isl (parse_remote_sid n b) \<longleftrightarrow> n > 0 \<and> length b < SessionIDSize"
  by (simp add: parse_remote_sid_def)

lemma parse_own_pid_ok: "isl (parse_own_pid op b) \<longleftrightarrow> op \<noteq> OpAckV1 \<and> length b < packetIDSize"
  by (simp add: parse_own_pid_def)

text \<open>
  C9. Parsing and serialising are exact inverses: a well-formed packet survives
  serialisation followed by parsing under its own header, and every successful parse yields a
  well-formed packet, carrying the header it was parsed under, that serialises back to
  exactly the bytes that were parsed.
\<close>

theorem control_packet_roundtrip:
  "(wf_packet p \<longrightarrow> ParseControlPacket (AppendPlaintext p []) (packet_header p) = Inr p) \<and>
   (ParseControlPacket b hdr = Inr q \<longrightarrow>
      wf_packet q \<and> packet_header q = hdr \<and> AppendPlaintext q [] = b)"
  using parse_appended_body parse_result_shape by blast

theorem control_packet_roundtrip_witness:
  "let p = \<lparr>cp_opcode = OpControlV1, cp_keyID = 0, cp_sessionID = replicate 8 7,
            cp_acks = [1, 2], cp_remoteSessionID = replicate 8 9, cp_packetID = 3,
            cp_payload = [22, 3, 1]\<rparr>
   in wf_packet p \<and> ParseControlPacket (AppendPlaintext p []) (packet_header p) = Inr p"
proof -
  let ?p = "\<lparr>cp_opcode = OpControlV1, cp_keyID = 0, cp_sessionID = replicate 8 7,
            cp_acks = [1, 2], cp_remoteSessionID = replicate 8 9, cp_packetID = 3,
            cp_payload = [22, 3, 1]\<rparr>"
  have "wf_packet ?p"
    by (simp add: wf_packet_def ValidOpcode_def govpn_consts)
  with control_packet_roundtrip [of ?p] show ?thesis
    by (simp only: Let_def simp_thms)
qed

lemma parse_outcome:
  "(case ParseControlPacket b hdr of
      Inl e \<Rightarrow>
        e = (if \<not> ValidOpcode (hd_opcode hdr) then ErrBadOpcode
             else if b \<noteq> [] \<and> unat (hd b) > MaxAcks then ErrTooManyAcks
             else ErrTooShort)
    | Inr p \<Rightarrow> True) \<and>
   (isl (ParseControlPacket b hdr) \<longleftrightarrow>
      \<not> ValidOpcode (hd_opcode hdr) \<or> b = [] \<or> unat (hd b) > MaxAcks \<or>
      length b < body_prefix_len (hd_opcode hdr) (unat (hd b)))"
proof (cases "ValidOpcode (hd_opcode hdr) \<and> b \<noteq> [] \<and> unat (hd b) \<le> MaxAcks")
  case False
  then show ?thesis
    by (cases b) (auto simp: ParseControlPacket_def Let_def)
next
  case True
  then obtain n buf where b: "b = n # buf" and n: "unat n \<le> MaxAcks"
    by (cases b) auto
  show ?thesis
  proof (cases "dec_many packetIDSize get32 (unat n) buf")
    case None
    then have "length buf < packetIDSize * unat n"
      using u32c.dec_many_Some_iff [of "unat n" buf] by (auto simp: govpn_consts)
    then show ?thesis
      using True None n unfolding b
      by (simp add: ParseControlPacket_def body_prefix_len_def)
  next
    case (Some y)
    then obtain acks r where y: "y = (acks, r)" by (cases y)
    with Some have r: "r = drop (4 * unat n) buf" and len: "4 * unat n \<le> length buf"
      using u32c.dec_many_rest [of "unat n" buf] u32c.dec_many_Some_iff [of "unat n" buf]
      by (auto simp: packetIDSize_def)
    with True Some y n show ?thesis
      unfolding b
      by (auto simp: ParseControlPacket_def body_prefix_len_def parse_remote_sid_def
          parse_own_pid_def govpn_consts Let_def split: if_splits)
  qed
qed

text \<open>
  The parser decides exactly by opcode, acknowledgement count and length: it accepts a
  body if and only if the opcode is legal, the count byte is present and at most eight, and
  the bytes its layout calls for are there; otherwise the error is \<open>ErrBadOpcode\<close>,
  \<open>ErrTooManyAcks\<close> or \<open>ErrTooShort\<close> in that order of precedence.
\<close>

theorem parse_control_packet_decides:
  "if ValidOpcode (hd_opcode hdr) \<and> b \<noteq> [] \<and> unat (hd b) \<le> MaxAcks \<and>
      body_prefix_len (hd_opcode hdr) (unat (hd b)) \<le> length b
   then \<exists>p. ParseControlPacket b hdr = Inr p
   else ParseControlPacket b hdr =
     Inl (if \<not> ValidOpcode (hd_opcode hdr) then ErrBadOpcode
          else if b \<noteq> [] \<and> unat (hd b) > MaxAcks then ErrTooManyAcks else ErrTooShort)"
  using parse_outcome [of hdr b] by (cases "ParseControlPacket b hdr") auto

lemma parse_header_byte:
  assumes "op < 32" and "kid < 8"
  shows "ParseHeaderByte (push_bit 3 op OR (kid AND 7)) = (op, kid)"
proof -
  have op: "take_bit 5 op = op"
    using less_mask_eq [of op 5] assms(1) by (simp add: take_bit_eq_mask)
  have kid: "take_bit 3 kid = kid"
    using less_mask_eq [of kid 3] assms(2) by (simp add: take_bit_eq_mask)
  have m7: "(7 :: u8) = mask 3"
    by (simp add: mask_eq_exp_minus_1)
  have "drop_bit 3 (push_bit 3 op OR take_bit 3 kid) = take_bit 5 op"
    by (rule bit_word_eqI) (auto simp: bit_simps)
  moreover have "take_bit 3 (push_bit 3 op OR take_bit 3 kid) = take_bit 3 kid"
    by (rule bit_word_eqI) (auto simp: bit_simps)
  ultimately show ?thesis
    by (simp add: ParseHeaderByte_def m7 op kid flip: take_bit_eq_mask)
qed

text \<open>
  The packed header byte loses nothing: a key id of three bits and an opcode of five
  bits are recovered, and every byte is the packing of the pair it decodes to.
\<close>

theorem header_byte_roundtrip:
  assumes "op < 32" and "kid < 8"
  shows "map ParseHeaderByte (AppendHeaderByte [] op kid) = [(op, kid)] \<and>
         AppendHeaderByte dst (fst (ParseHeaderByte b)) (snd (ParseHeaderByte b)) = dst @ [b]"
proof
  show "map ParseHeaderByte (AppendHeaderByte [] op kid) = [(op, kid)]"
    using parse_header_byte [OF assms] by (simp add: AppendHeaderByte_def)
  have m7: "(7 :: u8) = mask 3"
    by (simp add: mask_eq_exp_minus_1)
  show "AppendHeaderByte dst (fst (ParseHeaderByte b)) (snd (ParseHeaderByte b)) = dst @ [b]"
    by (simp add: AppendHeaderByte_def ParseHeaderByte_def m7 flip: take_bit_eq_mask)
      (auto simp: bit_simps intro!: bit_word_eqI)
qed

theorem header_byte_roundtrip_witness:
  "map ParseHeaderByte (AppendHeaderByte [] OpControlHardResetClientV2 0)
     = [(OpControlHardResetClientV2, 0)]"
  using header_byte_roundtrip [of 7 0 "[]" 0] by simp

end
