(* ===== verification/Reliable.thy ===== *)
theory Reliable
  imports Govpn_Prelude
begin

text \<open>
  The control-channel reliability layer of \<^verbatim>\<open>internal/reliable/reliable.go\<close>: the
  wrap-around packet-id comparisons, the array of entries of one direction with its send-side
  operations (\<open>Next\<close>, \<open>MarkActive\<close>, \<open>SetPayload\<close>, \<open>Ack\<close>, \<open>Due\<close>,
  \<open>Empty\<close>) and receive-side operations (\<open>Put\<close>, \<open>Get\<close>), and the set of pending
  acknowledgements. The mutex makes every method atomic, so a method is a function on the
  state. The clock reading is an argument; instants count from Go's zero
  \<^verbatim>\<open>time.Time\<close>, so that \<open>0\<close> is the zero time.
\<close>

unbundle bit_operations_syntax

section \<open>Packet-id arithmetic\<close>

definition Capacity :: nat where [govpn_consts]: "Capacity = 12"
definition AckSize :: nat where [govpn_consts]: "AckSize = 8"
definition NSendBuffers :: nat where [govpn_consts]: "NSendBuffers = 6"
definition NRecBuffers :: nat where [govpn_consts]: "NRecBuffers = 12"
definition NAckRetransmit :: nat where [govpn_consts]: "NAckRetransmit = 3"
definition TLSTimeout :: duration where [govpn_consts]: "TLSTimeout = 2000000000"

definition subtractPID :: "u32 \<Rightarrow> u32 \<Rightarrow> u32" where
  "subtractPID test base = test - base"

definition pidInRange1 :: "u32 \<Rightarrow> u32 \<Rightarrow> u32 \<Rightarrow> bool" where
  "pidInRange1 test base extent \<longleftrightarrow> subtractPID test base < extent"

definition pidInRange2 :: "u32 \<Rightarrow> u32 \<Rightarrow> u32 \<Rightarrow> bool" where
  "pidInRange2 test base extent \<longleftrightarrow>
     (if base + extent \<ge> base then test < base + extent
      else test + 0x80000000 < (base + 0x80000000) + extent)"

definition pidMin :: "u32 \<Rightarrow> u32 \<Rightarrow> bool" where
  "pidMin p1 p2 \<longleftrightarrow> \<not> pidInRange1 p1 p2 0x80000000"

section \<open>Entries and the state of one direction\<close>

record rel_entry =
  e_active :: bool
  e_timeout :: duration
  e_nextTry :: instant
  e_packetID :: u32
  e_nAcks :: nat
  e_payload :: bytes

record reliable =
  r_size :: nat
  r_initialTimeout :: duration
  r_packetID :: u32
  r_entries :: "rel_entry list"

definition zero_entry :: rel_entry where
  "zero_entry = \<lparr>e_active = False, e_timeout = 0, e_nextTry = 0, e_packetID = 0,
                 e_nAcks = 0, e_payload = []\<rparr>"

text \<open>\<open>None\<close> is the panic on a size out of range.\<close>

definition New_reliable :: "int \<Rightarrow> reliable option" where
  "New_reliable n =
     (if n \<le> 0 \<or> n > int Capacity then None
      else Some \<lparr>r_size = nat n, r_initialTimeout = TLSTimeout, r_packetID = 0,
                 r_entries = replicate Capacity zero_entry\<rparr>)"

text \<open>The entries a loop \<^verbatim>\<open>for i := 0; i < r.size\<close> visits.\<close>

definition window :: "reliable \<Rightarrow> rel_entry list" where
  "window r = take (r_size r) (r_entries r)"

definition set_entry :: "nat \<Rightarrow> rel_entry \<Rightarrow> reliable \<Rightarrow> reliable" where
  "set_entry i e r = r\<lparr>r_entries := (r_entries r)[i := e]\<rparr>"

section \<open>Send side\<close>

text \<open>The scan for the lowest active packet id.\<close>

fun min_active :: "rel_entry list \<Rightarrow> u32 option \<Rightarrow> u32 option" where
  "min_active [] m = m"
| "min_active (e # es) m =
     min_active es
       (if e_active e \<and> (case m of None \<Rightarrow> True | Some minID \<Rightarrow> pidMin (e_packetID e) minID)
        then Some (e_packetID e) else m)"

definition Next :: "reliable \<Rightarrow> nat option" where
  "Next r =
     (case min_active (window r) None of
        Some minID \<Rightarrow>
          if \<not> pidInRange1 (r_packetID r) minID (of_nat (r_size r)) then None
          else find_index (\<lambda>e. \<not> e_active e) (window r)
      | None \<Rightarrow> find_index (\<lambda>e. \<not> e_active e) (window r))"

definition MarkActive :: "reliable \<Rightarrow> nat \<Rightarrow> reliable \<times> u32" where
  "MarkActive r idx =
     (let e = (r_entries r ! idx)\<lparr>e_packetID := r_packetID r, e_active := True, e_nAcks := 0,
                                  e_timeout := r_initialTimeout r, e_nextTry := 0\<rparr>
      in ((set_entry idx e r)\<lparr>r_packetID := r_packetID r + 1\<rparr>, e_packetID e))"

definition SetPayload :: "reliable \<Rightarrow> nat \<Rightarrow> bytes \<Rightarrow> reliable" where
  "SetPayload r idx payload = set_entry idx ((r_entries r ! idx)\<lparr>e_payload := payload\<rparr>) r"

definition ack_entry :: "u32 \<Rightarrow> rel_entry \<Rightarrow> rel_entry" where
  "ack_entry pid e =
     (if \<not> e_active e then e
      else if e_packetID e = pid then e\<lparr>e_active := False\<rparr>
      else if e_packetID e < pid then e\<lparr>e_nAcks := e_nAcks e + 1\<rparr>
      else e)"

definition ack_one :: "u32 \<Rightarrow> reliable \<Rightarrow> reliable" where
  "ack_one pid r =
     r\<lparr>r_entries := map (ack_entry pid) (window r) @ drop (r_size r) (r_entries r)\<rparr>"

definition Ack :: "reliable \<Rightarrow> u32 list \<Rightarrow> reliable" where
  "Ack r ids = fold ack_one ids r"

definition entry_due :: "instant \<Rightarrow> rel_entry \<Rightarrow> bool" where
  "entry_due now e \<longleftrightarrow>
     e_active e \<and> (e_nAcks e \<ge> NAckRetransmit \<or> \<not> now < e_nextTry e)"

fun best_due :: "instant \<Rightarrow> nat \<Rightarrow> rel_entry list \<Rightarrow> (nat \<times> rel_entry) option
    \<Rightarrow> (nat \<times> rel_entry) option" where
  "best_due now i [] best = best"
| "best_due now i (e # es) best =
     best_due now (Suc i) es
       (if entry_due now e \<and>
           (case best of None \<Rightarrow> True | Some (_, b) \<Rightarrow> pidMin (e_packetID e) (e_packetID b))
        then Some (i, e) else best)"

text \<open>One (re)send of an entry: the due time moves out and the timeout doubles.\<close>

definition resend_entry :: "instant \<Rightarrow> rel_entry \<Rightarrow> rel_entry" where
  "resend_entry now e =
     e\<lparr>e_nextTry := add_duration now (e_timeout e), e_timeout := e_timeout e * 2,
       e_nAcks := 0\<rparr>"

definition Due :: "reliable \<Rightarrow> instant \<Rightarrow> reliable \<times> (bytes \<times> u32) option" where
  "Due r now =
     (case best_due now 0 (window r) None of
        None \<Rightarrow> (r, None)
      | Some (i, b) \<Rightarrow>
          (set_entry i (resend_entry now b) r, Some (e_payload b, e_packetID b)))"

definition Empty :: "reliable \<Rightarrow> bool" where
  "Empty r \<longleftrightarrow> list_all (\<lambda>e. \<not> e_active e) (window r)"

section \<open>Receive side\<close>

datatype put_result = PutRejected | PutAccepted | PutDuplicate

definition Put :: "reliable \<Rightarrow> u32 \<Rightarrow> bytes \<Rightarrow> reliable \<times> put_result" where
  "Put r pid payload =
     (if pidMin pid (r_packetID r) then (r, PutRejected)
      else if list_ex (\<lambda>e. e_active e \<and> e_packetID e = pid) (window r) then (r, PutDuplicate)
      else if \<not> pidInRange2 pid (r_packetID r) (of_nat (r_size r)) then (r, PutRejected)
      else case find_index (\<lambda>e. \<not> e_active e) (window r) of
        Some i \<Rightarrow>
          (set_entry i ((r_entries r ! i)\<lparr>e_active := True, e_packetID := pid, e_nAcks := 0,
                                          e_payload := payload\<rparr>) r, PutAccepted)
      | None \<Rightarrow> (r, PutRejected))"

definition Get :: "reliable \<Rightarrow> reliable \<times> bytes option" where
  "Get r =
     (case find_index (\<lambda>e. e_active e \<and> e_packetID e = r_packetID r) (window r) of
        Some i \<Rightarrow>
          (let e = r_entries r ! i in
           ((set_entry i (e\<lparr>e_active := False\<rparr>) r)\<lparr>r_packetID := e_packetID e + 1\<rparr>,
            Some (e_payload e)))
      | None \<Rightarrow> (r, None))"

section \<open>Pending acknowledgements\<close>

type_synonym ack_set = "u32 list"

definition ack_add :: "ack_set \<Rightarrow> u32 \<Rightarrow> ack_set" where
  "ack_add ids pid = (if list_ex (\<lambda>x. x = pid) ids then ids else ids @ [pid])"

definition ack_drain :: "ack_set \<Rightarrow> ack_set \<times> u32 list" where
  "ack_drain ids =
     (let n = (if length ids > AckSize then AckSize else length ids)
      in (drop n ids, take n ids))"

definition ack_peek :: "ack_set \<Rightarrow> bool" where
  "ack_peek ids \<longleftrightarrow> length ids > 0"

section \<open>Well-formed states\<close>

definition rel_wf :: "reliable \<Rightarrow> bool" where
  "rel_wf r \<longleftrightarrow> 0 < r_size r \<and> r_size r \<le> Capacity \<and> length (r_entries r) = Capacity"

definition active_ids :: "reliable \<Rightarrow> u32 list" where
  "active_ids r = map e_packetID (filter e_active (window r))"

lemma New_reliable_wf: "New_reliable n = Some r \<Longrightarrow> rel_wf r \<and> active_ids r = []"
  by (auto simp: New_reliable_def rel_wf_def active_ids_def window_def zero_entry_def
      split: if_splits)

lemma window_set_entry [simp]:
  "i < r_size r \<Longrightarrow> window (set_entry i e r) = (window r)[i := e]"
  by (simp add: window_def set_entry_def take_update_swap)

lemma set_entry_fields [simp]:
  "r_size (set_entry i e r) = r_size r"
  "r_packetID (set_entry i e r) = r_packetID r"
  "r_initialTimeout (set_entry i e r) = r_initialTimeout r"
  "length (r_entries (set_entry i e r)) = length (r_entries r)"
  by (simp_all add: set_entry_def)

lemma window_packetID [simp]: "window (r\<lparr>r_packetID := p\<rparr>) = window r"
  by (simp add: window_def)

lemma rel_wf_set_entry [simp]: "rel_wf (set_entry i e r) = rel_wf r"
  by (simp add: rel_wf_def)

lemma rel_wf_packetID [simp]: "rel_wf (r\<lparr>r_packetID := p\<rparr>) = rel_wf r"
  by (simp add: rel_wf_def)

lemma length_window: "rel_wf r \<Longrightarrow> length (window r) = r_size r"
  by (simp add: rel_wf_def window_def)

lemma window_nth: "rel_wf r \<Longrightarrow> i < r_size r \<Longrightarrow> window r ! i = r_entries r ! i"
  by (simp add: window_def)

lemma find_window:
  "rel_wf r \<Longrightarrow> find_index p (window r) = Some i \<Longrightarrow>
   i < r_size r \<and> p (r_entries r ! i) \<and> window r ! i = r_entries r ! i"
  using find_index_SomeD [of p "window r" i] by (auto simp: length_window window_nth)

section \<open>In-order delivery\<close>

text \<open>
  Abstractly the receive side is a partial map from packet ids to payloads, and the id it
  delivers next. Distinct entries hold distinct ids.
\<close>

definition held :: "rel_entry list \<Rightarrow> u32 \<Rightarrow> bytes option" where
  "held es pid = map_option e_payload (find (\<lambda>e. e_active e \<and> e_packetID e = pid) es)"

definition ids_distinct :: "rel_entry list \<Rightarrow> bool" where
  "ids_distinct es \<longleftrightarrow>
     (\<forall>i<length es. \<forall>j<length es.
        e_active (es ! i) \<and> e_active (es ! j) \<and> e_packetID (es ! i) = e_packetID (es ! j)
        \<longrightarrow> i = j)"

definition rec_ok :: "reliable \<Rightarrow> bool" where
  "rec_ok r \<longleftrightarrow> rel_wf r \<and> ids_distinct (window r)"

definition buffered :: "reliable \<Rightarrow> u32 \<Rightarrow> bytes option" where
  "buffered r = held (window r)"

lemma held_Some_iff:
  assumes "ids_distinct es"
  shows "held es pid = Some p \<longleftrightarrow>
    (\<exists>i<length es. e_active (es ! i) \<and> e_packetID (es ! i) = pid \<and> e_payload (es ! i) = p)"
    (is "_ \<longleftrightarrow> ?R")
proof
  assume "held es pid = Some p"
  then show ?R
    by (auto simp: held_def find_Some_iff)
next
  assume ?R
  then obtain i where i: "i < length es" "e_active (es ! i)" "e_packetID (es ! i) = pid"
    "e_payload (es ! i) = p"
    by blast
  then have "\<forall>j<i. \<not> (e_active (es ! j) \<and> e_packetID (es ! j) = pid)"
    using assms unfolding ids_distinct_def by (metis less_trans nat_neq_iff)
  then have "find (\<lambda>e. e_active e \<and> e_packetID e = pid) es = Some (es ! i)"
    using i by (auto simp: find_Some_iff)
  with i show "held es pid = Some p"
    by (simp add: held_def)
qed

lemma held_None_iff: "held es pid = None \<longleftrightarrow> (\<forall>e\<in>set es. \<not> (e_active e \<and> e_packetID e = pid))"
  by (auto simp: held_def find_None_iff)

lemma ids_distinct_add:
  assumes "ids_distinct es" and "held es (e_packetID e) = None"
  shows "ids_distinct (es[i := e])"
  using assms unfolding ids_distinct_def held_None_iff
  by (metis length_list_update nth_list_update_eq nth_list_update_neq nth_mem)

lemma ids_distinct_remove:
  "ids_distinct es \<Longrightarrow> \<not> e_active e \<Longrightarrow> ids_distinct (es[i := e])"
  unfolding ids_distinct_def
  by (metis length_list_update nth_list_update_eq nth_list_update_neq)

lemma held_add:
  assumes "ids_distinct es" and "i < length es" and "\<not> e_active (es ! i)"
    and "held es (e_packetID e) = None" and "e_active e"
  shows "held (es[i := e]) = (held es)(e_packetID e \<mapsto> e_payload e)"
proof (rule map_eqI_Some)
  fix k v
  have "held (es[i := e]) k = Some v \<longleftrightarrow>
      (\<exists>j<length es. (if j = i then e_packetID e = k \<and> e_payload e = v
         else e_active (es ! j) \<and> e_packetID (es ! j) = k \<and> e_payload (es ! j) = v))"
    using assms by (subst held_Some_iff) (auto intro: ids_distinct_add simp: nth_list_update)
  also have "\<dots> \<longleftrightarrow> ((held es)(e_packetID e \<mapsto> e_payload e)) k = Some v"
    using assms held_Some_iff [OF assms(1), of k v] assms(4)
    by (auto simp: held_None_iff)
  finally show "held (es[i := e]) k = Some v
      \<longleftrightarrow> ((held es)(e_packetID e \<mapsto> e_payload e)) k = Some v" .
qed

lemma held_remove:
  assumes "ids_distinct es" and "i < length es" and "e_active (es ! i)" and "\<not> e_active e"
  shows "held (es[i := e]) = (held es)(e_packetID (es ! i) := None)"
proof (rule map_eqI_Some)
  fix k v
  have "held (es[i := e]) k = Some v \<longleftrightarrow>
      (\<exists>j<length es. j \<noteq> i \<and> e_active (es ! j) \<and> e_packetID (es ! j) = k \<and> e_payload (es ! j) = v)"
    using assms by (subst held_Some_iff) (auto intro: ids_distinct_remove simp: nth_list_update)
  also have "\<dots> \<longleftrightarrow> ((held es)(e_packetID (es ! i) := None)) k = Some v"
    using assms held_Some_iff [OF assms(1), of k v] unfolding ids_distinct_def by auto
  finally show "held (es[i := e]) k = Some v
      \<longleftrightarrow> ((held es)(e_packetID (es ! i) := None)) k = Some v" .
qed

lemma Put_cases:
  obtains (same) "fst (Put r pid p) = r" "snd (Put r pid p) \<noteq> PutAccepted"
  | (stored) i where "Put r pid p = (set_entry i ((r_entries r ! i)\<lparr>e_active := True,
        e_packetID := pid, e_nAcks := 0, e_payload := p\<rparr>) r, PutAccepted)"
      and "find_index (\<lambda>e. \<not> e_active e) (window r) = Some i"
      and "held (window r) pid = None" and "\<not> pidMin pid (r_packetID r)"
      and "pidInRange2 pid (r_packetID r) (of_nat (r_size r))"
  by (cases "snd (Put r pid p) = PutAccepted")
    (auto simp: Put_def held_None_iff list_ex_iff split: if_splits option.splits)

lemma Put_correct:
  assumes "rec_ok r"
  shows "rec_ok (fst (Put r pid p)) \<and> r_packetID (fst (Put r pid p)) = r_packetID r \<and>
         buffered (fst (Put r pid p)) =
           (if snd (Put r pid p) = PutAccepted then (buffered r)(pid \<mapsto> p) else buffered r) \<and>
         (snd (Put r pid p) = PutAccepted \<longrightarrow> buffered r pid = None) \<and>
         (snd (Put r pid p) = PutDuplicate \<longleftrightarrow>
            \<not> pidMin pid (r_packetID r) \<and> buffered r pid \<noteq> None)"
proof -
  have dup: "snd (Put r pid p) = PutDuplicate \<longleftrightarrow>
      \<not> pidMin pid (r_packetID r) \<and> buffered r pid \<noteq> None"
    by (auto simp: Put_def buffered_def held_None_iff list_ex_iff split: option.splits)
  show ?thesis
  proof (cases rule: Put_cases [of r pid p])
    case same
    with assms dup show ?thesis by simp
  next
    case (stored i)
    have wf: "rel_wf r" and dist: "ids_distinct (window r)"
      using assms by (simp_all add: rec_ok_def)
    from find_window [OF wf stored(2)] have i: "i < r_size r" and "\<not> e_active (r_entries r ! i)"
      and "window r ! i = r_entries r ! i"
      by simp_all
    with stored(1,3) wf dist dup show ?thesis
      by (simp add: rec_ok_def buffered_def held_add ids_distinct_add length_window)
  qed
qed

lemma Get_correct:
  assumes "rec_ok r"
  shows "(case buffered r (r_packetID r) of
            None \<Rightarrow> Get r = (r, None)
          | Some p \<Rightarrow> snd (Get r) = Some p \<and> rec_ok (fst (Get r)) \<and>
              r_packetID (fst (Get r)) = r_packetID r + 1 \<and>
              buffered (fst (Get r)) = (buffered r)(r_packetID r := None))"
proof (cases "find_index (\<lambda>e. e_active e \<and> e_packetID e = r_packetID r) (window r)")
  case None
  then have "buffered r (r_packetID r) = None"
    by (simp add: buffered_def held_None_iff find_index_None)
  with None show ?thesis by (simp add: Get_def)
next
  case (Some i)
  have wf: "rel_wf r" and dist: "ids_distinct (window r)"
    using assms by (simp_all add: rec_ok_def)
  from find_window [OF wf Some] have i: "i < r_size r" "e_active (window r ! i)"
    "e_packetID (window r ! i) = r_packetID r" "window r ! i = r_entries r ! i"
    by auto
  let ?e = "r_entries r ! i"
  have p: "buffered r (r_packetID r) = Some (e_payload ?e)"
    unfolding buffered_def held_Some_iff [OF dist] using i wf by (auto simp: length_window)
  have get: "Get r = ((set_entry i (?e\<lparr>e_active := False\<rparr>) r)\<lparr>r_packetID := r_packetID r + 1\<rparr>,
      Some (e_payload ?e))"
    using Some i by (simp add: Get_def Let_def)
  have "held ((window r)[i := ?e\<lparr>e_active := False\<rparr>]) = (held (window r))(r_packetID r := None)"
    using held_remove [OF dist, of i "?e\<lparr>e_active := False\<rparr>"] i wf by (simp add: length_window)
  with p get i wf dist show ?thesis
    by (simp add: rec_ok_def buffered_def ids_distinct_remove)
qed

text \<open>
  The interface the control connection relies on: storing a packet never disturbs what is
  held, and the next packet comes out exactly when it is held, in id order.
\<close>

datatype rx_event = RxPut u32 bytes | RxGet

fun rx_run :: "('s \<Rightarrow> u32 \<Rightarrow> bytes \<Rightarrow> 's \<times> put_result) \<Rightarrow> ('s \<Rightarrow> 's \<times> bytes option) \<Rightarrow> 's
    \<Rightarrow> rx_event list \<Rightarrow> 's \<times> bytes list" where
  "rx_run put get s [] = (s, [])"
| "rx_run put get s (RxPut pid p # evs) = rx_run put get (fst (put s pid p)) evs"
| "rx_run put get s (RxGet # evs) =
     (case get s of (s', out) \<Rightarrow>
        (case rx_run put get s' evs of (s'', rest) \<Rightarrow>
           (s'', (case out of None \<Rightarrow> rest | Some p \<Rightarrow> p # rest))))"

definition puts_agree :: "(u32 \<Rightarrow> bytes) \<Rightarrow> rx_event list \<Rightarrow> bool" where
  "puts_agree f evs \<longleftrightarrow> (\<forall>pid p. RxPut pid p \<in> set evs \<longrightarrow> p = f pid)"

locale ordered_delivery =
  fixes put :: "'s \<Rightarrow> u32 \<Rightarrow> bytes \<Rightarrow> 's \<times> put_result"
    and get :: "'s \<Rightarrow> 's \<times> bytes option"
    and pos :: "'s \<Rightarrow> u32"
    and content :: "'s \<Rightarrow> u32 \<Rightarrow> bytes option"
    and ok :: "'s \<Rightarrow> bool"
  assumes put_ok: "ok s \<Longrightarrow> ok (fst (put s pid p))"
    and put_pos: "ok s \<Longrightarrow> pos (fst (put s pid p)) = pos s"
    and put_content: "ok s \<Longrightarrow> content (fst (put s pid p)) =
          (if snd (put s pid p) = PutAccepted then (content s)(pid \<mapsto> p) else content s)"
    and put_fresh: "ok s \<Longrightarrow> snd (put s pid p) = PutAccepted \<Longrightarrow> content s pid = None"
    and get_none: "ok s \<Longrightarrow> content s (pos s) = None \<Longrightarrow> get s = (s, None)"
    and get_some: "ok s \<Longrightarrow> content s (pos s) = Some p \<Longrightarrow>
          snd (get s) = Some p \<and> ok (fst (get s)) \<and> pos (fst (get s)) = pos s + 1 \<and>
          content (fst (get s)) = (content s)(pos s := None)"
begin

lemma get_ok: "ok s \<Longrightarrow> ok (fst (get s))"
  using get_none [of s] get_some [of s] by (cases "content s (pos s)") auto

lemma rx_in_order:
  assumes "ok s" and "\<forall>k p. content s k = Some p \<longrightarrow> p = f k" and "puts_agree f evs"
    and "rx_run put get s evs = (s', out)"
  shows "out = map (\<lambda>k. f (pos s + of_nat k)) [0..<length out] \<and>
         pos s' = pos s + of_nat (length out)"
  using assms
proof (induction evs arbitrary: s out)
  case Nil
  then show ?case by simp
next
  case (Cons ev evs)
  show ?case
  proof (cases ev)
    case (RxPut pid p)
    with Cons.prems have "p = f pid" by (auto simp: puts_agree_def)
    let ?s = "fst (put s pid p)"
    have "\<forall>k q. content ?s k = Some q \<longrightarrow> q = f k"
      using Cons.prems(1,2) \<open>p = f pid\<close> by (simp add: put_content)
    moreover have "puts_agree f evs" and "rx_run put get ?s evs = (s', out)"
      using Cons.prems RxPut by (auto simp: puts_agree_def)
    ultimately show ?thesis
      using Cons.IH [of ?s out] Cons.prems(1) put_ok [of s pid p] put_pos [of s pid p] by simp
  next
    case RxGet
    obtain s1 o1 where g: "get s = (s1, o1)" by (cases "get s")
    obtain rest where rest: "rx_run put get s1 evs = (s', rest)"
      and out: "out = (case o1 of None \<Rightarrow> rest | Some p \<Rightarrow> p # rest)"
      using Cons.prems(4) RxGet g by (auto split: prod.splits)
    have agree: "puts_agree f evs"
      using Cons.prems(3) by (auto simp: puts_agree_def)
    show ?thesis
    proof (cases "content s (pos s)")
      case None
      with g Cons.prems(1) have "s1 = s" and "o1 = None" by (simp_all add: get_none)
      with Cons.IH [OF _ _ agree, of s rest] rest out Cons.prems(1,2) show ?thesis by simp
    next
      case (Some p)
      from get_some [OF Cons.prems(1) Some] g have o1: "o1 = Some p" and s1: "ok s1"
        "pos s1 = pos s + 1" "content s1 = (content s)(pos s := None)"
        by simp_all
      have "\<forall>k q. content s1 k = Some q \<longrightarrow> q = f k"
        using s1(3) Cons.prems(2) by simp
      from Cons.IH [OF s1(1) this agree rest] s1(2)
      have IH: "rest = map (\<lambda>k. f (pos s + of_nat (Suc k))) [0..<length rest]"
        "pos s' = pos s + of_nat (Suc (length rest))"
        by (simp_all add: add.assoc)
      have "p = f (pos s)"
        using Some Cons.prems(2) by simp
      have "out = f (pos s) # map (\<lambda>k. f (pos s + of_nat (Suc k))) [0..<length rest]"
        using out o1 \<open>p = f (pos s)\<close> IH(1) by simp
      moreover have "length out = Suc (length rest)"
        using out o1 by simp
      ultimately show ?thesis
        using IH(2) by (simp add: map_upt_Suc del: upt_Suc of_nat_Suc)
    qed
  qed
qed

text \<open>Every delivered id was stored before or put during the run.\<close>

lemma rx_delivers_stored:
  assumes "ok s" and "rx_run put get s evs = (s', out)" and "k < length out"
  shows "content s (pos s + of_nat k) \<noteq> None \<or> (\<exists>p. RxPut (pos s + of_nat k) p \<in> set evs)"
  using assms
proof (induction evs arbitrary: s out k)
  case (Cons ev evs)
  show ?case
  proof (cases ev)
    case (RxPut pid p)
    let ?s = "fst (put s pid p)"
    have "rx_run put get ?s evs = (s', out)" using Cons.prems(2) RxPut by simp
    from Cons.IH [OF put_ok [OF Cons.prems(1)] this Cons.prems(3)]
    show ?thesis
      using put_pos [OF Cons.prems(1), of pid p] put_content [OF Cons.prems(1), of pid p] RxPut
      by (auto split: if_splits)
  next
    case RxGet
    obtain s1 o1 where g: "get s = (s1, o1)" by (cases "get s")
    obtain rest where rest: "rx_run put get s1 evs = (s', rest)"
      and out: "out = (case o1 of None \<Rightarrow> rest | Some p \<Rightarrow> p # rest)"
      using Cons.prems(2) RxGet g by (auto split: prod.splits)
    show ?thesis
    proof (cases "content s (pos s)")
      case None
      with g Cons.prems(1) have "s1 = s" and "o1 = None" by (simp_all add: get_none)
      with Cons.IH [of s rest k] rest out Cons.prems(1,3) show ?thesis by auto
    next
      case (Some p)
      from get_some [OF Cons.prems(1) Some] g have s1: "o1 = Some p" "ok s1"
        "pos s1 = pos s + 1" "content s1 = (content s)(pos s := None)"
        by simp_all
      show ?thesis
      proof (cases k)
        case (Suc j)
        with Cons.IH [OF s1(2) rest, of j] Cons.prems(3) out s1 show ?thesis
          by (auto simp: add.assoc split: if_splits)
      qed (simp add: Some)
    qed
  qed
qed simp

end

interpretation rx: ordered_delivery Put Get r_packetID buffered rec_ok
proof
  fix r pid p
  assume ok: "rec_ok r"
  show "rec_ok (fst (Put r pid p))" "r_packetID (fst (Put r pid p)) = r_packetID r"
    "buffered (fst (Put r pid p)) =
       (if snd (Put r pid p) = PutAccepted then (buffered r)(pid \<mapsto> p) else buffered r)"
    using Put_correct [OF ok] by blast+
  show "buffered r pid = None" if "snd (Put r pid p) = PutAccepted"
    using Put_correct [OF ok] that by blast
  show "Get r = (r, None)" if "buffered r (r_packetID r) = None"
    using Get_correct [OF ok] that by simp
  show "snd (Get r) = Some p \<and> rec_ok (fst (Get r)) \<and>
      r_packetID (fst (Get r)) = r_packetID r + 1 \<and>
      buffered (fst (Get r)) = (buffered r)(r_packetID r := None)"
    if "buffered r (r_packetID r) = Some p"
    using Get_correct [OF ok] that by simp
qed

lemma New_reliable_rec_ok:
  "New_reliable n = Some r \<Longrightarrow> rec_ok r \<and> buffered r = Map.empty \<and> r_packetID r = 0"
  by (auto simp: New_reliable_def rec_ok_def rel_wf_def ids_distinct_def window_def buffered_def
      held_def zero_entry_def govpn_consts fun_eq_iff find_None_iff split: if_splits)

text \<open>
  C5. Whatever the order, loss and duplication of arrivals, a receive window that starts
  fresh delivers the payloads of packet 0, 1, 2, \<dots> in that order, each exactly once,
  provided every copy of a packet carries the same payload.
\<close>

theorem receive_window_in_order:
  assumes "New_reliable n = Some r" and "puts_agree f evs"
    and "rx_run Put Get r evs = (r', out)"
  shows "out = map (\<lambda>k. f (of_nat k)) [0..<length out] \<and> r_packetID r' = of_nat (length out)"
  using rx.rx_in_order [of r f evs r' out] New_reliable_rec_ok [OF assms(1)] assms(2,3) by simp

theorem receive_window_in_order_witness:
  "let evs = [RxPut 1 [11], RxGet, RxPut 0 [10], RxPut 1 [11], RxGet, RxGet, RxGet]
   in snd (rx_run Put Get (the (New_reliable 12)) evs) = [[10], [11]]"
proof -
  let ?f = "\<lambda>k :: u32. [if k = 0 then 10 else 11] :: bytes"
  let ?evs = "[RxPut 1 [11], RxGet, RxPut 0 [10], RxPut 1 [11], RxGet, RxGet, RxGet]"
  obtain r' out where run: "rx_run Put Get (the (New_reliable 12)) ?evs = (r', out)"
    by (cases "rx_run Put Get (the (New_reliable 12)) ?evs")
  have "New_reliable 12 = Some (the (New_reliable 12))"
    by (simp add: New_reliable_def govpn_consts)
  moreover have "puts_agree ?f ?evs"
    by (auto simp: puts_agree_def)
  ultimately have "out = map (\<lambda>k. ?f (of_nat k)) [0..<length out]"
    using receive_window_in_order [OF _ _ run] by blast
  moreover have "length out = 2"
  proof -
    have "length (snd (rx_run Put Get (the (New_reliable 12)) ?evs)) = 2"
      by code_simp
    then show ?thesis using run by simp
  qed
  ultimately show ?thesis
    using run by (simp add: upt_rec numeral_2_eq_2)
qed

section \<open>The send window\<close>

text \<open>
  How far an id lies behind the next id to assign, counted with wrap-around. In a window of
  ids that close together \<open>pidMin\<close> is the order of age.
\<close>

definition behind :: "u32 \<Rightarrow> u32 \<Rightarrow> nat" where
  "behind P a = unat (P - a)"

definition send_ok :: "reliable \<Rightarrow> bool" where
  "send_ok r \<longleftrightarrow> rel_wf r \<and> ids_distinct (window r) \<and>
     (\<forall>e\<in>set (window r). e_active e \<longrightarrow>
        1 \<le> behind (r_packetID r) (e_packetID e) \<and>
        behind (r_packetID r) (e_packetID e) \<le> r_size r)"

lemma unat_sub_wrap:
  "unat ((x :: u32) - y) = (if unat y \<le> unat x then unat x - unat y
                            else 2 ^ 32 - (unat y - unat x))"
  using unat_u32_less [of x] unat_u32_less [of y]
  by (simp add: unat_sub_if_size word_size) linarith

lemma pidMin_behind:
  assumes "behind P a \<le> 12" and "behind P b \<le> 12"
  shows "pidMin a b \<longleftrightarrow> behind P b < behind P a"
proof -
  have "a - b = (P - b) - (P - a)" by simp
  then have "unat (a - b) = (if behind P a \<le> behind P b then behind P b - behind P a
      else 2 ^ 32 - (behind P a - behind P b))"
    unfolding behind_def by (simp only: unat_sub_wrap)
  with assms show ?thesis
    by (auto simp: pidMin_def pidInRange1_def subtractPID_def word_less_nat_alt)
qed

lemma min_active_oldest:
  assumes "\<forall>e\<in>set es. e_active e \<longrightarrow> behind P (e_packetID e) \<le> 12"
    and "\<forall>x. m = Some x \<longrightarrow> behind P x \<le> 12"
  shows "case min_active es m of
      None \<Rightarrow> m = None \<and> (\<forall>e\<in>set es. \<not> e_active e)
    | Some y \<Rightarrow> (\<forall>x. m = Some x \<longrightarrow> behind P x \<le> behind P y) \<and>
        (\<forall>e\<in>set es. e_active e \<longrightarrow> behind P (e_packetID e) \<le> behind P y)"
  using assms
proof (induction es arbitrary: m)
  case Nil
  then show ?case by (cases m) auto
next
  case (Cons e es)
  let ?m = "if e_active e \<and> (case m of None \<Rightarrow> True | Some x \<Rightarrow> pidMin (e_packetID e) x)
    then Some (e_packetID e) else m"
  have "\<forall>x. ?m = Some x \<longrightarrow> behind P x \<le> 12"
    using Cons.prems by auto
  note IH = Cons.IH [OF _ this]
  have step: "\<forall>x. (m = Some x \<or> (e_active e \<and> x = e_packetID e)) \<longrightarrow>
      (\<exists>y. ?m = Some y \<and> behind P x \<le> behind P y)"
  proof (cases m)
    case None
    then show ?thesis by auto
  next
    case (Some z)
    then show ?thesis
      using Cons.prems pidMin_behind [of P "e_packetID e" z] by auto
  qed
  show ?case
  proof (cases "min_active es ?m")
    case None
    with IH Cons.prems have "?m = None" and "\<forall>e\<in>set es. \<not> e_active e"
      by auto
    with None step show ?thesis by (auto split: if_splits option.splits)
  next
    case (Some y)
    with IH Cons.prems have "\<forall>x. ?m = Some x \<longrightarrow> behind P x \<le> behind P y"
      and "\<forall>e\<in>set es. e_active e \<longrightarrow> behind P (e_packetID e) \<le> behind P y"
      by auto
    with Some step show ?thesis
      by (auto simp del: split_paired_Ex intro: order.trans)
  qed
qed

lemma behind_Suc:
  assumes "behind P a \<le> 12"
  shows "behind (P + 1) a = Suc (behind P a)"
proof -
  have "P + 1 - a = (P - a) + 1" by simp
  then show ?thesis
    using assms by (simp only: behind_def) (simp add: unat_word_ariths)
qed

lemma size_le_12: "rel_wf r \<Longrightarrow> r_size r \<le> 12"
  by (simp add: rel_wf_def govpn_consts)

lemma Next_SomeD:
  assumes "send_ok r" and "Next r = Some i"
  shows "i < r_size r" and "\<not> e_active (r_entries r ! i)"
    and "\<forall>e\<in>set (window r). e_active e \<longrightarrow> behind (r_packetID r) (e_packetID e) < r_size r"
proof -
  have wf: "rel_wf r" using assms(1) by (simp add: send_ok_def)
  have "find_index (\<lambda>e. \<not> e_active e) (window r) = Some i"
    using assms(2) by (auto simp: Next_def split: option.splits if_splits)
  from find_window [OF wf this] show "i < r_size r" and "\<not> e_active (r_entries r ! i)"
    by simp_all
  have close: "\<forall>e\<in>set (window r). e_active e \<longrightarrow> behind (r_packetID r) (e_packetID e) \<le> 12"
    using assms(1) size_le_12 [OF wf] by (auto simp: send_ok_def)
  note oldest = min_active_oldest [OF close, of None]
  show "\<forall>e\<in>set (window r). e_active e \<longrightarrow> behind (r_packetID r) (e_packetID e) < r_size r"
  proof (cases "min_active (window r) None")
    case None
    with oldest show ?thesis by auto
  next
    case (Some y)
    with assms(2) have "pidInRange1 (r_packetID r) y (of_nat (r_size r))"
      by (auto simp: Next_def split: if_splits)
    then have "behind (r_packetID r) y < r_size r"
      using size_le_12 [OF wf]
      by (simp add: pidInRange1_def subtractPID_def behind_def word_less_nat_alt unat_of_nat)
    with Some oldest show ?thesis by fastforce
  qed
qed

lemma held_None_if_not_behind:
  "\<forall>e\<in>set es. e_active e \<longrightarrow> 1 \<le> behind P (e_packetID e) \<Longrightarrow> held es P = None"
  by (auto simp: held_None_iff behind_def)

lemma send_ok_MarkActive:
  assumes "send_ok r" and "Next r = Some i"
  shows "send_ok (fst (MarkActive r i))"
proof -
  note nx = Next_SomeD [OF assms]
  let ?P = "r_packetID r"
  let ?e = "(r_entries r ! i)\<lparr>e_packetID := ?P, e_active := True, e_nAcks := 0,
    e_timeout := r_initialTimeout r, e_nextTry := 0\<rparr>"
  have wf: "rel_wf r" and dist: "ids_distinct (window r)"
    and low: "\<forall>e\<in>set (window r). e_active e \<longrightarrow> 1 \<le> behind ?P (e_packetID e)"
    using assms(1) by (simp_all add: send_ok_def)
  have "ids_distinct ((window r)[i := ?e])"
    using dist held_None_if_not_behind [OF low] by (intro ids_distinct_add) simp_all
  moreover have "1 \<le> behind (?P + 1) (e_packetID e) \<and> behind (?P + 1) (e_packetID e) \<le> r_size r"
    if "e \<in> set ((window r)[i := ?e])" and "e_active e" for e
  proof (cases "e = ?e")
    case True
    then show ?thesis using wf by (simp add: behind_def rel_wf_def)
  next
    case False
    with that(1) have "e \<in> set (window r)"
      using set_update_subset_insert [of "window r" i ?e] by blast
    with nx(3) that(2) have less: "behind ?P (e_packetID e) < r_size r" by blast
    with size_le_12 [OF wf] have "behind (?P + 1) (e_packetID e) = Suc (behind ?P (e_packetID e))"
      by (intro behind_Suc) simp
    with less show ?thesis by simp
  qed
  ultimately show ?thesis
    using wf nx(1) by (simp add: send_ok_def MarkActive_def Let_def)
qed

text \<open>
  Operations that change no active id and activate nothing keep the invariant.
\<close>

definition tamer :: "rel_entry \<Rightarrow> rel_entry \<Rightarrow> bool" where
  "tamer e' e \<longleftrightarrow> (e_active e' \<longrightarrow> e_active e \<and> e_packetID e' = e_packetID e)"

lemma ids_distinct_tamer:
  "list_all2 tamer es' es \<Longrightarrow> ids_distinct es \<Longrightarrow> ids_distinct es'"
  unfolding ids_distinct_def tamer_def list_all2_conv_all_nth by metis

lemma send_ok_tamer:
  assumes "send_ok r" and "rel_wf r'" and "r_packetID r' = r_packetID r"
    and "r_size r' = r_size r" and tame: "list_all2 tamer (window r') (window r)"
  shows "send_ok r'"
proof -
  have "\<exists>e\<in>set (window r). e_active e \<and> e_packetID e' = e_packetID e"
    if "e' \<in> set (window r')" "e_active e'" for e'
    using tame that unfolding list_all2_conv_all_nth in_set_conv_nth tamer_def
    by (metis nth_mem)
  with assms ids_distinct_tamer [OF tame] show ?thesis
    unfolding send_ok_def by metis
qed

lemma tamer_refl: "tamer e e"
  by (simp add: tamer_def)

lemma tamer_update:
  "i < length es \<Longrightarrow> tamer e (es ! i) \<Longrightarrow> list_all2 tamer (es[i := e]) es"
  by (auto simp: list_all2_conv_all_nth nth_list_update tamer_def)

lemma ack_one_window: "rel_wf r \<Longrightarrow> window (ack_one pid r) = map (ack_entry pid) (window r)"
  by (simp add: ack_one_def window_def rel_wf_def)

lemma ack_one_wf: "rel_wf r \<Longrightarrow> rel_wf (ack_one pid r)"
  by (simp add: ack_one_def rel_wf_def window_def)

lemma ack_one_fields [simp]:
  "r_packetID (ack_one pid r) = r_packetID r" "r_size (ack_one pid r) = r_size r"
  "r_initialTimeout (ack_one pid r) = r_initialTimeout r"
  by (simp_all add: ack_one_def)

lemma send_ok_ack_one: "send_ok r \<Longrightarrow> send_ok (ack_one pid r)"
  by (rule send_ok_tamer)
    (auto simp: send_ok_def ack_one_wf ack_one_window list_all2_conv_all_nth tamer_def ack_entry_def)

lemma send_ok_Ack: "send_ok r \<Longrightarrow> send_ok (Ack r ids)"
  unfolding Ack_def by (induction ids arbitrary: r) (simp_all add: send_ok_ack_one)

lemma best_due_index:
  assumes "best_due now i es b = Some (j, e)"
  shows "b = Some (j, e) \<or> (i \<le> j \<and> j < i + length es \<and> es ! (j - i) = e \<and> entry_due now e)"
  using assms
proof (induction es arbitrary: i b)
  case Nil
  then show ?case by simp
next
  case (Cons x es)
  then have "best_due now (Suc i) es (if entry_due now x \<and>
      (case b of None \<Rightarrow> True | Some (_, b) \<Rightarrow> pidMin (e_packetID x) (e_packetID b))
      then Some (i, x) else b) = Some (j, e)"
    by simp
  from Cons.IH [OF this] show ?case
    by (auto split: if_splits simp: nth_Cons')
qed

lemma Due_cases:
  assumes "rel_wf r"
  obtains (none) "Due r now = (r, None)" "best_due now 0 (window r) None = None"
  | (sent) i where "i < r_size r" "entry_due now (r_entries r ! i)"
      "Due r now = (set_entry i (resend_entry now (r_entries r ! i)) r,
         Some (e_payload (r_entries r ! i), e_packetID (r_entries r ! i)))"
      "best_due now 0 (window r) None = Some (i, r_entries r ! i)"
proof (cases "best_due now 0 (window r) None")
  case None
  then show ?thesis using none by (simp add: Due_def)
next
  case (Some y)
  obtain i b where y: "y = (i, b)" by (cases y)
  from best_due_index [OF Some [unfolded y]] assms
  have i: "i < r_size r" "window r ! i = b" "entry_due now b"
    by (auto simp: length_window)
  then have "r_entries r ! i = b"
    using assms by (simp add: window_nth)
  with sent [of i] i Some y show ?thesis
    by (simp add: Due_def)
qed

lemma send_ok_Due:
  assumes "send_ok r"
  shows "send_ok (fst (Due r now))"
proof -
  have wf: "rel_wf r" using assms by (simp add: send_ok_def)
  then show ?thesis
  proof (cases rule: Due_cases [where now = now])
    case none
    with assms show ?thesis by simp
  next
    case (sent i)
    with wf have "list_all2 tamer (window (fst (Due r now))) (window r)"
      by (auto simp: length_window window_nth resend_entry_def tamer_def intro!: tamer_update)
    with sent wf assms show ?thesis
      by (intro send_ok_tamer [OF assms]) simp_all
  qed
qed

lemma send_ok_SetPayload:
  assumes "send_ok r" and "i < r_size r"
  shows "send_ok (SetPayload r i p)"
proof -
  have wf: "rel_wf r" using assms by (simp add: send_ok_def)
  with assms(2) have "list_all2 tamer (window (SetPayload r i p)) (window r)"
    by (auto simp: SetPayload_def length_window window_nth tamer_def intro!: tamer_update)
  with wf show ?thesis
    by (intro send_ok_tamer [OF assms(1)]) (simp_all add: SetPayload_def)
qed

text \<open>
  Every way a caller drives a send window: transmit a packet in a slot \<open>Next\<close> handed
  out, process a batch of acknowledgements, poll for a retransmission.
\<close>

inductive send_step :: "reliable \<Rightarrow> reliable \<Rightarrow> bool" where
  transmit: "Next r = Some i \<Longrightarrow> send_step r (SetPayload (fst (MarkActive r i)) i p)"
| acked: "send_step r (Ack r ids)"
| polled: "send_step r (fst (Due r now))"

inductive send_reach :: "int \<Rightarrow> reliable \<Rightarrow> bool" for n :: int where
  start: "New_reliable n = Some r \<Longrightarrow> send_reach n r"
| step: "send_reach n r \<Longrightarrow> send_step r r' \<Longrightarrow> send_reach n r'"

inductive_cases send_stepE: "send_step r r'"

lemma MarkActive_size [simp]: "r_size (fst (MarkActive r i)) = r_size r"
  by (simp add: MarkActive_def Let_def)

lemma send_step_ok: "send_step r r' \<Longrightarrow> send_ok r \<Longrightarrow> send_ok r'"
proof (induction rule: send_step.induct)
  case (transmit r i p)
  then show ?case
    by (intro send_ok_SetPayload send_ok_MarkActive) (simp_all add: Next_SomeD(1))
qed (rule send_ok_Ack send_ok_Due, assumption)+

lemma New_reliable_send_ok: "New_reliable n = Some r \<Longrightarrow> send_ok r"
  using New_reliable_rec_ok [of n r]
  by (auto simp: send_ok_def rec_ok_def New_reliable_def window_def zero_entry_def
      split: if_splits)

lemma send_reach_ok: "send_reach n r \<Longrightarrow> send_ok r"
  by (induction rule: send_reach.induct) (auto intro: New_reliable_send_ok send_step_ok)

text \<open>
  C8. In every reachable state of a send window the unacknowledged packet ids are pairwise
  distinct and all lie within the last \<open>size\<close> ids assigned, also across the wrap of the
  32-bit id, so the peer's receive window can hold them all.
\<close>

theorem send_window_bounded:
  assumes "send_reach n r"
  shows "ids_distinct (window r) \<and>
         (\<forall>e\<in>set (window r). e_active e \<longrightarrow>
            1 \<le> unat (r_packetID r - e_packetID e) \<and>
            unat (r_packetID r - e_packetID e) \<le> r_size r)"
  using send_reach_ok [OF assms] by (simp add: send_ok_def behind_def)

theorem send_window_bounded_witness:
  "\<exists>r. send_reach 6 r \<and> active_ids r = [0] \<and> ids_distinct (window r)"
proof -
  let ?r0 = "the (New_reliable 6)"
  let ?r1 = "SetPayload (fst (MarkActive ?r0 0)) 0 [1]"
  have "New_reliable 6 = Some ?r0" by (simp add: New_reliable_def govpn_consts)
  moreover have "Next ?r0 = Some 0" by code_simp
  ultimately have "send_reach 6 ?r1"
    by (blast intro: send_reach.intros send_step.intros)
  moreover have "active_ids ?r1 = [0]" by code_simp
  ultimately show ?thesis using send_window_bounded by blast
qed

lemma active_ids_ack_one:
  "rel_wf r \<Longrightarrow> active_ids (ack_one pid r) = filter (\<lambda>x. x \<noteq> pid) (active_ids r)"
proof -
  assume "rel_wf r"
  have "map e_packetID (filter e_active (map (ack_entry pid) es)) =
      filter (\<lambda>x. x \<noteq> pid) (map e_packetID (filter e_active es))" for es
    by (induction es) (auto simp: ack_entry_def)
  with \<open>rel_wf r\<close> show ?thesis by (simp add: active_ids_def ack_one_window)
qed

lemma active_ids_Ack:
  "rel_wf r \<Longrightarrow> active_ids (Ack r ids) = filter (\<lambda>x. x \<notin> set ids) (active_ids r)"
  unfolding Ack_def
proof (induction ids arbitrary: r)
  case (Cons pid ids)
  from Cons.prems have "rel_wf (ack_one pid r)" by (rule ack_one_wf)
  from Cons.IH [OF this] Cons.prems show ?case
    by (simp add: active_ids_ack_one conj_commute)
qed simp

lemma Empty_iff: "Empty r \<longleftrightarrow> active_ids r = []"
  by (auto simp: Empty_def active_ids_def list_all_iff filter_empty_conv)

text \<open>
  Acknowledging purges exactly the acknowledged packets: what stays outstanding is what
  was outstanding and is not in the batch, in the same slots' order, and the window drains
  exactly when the batch covers everything outstanding.
\<close>

theorem ack_purges_exactly:
  assumes "send_reach n r"
  shows "active_ids (Ack r ids) = filter (\<lambda>x. x \<notin> set ids) (active_ids r) \<and>
         (Empty (Ack r ids) \<longleftrightarrow> set (active_ids r) \<subseteq> set ids) \<and>
         r_packetID (Ack r ids) = r_packetID r"
proof -
  have wf: "rel_wf r" using send_reach_ok [OF assms] by (simp add: send_ok_def)
  have "r_packetID (Ack r ids) = r_packetID r"
    unfolding Ack_def by (induction ids arbitrary: r) simp_all
  with active_ids_Ack [OF wf, of ids] show ?thesis
    by (auto simp: Empty_iff filter_empty_conv)
qed

theorem ack_purges_exactly_witness:
  "\<exists>r. send_reach 6 r \<and> active_ids r = [0] \<and> Empty (Ack r [0])"
proof -
  let ?r0 = "the (New_reliable 6)"
  let ?r1 = "SetPayload (fst (MarkActive ?r0 0)) 0 [1]"
  have "New_reliable 6 = Some ?r0" by (simp add: New_reliable_def govpn_consts)
  moreover have "Next ?r0 = Some 0" by code_simp
  ultimately have reach: "send_reach 6 ?r1"
    by (blast intro: send_reach.intros send_step.intros)
  moreover have "active_ids ?r1 = [0]" by code_simp
  ultimately show ?thesis using ack_purges_exactly [OF reach, of "[0]"] by auto
qed

lemma best_due_oldest:
  assumes "\<forall>e\<in>set es. e_active e \<longrightarrow> behind P (e_packetID e) \<le> 12"
    and "\<forall>j b. best = Some (j, b) \<longrightarrow> behind P (e_packetID b) \<le> 12"
  shows "case best_due now i es best of
      None \<Rightarrow> best = None \<and> (\<forall>e\<in>set es. \<not> entry_due now e)
    | Some (k, y) \<Rightarrow>
        (\<forall>j b. best = Some (j, b) \<longrightarrow> behind P (e_packetID b) \<le> behind P (e_packetID y)) \<and>
        (\<forall>e\<in>set es. entry_due now e \<longrightarrow>
           behind P (e_packetID e) \<le> behind P (e_packetID y))"
  using assms
proof (induction es arbitrary: i best)
  case Nil
  then show ?case by (auto split: option.splits)
next
  case (Cons e es)
  let ?b = "if entry_due now e \<and>
      (case best of None \<Rightarrow> True | Some (_, b) \<Rightarrow> pidMin (e_packetID e) (e_packetID b))
    then Some (i, e) else best"
  have "\<forall>j b. ?b = Some (j, b) \<longrightarrow> behind P (e_packetID b) \<le> 12"
    using Cons.prems by (auto simp: entry_due_def)
  note IH = Cons.IH [OF _ this, of "Suc i"]
  have step: "(\<forall>j b. best = Some (j, b) \<longrightarrow>
        (\<exists>k y. ?b = Some (k, y) \<and> behind P (e_packetID b) \<le> behind P (e_packetID y))) \<and>
      (entry_due now e \<longrightarrow>
        (\<exists>k y. ?b = Some (k, y) \<and> behind P (e_packetID e) \<le> behind P (e_packetID y)))"
  proof (cases best)
    case None
    then show ?thesis by auto
  next
    case (Some z)
    obtain j b where z: "z = (j, b)" by (cases z)
    show ?thesis
      using Cons.prems Some z pidMin_behind [of P "e_packetID e" "e_packetID b"]
      by (auto simp: entry_due_def)
  qed
  show ?case
  proof (cases "best_due now (Suc i) es ?b")
    case None
    with IH Cons.prems have "?b = None" and "\<forall>e\<in>set es. \<not> entry_due now e"
      by auto
    with None step show ?thesis
      by (auto split: if_splits option.splits)
  next
    case (Some ky)
    obtain k y where ky: "ky = (k, y)" by (cases ky)
    with Some IH Cons.prems
    have "\<forall>j b. ?b = Some (j, b) \<longrightarrow> behind P (e_packetID b) \<le> behind P (e_packetID y)"
      and "\<forall>e\<in>set es. entry_due now e \<longrightarrow> behind P (e_packetID e) \<le> behind P (e_packetID y)"
      by auto
    with Some ky step show ?thesis
      by (auto intro: order.trans simp del: split_paired_Ex)
  qed
qed

text \<open>
  Polling sends the oldest outstanding packet that is due, if there is one, and backs
  off only that one: its next attempt lies one timeout ahead, its timeout is doubled (as a
  64-bit integer) and its early-retransmit count is cleared; the outstanding set is kept.
\<close>

theorem due_oldest_and_backoff:
  assumes "send_reach n r"
  shows "(snd (Due r now) = None \<longleftrightarrow> (\<forall>e\<in>set (window r). \<not> entry_due now e)) \<and>
         (snd (Due r now) = None \<longrightarrow> fst (Due r now) = r) \<and>
         (\<forall>p pid. snd (Due r now) = Some (p, pid) \<longrightarrow>
            (\<exists>i<r_size r. entry_due now (window r ! i) \<and> e_packetID (window r ! i) = pid \<and>
               e_payload (window r ! i) = p \<and>
               (\<forall>e\<in>set (window r). entry_due now e \<longrightarrow>
                  unat (r_packetID r - e_packetID e) \<le> unat (r_packetID r - pid)) \<and>
               window (fst (Due r now)) = (window r)[i := (window r ! i)
                 \<lparr>e_nextTry := now + sint (e_timeout (window r ! i)),
                  e_timeout := e_timeout (window r ! i) * 2, e_nAcks := 0\<rparr>])) \<and>
         active_ids (fst (Due r now)) = active_ids r"
proof -
  have ok: "send_ok r" by (rule send_reach_ok [OF assms])
  then have wf: "rel_wf r" by (simp add: send_ok_def)
  have close: "\<forall>e\<in>set (window r). e_active e \<longrightarrow> behind (r_packetID r) (e_packetID e) \<le> 12"
    using ok size_le_12 [OF wf] by (auto simp: send_ok_def)
  note oldest = best_due_oldest [OF close, of None now 0]
  from wf show ?thesis
  proof (cases rule: Due_cases [where now = now])
    case none
    with oldest show ?thesis by simp
  next
    case (sent i)
    let ?e = "window r ! i"
    have e: "r_entries r ! i = ?e" using wf sent(1) by (simp add: window_nth)
    have mem: "?e \<in> set (window r)" using wf sent(1) by (simp add: length_window)
    have upd: "window (fst (Due r now)) = (window r)[i := resend_entry now ?e]"
      using sent(1,3) e by simp
    have "active_ids (fst (Due r now)) = active_ids r"
    proof -
      have "map e_packetID (filter e_active (es[k := resend_entry now (es ! k)])) =
          map e_packetID (filter e_active es)" for es k
        by (induction es arbitrary: k) (auto simp: resend_entry_def nth_Cons' split: nat.splits)
      with upd show ?thesis by (simp add: active_ids_def)
    qed
    moreover have "\<forall>x\<in>set (window r). entry_due now x \<longrightarrow>
        unat (r_packetID r - e_packetID x) \<le> unat (r_packetID r - e_packetID ?e)"
      using oldest sent(4) e by (simp add: behind_def)
    ultimately show ?thesis
      using sent mem e upd by (auto simp: resend_entry_def add_duration_def)
  qed
qed

theorem due_oldest_and_backoff_witness:
  "\<exists>r. send_reach 6 r \<and> snd (Due r 5) = Some ([1], 0) \<and> active_ids (fst (Due r 5)) = [0]"
proof -
  let ?r0 = "the (New_reliable 6)"
  let ?r1 = "SetPayload (fst (MarkActive ?r0 0)) 0 [1]"
  have "New_reliable 6 = Some ?r0" by (simp add: New_reliable_def govpn_consts)
  moreover have "Next ?r0 = Some 0" by code_simp
  ultimately have reach: "send_reach 6 ?r1"
    by (blast intro: send_reach.intros send_step.intros)
  moreover have "active_ids ?r1 = [0]" and "snd (Due ?r1 5) = Some ([1], 0)" by code_simp+
  ultimately show ?thesis using due_oldest_and_backoff [OF reach, of 5] by auto
qed

section \<open>Backoff as a 64-bit integer\<close>

text \<open>
  The retransmit loop polls at successive clock readings until nothing is due. An entry whose
  timeout has become zero stays due for ever; 54 early retransmissions, each provoked by
  three acknowledgements of a higher id and each doubling the timeout, shift the initial two
  seconds out of the 64-bit duration.
\<close>

fun poll :: "reliable \<Rightarrow> instant list \<Rightarrow> reliable \<times> (bytes \<times> u32) option list" where
  "poll r [] = (r, [])"
| "poll r (t # ts) =
     (case Due r t of (r', out) \<Rightarrow> (case poll r' ts of (r'', outs) \<Rightarrow> (r'', out # outs)))"

definition provoke :: "u32 \<Rightarrow> instant \<Rightarrow> reliable \<Rightarrow> reliable" where
  "provoke pid now r = fst (Due (Ack r [pid, pid, pid]) now)"

definition spinning :: "instant \<Rightarrow> reliable \<Rightarrow> bool" where
  "spinning now r \<longleftrightarrow> rel_wf r \<and>
     (\<exists>i<r_size r. e_active (r_entries r ! i) \<and> e_timeout (r_entries r ! i) = 0 \<and>
        e_nextTry (r_entries r ! i) \<le> now)"

lemma best_due_None_iff:
  "best_due now i es b = None \<longleftrightarrow> b = None \<and> (\<forall>e\<in>set es. \<not> entry_due now e)"
  by (induction es arbitrary: i b) auto

lemma spinning_Due:
  assumes "spinning now r" and "now \<le> t"
  shows "snd (Due r t) \<noteq> None \<and> spinning t (fst (Due r t))"
proof -
  from assms obtain i where wf: "rel_wf r" and i: "i < r_size r" "e_active (r_entries r ! i)"
    "e_timeout (r_entries r ! i) = 0" "e_nextTry (r_entries r ! i) \<le> t"
    by (auto simp: spinning_def)
  from wf show ?thesis
  proof (cases rule: Due_cases [where now = t])
    case none
    then have "\<not> entry_due t (window r ! i)"
      using wf i(1) by (simp add: best_due_None_iff length_window)
    with i wf show ?thesis by (simp add: entry_due_def window_nth)
  next
    case (sent j)
    let ?r = "fst (Due r t)"
    have "length (r_entries r) = Capacity" using wf by (simp add: rel_wf_def)
    moreover have "i < Capacity" using wf i(1) by (simp add: rel_wf_def)
    ultimately have "e_active (r_entries ?r ! i) \<and> e_timeout (r_entries ?r ! i) = 0 \<and>
        e_nextTry (r_entries ?r ! i) \<le> t"
      using sent i
      by (cases "i = j") (simp_all add: set_entry_def resend_entry_def add_duration_def)
    with sent wf i show ?thesis by (auto simp: spinning_def)
  qed
qed

lemma spinning_poll:
  "spinning now r \<Longrightarrow> sorted (now # ts) \<Longrightarrow> None \<notin> set (snd (poll r ts))"
proof (induction ts arbitrary: now r)
  case (Cons t ts)
  have "now \<le> t" and "sorted (t # ts)" using Cons.prems by auto
  note step = spinning_Due [OF Cons.prems(1) this(1)] and IH = Cons.IH [OF _ this(2)]
  obtain r' out where d: "Due r t = (r', out)" by (cases "Due r t")
  with step IH [of r'] show ?case
    by (auto split: prod.splits)
qed simp

lemma provoke_step: "send_reach n r \<Longrightarrow> send_reach n (provoke pid now r)"
  unfolding provoke_def by (blast intro: send_reach.step send_step.intros)

lemma provoke_funpow: "send_reach n r \<Longrightarrow> send_reach n ((provoke pid now ^^ k) r)"
  by (induction k) (simp_all add: provoke_step)

definition one_outstanding :: "duration \<Rightarrow> instant \<Rightarrow> reliable" where
  "one_outstanding T nt =
     \<lparr>r_size = 6, r_initialTimeout = TLSTimeout, r_packetID = 1,
      r_entries = \<lparr>e_active = True, e_timeout = T, e_nextTry = nt, e_packetID = 0,
                   e_nAcks = 0, e_payload = [1]\<rparr> # replicate 11 zero_entry\<rparr>"

lemma one_outstanding_reach: "send_reach 6 (one_outstanding TLSTimeout 0)"
proof -
  let ?r = "the (New_reliable 6)"
  have "New_reliable 6 = Some ?r"
    by (simp add: New_reliable_def govpn_consts)
  moreover have "Next ?r = Some 0" by code_simp
  ultimately have "send_reach 6 (SetPayload (fst (MarkActive ?r 0)) 0 [1])"
    by (blast intro: send_reach.intros send_step.intros)
  moreover have "SetPayload (fst (MarkActive ?r 0)) 0 [1] = one_outstanding TLSTimeout 0"
    by (simp add: New_reliable_def Capacity_def SetPayload_def MarkActive_def set_entry_def
        one_outstanding_def zero_entry_def numeral_eq_Suc Let_def)
  ultimately show ?thesis by simp
qed

lemma provoke_one_outstanding:
  "provoke 1 5 (one_outstanding T nt) = one_outstanding (T * 2) (5 + sint T)"
  by (simp add: provoke_def one_outstanding_def Ack_def ack_one_def window_def ack_entry_def
      zero_entry_def Due_def entry_due_def set_entry_def resend_entry_def add_duration_def
      NAckRetransmit_def numeral_eq_Suc)

lemma provoke_one_outstanding_funpow:
  "(provoke 1 5 ^^ k) (one_outstanding T nt) =
     one_outstanding (T * 2 ^ k) (if k = 0 then nt else 5 + sint (T * 2 ^ (k - 1)))"
proof (induction k)
  case (Suc k)
  then show ?case
    by (simp add: provoke_one_outstanding mult.assoc power_commutes)
qed simp

lemma provoked_spins: "spinning 5 ((provoke 1 5 ^^ 54) (one_outstanding TLSTimeout 0))"
  unfolding provoke_one_outstanding_funpow
  by (simp add: spinning_def one_outstanding_def rel_wf_def govpn_consts)
    (intro exI [of _ 0], simp)

text \<open>
  C39. The doubling of the retransmit timeout overflows: there is a reachable state of a send
  window from which polling returns a packet at every reading of a clock that never goes
  backwards, so a loop that polls until nothing is due never ends.
\<close>

theorem retransmit_backoff_overflow:
  "\<exists>r. send_reach 6 r \<and> (\<forall>ts. sorted (5 # ts) \<longrightarrow> None \<notin> set (snd (poll r ts)))"
  using provoke_funpow [OF one_outstanding_reach] spinning_poll [OF provoked_spins] by blast

theorem retransmit_backoff_overflow_witness:
  "\<exists>r. send_reach 6 r \<and> None \<notin> set (snd (poll r [5, 5, 10 ^ 18]))"
proof -
  have "sorted [5 :: int, 5, 5, 10 ^ 18]" by simp
  then show ?thesis using retransmit_backoff_overflow by blast
qed

section \<open>The receive window's bound\<close>

text \<open>
  Every held id lies less than \<open>size\<close> ahead of the next one to deliver.
\<close>

definition rec_win :: "reliable \<Rightarrow> bool" where
  "rec_win r \<longleftrightarrow> rec_ok r \<and>
     (\<forall>e\<in>set (window r). e_active e \<longrightarrow> unat (e_packetID e - r_packetID r) < r_size r)"

lemma rec_win_held:
  "rec_win r \<longleftrightarrow> rec_ok r \<and>
     (\<forall>pid p. buffered r pid = Some p \<longrightarrow> unat (pid - r_packetID r) < r_size r)"
proof (cases "rec_ok r")
  case True
  then have "buffered r pid = Some p \<longleftrightarrow> (\<exists>e\<in>set (window r). e_active e \<and> e_packetID e = pid
      \<and> e_payload e = p)" for pid p
    unfolding buffered_def rec_ok_def using held_Some_iff [of "window r" pid p]
    by (metis in_set_conv_nth)
  then show ?thesis unfolding rec_win_def by metis
qed (simp add: rec_win_def)

lemma pidInRange2_window:
  assumes "unat base \<le> 2 ^ 31" and "s \<le> 12" and "\<not> pidMin pid base"
  shows "pidInRange2 pid base (of_nat s) \<longleftrightarrow> unat (pid - base) < s"
proof -
  have s: "unat (of_nat s :: u32) = s" using assms(2) by (simp add: unat_of_nat)
  have sum: "unat (base + of_nat s) = unat base + s"
    using assms(1,2) s by (simp add: unat_word_ariths)
  have near: "unat (pid - base) < 2 ^ 31"
    using assms(3) by (simp add: pidMin_def pidInRange1_def subtractPID_def word_less_nat_alt)
  have "base \<le> base + of_nat s" using sum by (simp add: word_le_nat_alt)
  then have "pidInRange2 pid base (of_nat s) \<longleftrightarrow> unat pid < unat base + s"
    using sum by (simp add: pidInRange2_def word_less_nat_alt)
  also have "\<dots> \<longleftrightarrow> unat (pid - base) < s"
    using near assms(1) by (simp add: unat_sub_wrap split: if_splits) linarith
  finally show ?thesis .
qed

lemma free_slot:
  assumes "rec_win r" and "held (window r) pid = None" and "unat (pid - r_packetID r) < r_size r"
  shows "find_index (\<lambda>e. \<not> e_active e) (window r) \<noteq> None"
proof
  assume "find_index (\<lambda>e. \<not> e_active e) (window r) = None"
  then have act: "\<forall>e\<in>set (window r). e_active e" by (simp add: find_index_None)
  have wf: "rel_wf r" and dist: "ids_distinct (window r)"
    using assms(1) by (simp_all add: rec_win_def rec_ok_def)
  let ?d = "\<lambda>i. unat (e_packetID (window r ! i) - r_packetID r)"
  have "inj_on ?d {..<r_size r}"
  proof (rule inj_onI)
    fix i j
    assume ij: "i \<in> {..<r_size r}" "j \<in> {..<r_size r}" and "?d i = ?d j"
    then have "e_packetID (window r ! i) = e_packetID (window r ! j)"
      by (metis diff_add_cancel unsigned_word_eqI)
    moreover have "i < length (window r)" and "j < length (window r)"
      using ij wf by (simp_all add: length_window)
    ultimately show "i = j"
      using act dist nth_mem unfolding ids_distinct_def by blast
  qed
  moreover have "?d ` {..<r_size r} \<subseteq> {..<r_size r}"
    using assms(1) act wf by (auto simp: rec_win_def length_window)
  ultimately have "?d ` {..<r_size r} = {..<r_size r}"
    by (intro endo_inj_surj) simp_all
  with assms(3) obtain i where "i < r_size r" and "?d i = unat (pid - r_packetID r)"
    by (metis (no_types, lifting) imageE lessThan_iff)
  then have "e_packetID (window r ! i) = pid" and "window r ! i \<in> set (window r)"
    using wf by (metis diff_add_cancel unsigned_word_eqI, simp add: length_window)
  with act assms(2) show False by (auto simp: held_None_iff)
qed

lemma Put_decides:
  assumes "rec_win r" and "unat (r_packetID r) \<le> 2 ^ 31"
  shows "snd (Put r pid p) =
    (if 2 ^ 31 \<le> unat (pid - r_packetID r) then PutRejected
     else if buffered r pid \<noteq> None then PutDuplicate
     else if unat (pid - r_packetID r) < r_size r then PutAccepted else PutRejected)"
proof -
  have wf: "rel_wf r" using assms(1) by (simp add: rec_win_def rec_ok_def)
  have old: "pidMin pid (r_packetID r) \<longleftrightarrow> 2 ^ 31 \<le> unat (pid - r_packetID r)"
    by (simp add: pidMin_def pidInRange1_def subtractPID_def word_less_nat_alt not_less)
  have dup: "list_ex (\<lambda>e. e_active e \<and> e_packetID e = pid) (window r) \<longleftrightarrow> buffered r pid \<noteq> None"
    by (auto simp: buffered_def held_None_iff list_ex_iff)
  show ?thesis
    using pidInRange2_window [OF assms(2) size_le_12 [OF wf]] free_slot [OF assms(1), of pid]
    by (auto simp: Put_def old dup buffered_def split: option.splits)
qed

lemma rec_win_Put:
  assumes "rec_win r" and "unat (r_packetID r) \<le> 2 ^ 31"
  shows "rec_win (fst (Put r pid p))"
proof -
  have ok: "rec_ok r" using assms(1) by (simp add: rec_win_def)
  have "r_size (fst (Put r pid p)) = r_size r"
    by (auto simp: Put_def split: option.splits)
  moreover have "snd (Put r pid p) = PutAccepted \<Longrightarrow> unat (pid - r_packetID r) < r_size r"
    unfolding Put_decides [OF assms] by (simp split: if_splits)
  ultimately show ?thesis
    using assms(1) Put_correct [OF ok, of pid p] unfolding rec_win_held
    by (cases "snd (Put r pid p) = PutAccepted") simp_all
qed

lemma rec_win_Get:
  assumes "rec_win r"
  shows "rec_win (fst (Get r))"
proof (cases "buffered r (r_packetID r)")
  case None
  with Get_correct [of r] assms show ?thesis by (simp add: rec_win_def)
next
  case (Some p)
  have ok: "rec_ok r" using assms by (simp add: rec_win_def)
  have size: "r_size (fst (Get r)) = r_size r"
    by (auto simp: Get_def Let_def split: option.splits)
  have "unat (pid - (r_packetID r + 1)) < r_size r"
    if "pid \<noteq> r_packetID r" and "unat (pid - r_packetID r) < r_size r" for pid
  proof -
    have "pid - (r_packetID r + 1) = (pid - r_packetID r) - 1" by simp
    moreover have "pid - r_packetID r \<noteq> 0" using that(1) by simp
    ultimately have "unat (pid - (r_packetID r + 1)) = unat (pid - r_packetID r) - 1"
      by (metis unat_minus_one)
    then show ?thesis using that(2) by linarith
  qed
  with Get_correct [OF ok] Some assms size show ?thesis
    unfolding rec_win_held by (auto split: if_splits)
qed

text \<open>
  While fewer than \<open>2 ^ 31\<close> packets have been delivered, the receive window classifies
  an arriving id exactly: behind the window it is rejected, held already it is a duplicate,
  less than \<open>size\<close> ahead it is stored (there is always a free slot), anything further is
  rejected; and storing and delivering keep every held id inside the window.
\<close>

theorem put_classifies_and_stays_bounded:
  assumes "rec_win r" and "unat (r_packetID r) \<le> 2 ^ 31"
  shows "snd (Put r pid p) =
    (if 2 ^ 31 \<le> unat (pid - r_packetID r) then PutRejected
     else if buffered r pid \<noteq> None then PutDuplicate
     else if unat (pid - r_packetID r) < r_size r then PutAccepted else PutRejected) \<and>
    rec_win (fst (Put r pid p)) \<and> rec_win (fst (Get r))"
  using Put_decides [OF assms] rec_win_Put [OF assms] rec_win_Get [OF assms(1)] by blast

theorem put_classifies_and_stays_bounded_witness:
  "let r = the (New_reliable 12) in
   rec_win r \<and> snd (Put r 11 [7]) = PutAccepted \<and> snd (Put r 12 [7]) = PutRejected \<and>
   rec_win (fst (Put r 11 [7]))"
proof -
  let ?r = "the (New_reliable 12)"
  have New: "New_reliable 12 = Some ?r" by (simp add: New_reliable_def govpn_consts)
  note fresh = New_reliable_rec_ok [OF New]
  then have win: "rec_win ?r" by (simp add: rec_win_held)
  have "unat (r_packetID ?r) \<le> 2 ^ 31" and "r_size ?r = 12"
    using fresh by (simp_all add: New_reliable_def govpn_consts)
  with put_classifies_and_stays_bounded [OF win, of 11 "[7]"]
    put_classifies_and_stays_bounded [OF win, of 12 "[7]"] fresh win
  show ?thesis by simp
qed

text \<open>
  Past \<open>2 ^ 31\<close> delivered packets the bound is lost: with the next id at
  \<^verbatim>\<open>0xC0000000\<close> the receive window stores packet 5, more than a thousand million ids
  ahead, in one of its twelve slots.
\<close>

theorem put_accepts_far_future:
  "let r = (the (New_reliable 12))\<lparr>r_packetID := 0xC0000000\<rparr> in
   rec_ok r \<and> unat (5 - r_packetID r) = 0x40000005 \<and> snd (Put r 5 [7]) = PutAccepted"
proof -
  let ?r0 = "the (New_reliable 12)"
  have New: "New_reliable 12 = Some ?r0" by (simp add: New_reliable_def govpn_consts)
  have "rec_ok (?r0\<lparr>r_packetID := 0xC0000000\<rparr>)"
    using New_reliable_rec_ok [OF New] by (simp add: rec_ok_def)
  moreover have "snd (Put (?r0\<lparr>r_packetID := 0xC0000000\<rparr>) 5 [7]) = PutAccepted"
    by code_simp
  ultimately show ?thesis by simp
qed

section \<open>The set of pending acknowledgements\<close>

text \<open>
  The interface the control connection piggybacks from: a queue without repetitions whose
  front comes off in batches that fit one acknowledgement record.
\<close>

locale ack_store =
  fixes add :: "'a \<Rightarrow> u32 \<Rightarrow> 'a"
    and drain :: "'a \<Rightarrow> 'a \<times> u32 list"
    and peek :: "'a \<Rightarrow> bool"
    and pending :: "'a \<Rightarrow> u32 list"
  assumes add_pending: "pending (add a x) = (if x \<in> set (pending a) then pending a
            else pending a @ [x])"
    and drain_split: "snd (drain a) @ pending (fst (drain a)) = pending a"
    and drain_batch: "length (snd (drain a)) = min 8 (length (pending a))"
    and peek_iff: "peek a \<longleftrightarrow> pending a \<noteq> []"
begin

lemma distinct_add: "distinct (pending a) \<Longrightarrow> distinct (pending (add a x))"
  by (simp add: add_pending)

lemma distinct_drain:
  "distinct (pending a) \<Longrightarrow>
   distinct (snd (drain a)) \<and> distinct (pending (fst (drain a))) \<and>
   set (snd (drain a)) \<inter> set (pending (fst (drain a))) = {}"
  by (metis distinct_append drain_split)

lemma drain_progress: "peek a \<Longrightarrow> length (pending (fst (drain a))) < length (pending a)"
  using drain_split [of a] drain_batch [of a] peek_iff [of a]
  by (metis add_less_cancel_left add_cancel_right_left length_append length_greater_0_conv
      less_add_same_cancel2 min_def numeral_eq_Suc zero_less_Suc)

end

interpretation acks: ack_store ack_add ack_drain ack_peek "\<lambda>ids. ids"
  by unfold_locales
    (auto simp: ack_add_def ack_drain_def ack_peek_def list_ex_iff Let_def govpn_consts)

end
