(* ===== verification/Crypto_Ops.thy ===== *)
theory Crypto_Ops
  imports Govpn_Prelude
begin

text \<open>
  What the sources use of Go's cryptographic packages. A hash is a parameter of type
  \<open>bytes \<Rightarrow> bytes\<close>; \<^verbatim>\<open>crypto/hmac\<close> is built over it with the 64-byte block that MD5,
  SHA-1 and SHA-256 share. \<^verbatim>\<open>cipher.NewCTR\<close> is a parameter that gives the key-stream byte
  at a position, and an AEAD of \<^verbatim>\<open>cipher.NewGCM\<close> is a record of its two operations. The
  only facts assumed of them are the predicates \<open>digest_len\<close> and \<open>aead_ok\<close>, which
  state documented behaviour: the length of a digest, and that opening is the exact inverse
  of sealing, with a tag of 16 bytes.
\<close>

unbundle bit_operations_syntax

section \<open>Byte strings\<close>

definition xor_bytes :: "bytes \<Rightarrow> bytes \<Rightarrow> bytes" where
  "xor_bytes = map2 (XOR)"

lemma length_xor_bytes [simp]: "length (xor_bytes a b) = min (length a) (length b)"
  by (simp add: xor_bytes_def)

lemma xor_bytes_cancel: "length k = length p \<Longrightarrow> xor_bytes (xor_bytes p k) k = p"
  by (rule nth_equalityI) (simp_all add: xor_bytes_def xor.assoc)

text \<open>The bytes of a Go string literal.\<close>

definition ascii :: "string \<Rightarrow> bytes" where
  "ascii = map of_char"

lemma length_ascii [simp]: "length (ascii s) = length s"
  by (simp add: ascii_def)

section \<open>HMAC\<close>

type_synonym hash_fn = "bytes \<Rightarrow> bytes"

definition digest_len :: "hash_fn \<Rightarrow> nat \<Rightarrow> bool" where
  "digest_len h n \<longleftrightarrow> (\<forall>m. length (h m) = n)"

definition hmac_pad :: "hash_fn \<Rightarrow> bytes \<Rightarrow> bytes" where
  "hmac_pad h key =
     (let k = (if length key > 64 then h key else key) in k @ replicate (64 - length k) 0)"

definition hmac :: "hash_fn \<Rightarrow> bytes \<Rightarrow> bytes \<Rightarrow> bytes" where
  "hmac h key m =
     (let k = hmac_pad h key
      in h (xor_bytes k (replicate (length k) 0x5C)
            @ h (xor_bytes k (replicate (length k) 0x36) @ m)))"

lemma length_hmac: "digest_len h n \<Longrightarrow> length (hmac h key m) = n"
  by (simp add: hmac_def Let_def digest_len_def)

section \<open>Counter mode\<close>

type_synonym ctr_fn = "bytes \<Rightarrow> bytes \<Rightarrow> nat \<Rightarrow> u8"

definition xor_key_stream :: "ctr_fn \<Rightarrow> bytes \<Rightarrow> bytes \<Rightarrow> bytes \<Rightarrow> bytes" where
  "xor_key_stream ctr key iv src = xor_bytes src (map (ctr key iv) [0..<length src])"

lemma length_xor_key_stream [simp]: "length (xor_key_stream ctr key iv b) = length b"
  by (simp add: xor_key_stream_def)

lemma xor_key_stream_twice:
  "xor_key_stream ctr key iv (xor_key_stream ctr key iv b) = b"
  unfolding xor_key_stream_def by (simp add: xor_bytes_cancel)

section \<open>Authenticated encryption\<close>

record aead =
  ae_seal :: "bytes \<Rightarrow> bytes \<Rightarrow> bytes \<Rightarrow> bytes"
  ae_open :: "bytes \<Rightarrow> bytes \<Rightarrow> bytes \<Rightarrow> bytes option"

text \<open>
  The sealing side \<open>a\<close> and the opening side \<open>b\<close> of one key: \<open>ae_seal a nonce p ad\<close> is
  the ciphertext of \<open>p\<close> followed by the tag, and \<open>ae_open b\<close> returns a plaintext exactly
  for what sealing it gives.
\<close>

definition aead_ok :: "aead \<Rightarrow> aead \<Rightarrow> bool" where
  "aead_ok a b \<longleftrightarrow>
     (\<forall>n p ad. length (ae_seal a n p ad) = length p + 16) \<and>
     (\<forall>n c ad p. ae_open b n c ad = Some p \<longleftrightarrow> c = ae_seal a n p ad)"

lemma aead_ok_open: "aead_ok a b \<Longrightarrow> ae_open b n (ae_seal a n p ad) ad = Some p"
  by (simp add: aead_ok_def)

lemma aead_ok_length: "aead_ok a b \<Longrightarrow> length (ae_seal a n p ad) = length p + 16"
  by (simp add: aead_ok_def)

text \<open>
  Concrete primitives on which the witnesses evaluate: a checksum in place of each digest
  and of the tag, a constant key stream. They have the assumed laws and no secrecy.
\<close>

definition sum_hash :: "nat \<Rightarrow> hash_fn" where
  "sum_hash n m = replicate n (sum_list m)"

definition sum_ctr :: ctr_fn where
  "sum_ctr key iv i = sum_list key + sum_list iv + of_nat i"

definition sum_aead :: "bytes \<Rightarrow> aead" where
  "sum_aead key =
     (let tag = (\<lambda>n p ad. replicate 16 (sum_list (key @ n @ p @ ad)))
      in \<lparr>ae_seal = (\<lambda>n p ad. p @ tag n p ad),
          ae_open = (\<lambda>n c ad. let p = take (length c - 16) c
                      in if c = p @ tag n p ad then Some p else None)\<rparr>)"

lemma digest_len_sum_hash: "digest_len (sum_hash n) n"
  by (simp add: digest_len_def sum_hash_def)

lemma aead_ok_sum_aead: "aead_ok (sum_aead key) (sum_aead key)"
  by (auto simp: aead_ok_def sum_aead_def Let_def)

end
