(* ===== verification/Replay.thy ===== *)
theory Replay
  imports Govpn_Prelude
begin

text \<open>
  The 64-wide sliding anti-replay window. The sources carry it twice on purpose, in
  \<^verbatim>\<open>internal/tlscrypt/tlscrypt.go\<close> and \<^verbatim>\<open>internal/datachan/replay.go\<close>, each
  over its own sequence space; both are modelled and both interpret the interface
  \<open>replay_guard\<close>. The contract is stated against the set of numbers accepted so far:
  \<open>window_admits\<close> is the abstract admission rule, and the clients' facts about whole
  runs are proved once, from the contract.
\<close>

unbundle bit_operations_syntax

section \<open>The window\<close>

record replay_window =
  rw_init :: bool
  rw_highest :: u32
  rw_seen :: u64

definition replayWindowSize :: u32 where [govpn_consts]: "replayWindowSize = 64"

definition new_window :: replay_window where
  "new_window = \<lparr>rw_init = False, rw_highest = 0, rw_seen = 0\<rparr>"

text \<open>\<^verbatim>\<open>internal/tlscrypt\<close>'s copy.\<close>

definition tlscrypt_accept :: "replay_window \<Rightarrow> u32 \<Rightarrow> replay_window \<times> bool" where
  "tlscrypt_accept r seq =
     (if \<not> rw_init r then (r\<lparr>rw_init := True, rw_highest := seq, rw_seen := 1\<rparr>, True)
      else if seq > rw_highest r then
        let shift = seq - rw_highest r in
        (r\<lparr>rw_seen := (if shift \<ge> replayWindowSize then 1
                       else push_bit (unat shift) (rw_seen r) OR 1),
           rw_highest := seq\<rparr>, True)
      else
        let diff = rw_highest r - seq in
        if diff \<ge> replayWindowSize then (r, False)
        else
          let bit = push_bit (unat diff) (1 :: u64) in
          if rw_seen r AND bit \<noteq> 0 then (r, False)
          else (r\<lparr>rw_seen := rw_seen r OR bit\<rparr>, True))"

text \<open>\<^verbatim>\<open>internal/datachan\<close>'s copy.\<close>

definition datachan_accept :: "replay_window \<Rightarrow> u32 \<Rightarrow> replay_window \<times> bool" where
  "datachan_accept r seq =
     (if \<not> rw_init r then (r\<lparr>rw_init := True, rw_highest := seq, rw_seen := 1\<rparr>, True)
      else if seq > rw_highest r then
        let shift = seq - rw_highest r in
        (r\<lparr>rw_seen := (if shift \<ge> replayWindowSize then 1
                       else push_bit (unat shift) (rw_seen r) OR 1),
           rw_highest := seq\<rparr>, True)
      else
        let diff = rw_highest r - seq in
        if diff \<ge> replayWindowSize then (r, False)
        else
          let bit = push_bit (unat diff) (1 :: u64) in
          if rw_seen r AND bit \<noteq> 0 then (r, False)
          else (r\<lparr>rw_seen := rw_seen r OR bit\<rparr>, True))"

section \<open>The contract of an anti-replay guard\<close>

text \<open>
  A number is admissible against the set of accepted numbers when it is new and less than
  64 below each of them.
\<close>

definition window_admits :: "u32 set \<Rightarrow> u32 \<Rightarrow> bool" where
  "window_admits A s \<longleftrightarrow> s \<notin> A \<and> (\<forall>a\<in>A. unat a < unat s + 64)"

fun guard_run :: "('w \<Rightarrow> u32 \<Rightarrow> 'w \<times> bool) \<Rightarrow> 'w \<Rightarrow> u32 list \<Rightarrow> 'w \<times> u32 list" where
  "guard_run acc w [] = (w, [])"
| "guard_run acc w (s # ss) =
     (case acc w s of (w', ok) \<Rightarrow>
        (case guard_run acc w' ss of (w'', out) \<Rightarrow> (w'', if ok then s # out else out)))"

text \<open>The abstract guard: it remembers every accepted number and applies the rule.\<close>

fun spec_run :: "u32 set \<Rightarrow> u32 list \<Rightarrow> u32 list" where
  "spec_run A [] = []"
| "spec_run A (s # ss) =
     (if window_admits A s then s # spec_run (insert s A) ss else spec_run A ss)"

locale replay_guard =
  fixes accept :: "'w \<Rightarrow> u32 \<Rightarrow> 'w \<times> bool"
    and fresh :: 'w
    and repr :: "'w \<Rightarrow> u32 set \<Rightarrow> bool"
  assumes repr_fresh: "repr fresh {}"
    and accept_iff: "repr w A \<Longrightarrow> snd (accept w s) \<longleftrightarrow> window_admits A s"
    and repr_accepted: "repr w A \<Longrightarrow> snd (accept w s) \<Longrightarrow> repr (fst (accept w s)) (insert s A)"
    and rejected_unchanged: "\<not> snd (accept w s) \<Longrightarrow> fst (accept w s) = w"
begin

lemma accepted_not_again:
  assumes "repr w A" and "snd (accept w s)"
  shows "\<not> snd (accept (fst (accept w s)) s)"
  using accept_iff [OF repr_accepted [OF assms]] by (simp add: window_admits_def)

lemma run_represents:
  assumes "repr w A" and "guard_run accept w ss = (w', out)"
  shows "repr w' (A \<union> set out) \<and> distinct out \<and> set out \<inter> A = {} \<and> set out \<subseteq> set ss"
  using assms
proof (induction ss arbitrary: w A out)
  case Nil
  then show ?case by simp
next
  case (Cons s ss)
  obtain w1 ok where step: "accept w s = (w1, ok)" by (cases "accept w s")
  obtain out1 where rest: "guard_run accept w1 ss = (w', out1)"
    and out: "out = (if ok then s # out1 else out1)"
    using Cons.prems(2) step by (auto split: prod.splits)
  show ?case
  proof (cases ok)
    case True
    with step Cons.prems(1) have "repr w1 (insert s A)" and "s \<notin> A"
      using repr_accepted [of w A s] accept_iff [of w A s] by (simp_all add: window_admits_def)
    from Cons.IH [OF this(1) rest] \<open>s \<notin> A\<close> show ?thesis
      using True out by auto
  next
    case False
    with step Cons.prems(1) have "repr w1 A"
      using rejected_unchanged [of w s] by simp
    from Cons.IH [OF this rest] show ?thesis
      using False out by auto
  qed
qed

lemma run_no_replay:
  "distinct (snd (guard_run accept fresh ss))"
  using run_represents [OF repr_fresh, of ss] by (cases "guard_run accept fresh ss") auto

lemma run_refines: "repr w A \<Longrightarrow> snd (guard_run accept w ss) = spec_run A ss"
proof (induction ss arbitrary: w A)
  case (Cons s ss)
  show ?case
  proof (cases "window_admits A s")
    case True
    with Cons have "repr (fst (accept w s)) (insert s A)"
      by (simp add: repr_accepted accept_iff)
    from Cons.IH [OF this] True Cons.prems accept_iff [of w A s] show ?thesis
      by (auto split: prod.splits)
  next
    case False
    with Cons have "repr (fst (accept w s)) A"
      by (simp add: rejected_unchanged accept_iff)
    from Cons.IH [OF this] False Cons.prems accept_iff [of w A s] show ?thesis
      by (auto split: prod.splits)
  qed
qed simp

end

section \<open>The sliding window keeps the contract\<close>

text \<open>
  Bit \<open>i\<close> of the mask stands for the number \<open>i\<close> below the highest accepted one.
\<close>

definition window_repr :: "replay_window \<Rightarrow> u32 set \<Rightarrow> bool" where
  "window_repr r A \<longleftrightarrow>
     (if rw_init r
      then rw_highest r \<in> A \<and> (\<forall>a\<in>A. a \<le> rw_highest r) \<and>
           (\<forall>i<64. bit (rw_seen r) i \<longleftrightarrow> (\<exists>a\<in>A. unat (rw_highest r) = unat a + i))
      else A = {})"

lemma datachan_accept_eq: "datachan_accept = tlscrypt_accept"
  by (intro ext) (simp add: datachan_accept_def tlscrypt_accept_def)

lemma unat_diff: "(b :: u32) \<le> a \<Longrightarrow> unat (a - b) = unat a - unat b"
  by (simp add: unat_sub)

lemma and_exp_bit: "(w :: u64) AND 2 ^ n = 0 \<longleftrightarrow> \<not> bit w n"
  using bit_iff_and_push_bit_not_eq_0 [of w n] by simp

lemma size_le_iff: "replayWindowSize \<le> d \<longleftrightarrow> 64 \<le> unat d"
  by (simp add: govpn_consts word_le_nat_alt)

lemma window_accept_new:
  assumes "window_repr r A" and "rw_init r" and "rw_highest r < s"
  shows "snd (tlscrypt_accept r s) \<and> window_admits A s \<and>
         window_repr (fst (tlscrypt_accept r s)) (insert s A)"
proof -
  let ?h = "rw_highest r"
  let ?d = "unat (s - ?h)"
  have below: "\<And>a. a \<in> A \<Longrightarrow> unat a \<le> unat ?h" and hs: "unat ?h < unat s"
    and hA: "?h \<in> A"
    and bits: "\<And>i. i < 64 \<Longrightarrow> bit (rw_seen r) i \<longleftrightarrow> (\<exists>a\<in>A. unat ?h = unat a + i)"
    using assms by (auto simp: window_repr_def word_le_nat_alt word_less_nat_alt)
  have d: "?d = unat s - unat ?h"
    using hs by (intro unat_diff) (simp add: word_le_nat_alt)
  let ?new = "if 64 \<le> ?d then 1 else push_bit ?d (rw_seen r) OR 1"
  have seen: "bit ?new i \<longleftrightarrow> (\<exists>a\<in>insert s A. unat s = unat a + i)" if "i < 64" for i
  proof (cases "i = 0")
    case True
    then show ?thesis by (auto simp: bit_simps)
  next
    case False
    then have "bit ?new i \<longleftrightarrow> ?d \<le> i \<and> bit (rw_seen r) (i - ?d)"
      using that by (auto simp: bit_simps)
    also have "\<dots> \<longleftrightarrow> (\<exists>a\<in>A. unat s = unat a + i)"
    proof (cases "?d \<le> i")
      case True
      with that bits [of "i - ?d"] d hs show ?thesis
        by (auto intro!: bex_cong)
    next
      case no: False
      with d hs below show ?thesis by fastforce
    qed
    also have "\<dots> \<longleftrightarrow> (\<exists>a\<in>insert s A. unat s = unat a + i)"
      using False by auto
    finally show ?thesis .
  qed
  have "s \<notin> A" using below hs by fastforce
  moreover have "\<forall>a\<in>A. unat a < unat s + 64" using below hs by fastforce
  moreover have "\<forall>a\<in>insert s A. a \<le> s"
    using below hs by (fastforce simp: word_le_nat_alt)
  ultimately show ?thesis
    using assms(2,3) seen
    by (simp add: tlscrypt_accept_def Let_def window_repr_def window_admits_def size_le_iff)
qed

lemma window_accept_old:
  assumes "window_repr r A" and "rw_init r" and "s \<le> rw_highest r"
  shows "(snd (tlscrypt_accept r s) \<longleftrightarrow> window_admits A s) \<and>
         (snd (tlscrypt_accept r s) \<longrightarrow>
            window_repr (fst (tlscrypt_accept r s)) (insert s A))"
proof -
  let ?h = "rw_highest r"
  let ?d = "unat (?h - s)"
  have below: "\<And>a. a \<in> A \<Longrightarrow> unat a \<le> unat ?h" and hA: "?h \<in> A" and sh: "unat s \<le> unat ?h"
    and bits: "\<And>i. i < 64 \<Longrightarrow> bit (rw_seen r) i \<longleftrightarrow> (\<exists>a\<in>A. unat ?h = unat a + i)"
    using assms by (auto simp: window_repr_def word_le_nat_alt)
  have d: "unat ?h = unat s + ?d"
    using sh unat_diff [OF assms(3)] by simp
  have dup: "bit (rw_seen r) ?d \<longleftrightarrow> s \<in> A" if "?d < 64"
  proof -
    have "(\<exists>a\<in>A. unat ?h = unat a + ?d) \<longleftrightarrow> (\<exists>a\<in>A. unat a = unat s)"
      using d by (metis add_right_cancel)
    also have "\<dots> \<longleftrightarrow> s \<in> A" by (metis unsigned_word_eqI)
    finally show ?thesis using bits [OF that] by simp
  qed
  have near: "(\<forall>a\<in>A. unat a < unat s + 64) \<longleftrightarrow> ?d < 64"
    using below hA d by fastforce
  have adm: "window_admits A s \<longleftrightarrow> ?d < 64 \<and> \<not> bit (rw_seen r) ?d"
    using dup near by (auto simp: window_admits_def)
  have acc: "tlscrypt_accept r s =
      (if ?d < 64 \<and> \<not> bit (rw_seen r) ?d
       then (r\<lparr>rw_seen := rw_seen r OR push_bit ?d 1\<rparr>, True) else (r, False))"
    using assms(2,3) by (auto simp: tlscrypt_accept_def Let_def size_le_iff and_exp_bit not_less)
  have "bit (rw_seen r OR push_bit ?d 1) i \<longleftrightarrow> (\<exists>a\<in>insert s A. unat ?h = unat a + i)"
    if "i < 64" for i
    using bits [OF that] d that by (auto simp: bit_simps)
  then have "window_repr (r\<lparr>rw_seen := rw_seen r OR push_bit ?d 1\<rparr>) (insert s A)"
    using assms below hA by (auto simp: window_repr_def)
  with acc adm show ?thesis by simp
qed

lemma window_accept_spec:
  assumes "window_repr r A"
  shows "(snd (tlscrypt_accept r s) \<longleftrightarrow> window_admits A s) \<and>
         (snd (tlscrypt_accept r s) \<longrightarrow>
            window_repr (fst (tlscrypt_accept r s)) (insert s A))"
proof (cases "rw_init r")
  case False
  with assms show ?thesis
    by (auto simp: window_repr_def tlscrypt_accept_def window_admits_def bit_simps)
next
  case True
  with assms window_accept_new [OF assms] window_accept_old [OF assms] show ?thesis
    by (cases "rw_highest r < s") auto
qed

lemma tlscrypt_reject_unchanged:
  "\<not> snd (tlscrypt_accept r s) \<Longrightarrow> fst (tlscrypt_accept r s) = r"
  by (auto simp: tlscrypt_accept_def Let_def split: if_splits)

lemma window_repr_new: "window_repr new_window {}"
  by (simp add: window_repr_def new_window_def)

interpretation tls_replay: replay_guard tlscrypt_accept new_window window_repr
  by unfold_locales
    (use window_repr_new window_accept_spec tlscrypt_reject_unchanged in blast)+

interpretation data_replay: replay_guard datachan_accept new_window window_repr
  unfolding datachan_accept_eq by (rule tls_replay.replay_guard_axioms)

text \<open>
  C6. Each of the two 64-bit windows implements the abstract guard that remembers every
  accepted number: over any sequence of arrivals it lets through exactly the numbers that are
  new and less than 64 below each number accepted before, so no number twice.
\<close>

theorem replay_windows_refine_spec:
  "snd (guard_run tlscrypt_accept new_window ss) = spec_run {} ss \<and>
   snd (guard_run datachan_accept new_window ss) = spec_run {} ss \<and>
   distinct (spec_run {} ss)"
  using tls_replay.run_refines [OF window_repr_new, of ss]
    data_replay.run_refines [OF window_repr_new, of ss] tls_replay.run_no_replay [of ss]
  by simp

end
