(* ===== verification/Sealed_Channel.thy ===== *)
theory Sealed_Channel
  imports Replay
begin

text \<open>
  The contract the two packet protections share. A sender turns a message and a sequence
  number into a packet; a receiver opens packets one after another and consults an
  anti-replay guard only once a packet has authenticated. The interface
  \<open>sealed_channel\<close> states what opening a genuine packet and a foreign one does, and its
  lemma settles a whole run over a network that loses, repeats and reorders packets. The
  data channel and tls-crypt interpret it.
\<close>

section \<open>Runs of a receiver\<close>

fun open_run :: "('r \<Rightarrow> bytes \<Rightarrow> 'r \<times> ('e + 'd)) \<Rightarrow> 'r \<Rightarrow> bytes list \<Rightarrow> 'r \<times> ('e + 'd) list" where
  "open_run op r [] = (r, [])"
| "open_run op r (b # bs) =
     (case op r b of (r', out) \<Rightarrow> (case open_run op r' bs of (r'', outs) \<Rightarrow> (r'', out # outs)))"

text \<open>
  The specification of a run: a message whose number is admissible against those accepted
  so far is delivered, every other one is reported as a replay.
\<close>

fun deliver_run :: "('m \<Rightarrow> 'e + 'd) \<Rightarrow> 'e \<Rightarrow> u32 set \<Rightarrow> (u32 \<times> 'm) list \<Rightarrow> ('e + 'd) list" where
  "deliver_run deliver err A [] = []"
| "deliver_run deliver err A ((q, m) # qs) =
     (if window_admits A q then deliver m # deliver_run deliver err (insert q A) qs
      else Inl err # deliver_run deliver err A qs)"

section \<open>The contract\<close>

locale sealed_channel = replay_guard accept fresh repr
  for accept :: "'w \<Rightarrow> u32 \<Rightarrow> 'w \<times> bool" and fresh :: 'w and repr :: "'w \<Rightarrow> u32 set \<Rightarrow> bool" +
  fixes packet :: "'s \<Rightarrow> u32 \<Rightarrow> 'm \<Rightarrow> bytes"
    and unseal :: "'r \<Rightarrow> bytes \<Rightarrow> 'r \<times> ('e + 'd)"
    and deliver :: "'m \<Rightarrow> 'e + 'd"
    and replay_err :: 'e
    and win :: "'r \<Rightarrow> 'w"
    and linked :: "'s \<Rightarrow> 'r \<Rightarrow> bool"
    and genuine :: "'m \<Rightarrow> bool"
  assumes unseal_genuine: "linked s r \<Longrightarrow> genuine m \<Longrightarrow>
      snd (unseal r (packet s q m)) =
        (if snd (accept (win r) q) then deliver m else Inl replay_err)"
    and unseal_window: "linked s r \<Longrightarrow> genuine m \<Longrightarrow>
      win (fst (unseal r (packet s q m))) = fst (accept (win r) q)"
    and unseal_foreign: "linked s r \<Longrightarrow> (\<And>q m. genuine m \<Longrightarrow> b \<noteq> packet s q m) \<Longrightarrow>
      fst (unseal r b) = r \<and> (\<exists>e. snd (unseal r b) = Inl e)"
    and unseal_linked: "linked s r \<Longrightarrow> linked s (fst (unseal r b))"
begin

text \<open>Only what the peer sealed is ever delivered.\<close>

lemma delivered_is_genuine:
  assumes "linked s r" and "snd (unseal r b) = Inr d"
  shows "\<exists>q m. genuine m \<and> b = packet s q m \<and> deliver m = Inr d \<and> snd (accept (win r) q)"
proof -
  obtain q m where m: "genuine m" and b: "b = packet s q m"
    using unseal_foreign [OF assms(1), of b] assms(2) by (metis sum.distinct(1))
  with unseal_genuine [OF assms(1) m, of q] assms(2) have "deliver m = Inr d \<and> snd (accept (win r) q)"
    by (auto split: if_splits)
  with m b show ?thesis by blast
qed

lemma run_delivers:
  assumes "linked s r" and "repr (win r) A" and "\<forall>(q, m)\<in>set qs. genuine m"
  shows "snd (open_run unseal r (map (\<lambda>(q, m). packet s q m) qs)) =
         deliver_run deliver replay_err A qs"
  using assms
proof (induction qs arbitrary: r A)
  case (Cons x qs)
  obtain q m where x: "x = (q, m)" by (cases x)
  let ?b = "packet s q m"
  let ?r = "fst (unseal r ?b)"
  have gen: "genuine m" using Cons.prems(3) x by simp
  note link = unseal_linked [OF Cons.prems(1), of ?b]
  note win = unseal_window [OF Cons.prems(1) gen, of q]
  have adm: "snd (accept (win r) q) \<longleftrightarrow> window_admits A q"
    using accept_iff [OF Cons.prems(2)] .
  have repr: "repr (win ?r) (if window_admits A q then insert q A else A)"
    using win adm repr_accepted [OF Cons.prems(2), of q] rejected_unchanged [of "win r" q]
      Cons.prems(2) by auto
  have "snd (open_run unseal ?r (map (\<lambda>(q, m). packet s q m) qs)) =
      deliver_run deliver replay_err (if window_admits A q then insert q A else A) qs"
    using Cons.IH [OF link repr] Cons.prems(3) by simp
  then show ?case
    using unseal_genuine [OF Cons.prems(1) gen, of q] adm x
    by (auto simp: split_def)
qed simp

text \<open>Once a number is accepted, its packet is refused whatever arrives in between.\<close>

lemma accepted_numbers_stay:
  assumes "linked s r" and "repr (win r) A"
  shows "\<exists>B. A \<subseteq> B \<and> repr (win (fst (open_run unseal r bs))) B \<and> linked s (fst (open_run unseal r bs))"
  using assms
proof (induction bs arbitrary: r A)
  case (Cons b bs)
  let ?r = "fst (unseal r b)"
  have link: "linked s ?r" by (rule unseal_linked [OF Cons.prems(1)])
  have "\<exists>B. A \<subseteq> B \<and> repr (win ?r) B"
  proof (cases "\<exists>q m. genuine m \<and> b = packet s q m")
    case True
    then obtain q m where "genuine m" and b: "b = packet s q m" by blast
    then have "win ?r = fst (accept (win r) q)" using unseal_window [OF Cons.prems(1)] by simp
    then show ?thesis
      using repr_accepted [OF Cons.prems(2), of q] rejected_unchanged [of "win r" q] Cons.prems(2)
      by (cases "snd (accept (win r) q)") auto
  next
    case False
    then have "?r = r" using unseal_foreign [OF Cons.prems(1), of b] by blast
    then show ?thesis using Cons.prems(2) by auto
  qed
  then obtain B where "A \<subseteq> B" and "repr (win ?r) B" by blast
  with Cons.IH [OF link this(2)] show ?case by (auto simp: split_def)
qed auto

lemma accepted_packet_refused:
  assumes "linked s r" and "repr (win r) A" and "genuine m" and "q \<in> A"
  shows "snd (unseal (fst (open_run unseal r bs)) (packet s q m)) = Inl replay_err"
proof -
  obtain B where B: "A \<subseteq> B" "repr (win (fst (open_run unseal r bs))) B"
    "linked s (fst (open_run unseal r bs))"
    using accepted_numbers_stay [OF assms(1,2)] by blast
  then have "\<not> snd (accept (win (fst (open_run unseal r bs))) q)"
    using accept_iff [OF B(2)] assms(4) by (auto simp: window_admits_def)
  then show ?thesis using unseal_genuine [OF B(3) assms(3)] by simp
qed

end

end
