(* ===== verification/Tls_Crypt.thy ===== *)
theory Tls_Crypt
  imports Crypto_Ops Sealed_Channel
begin

text \<open>
  \<^verbatim>\<open>internal/tlscrypt\<close>: the static key file and the control-channel protection, a MAC over
  header, packet id and plaintext whose first 16 bytes are the initialisation vector of
  AES-256-CTR. SHA-256 and the AES key stream are parameters. The construction is
  self-inverse, so nothing but the length of a SHA-256 digest is assumed. The wrapper
  interprets \<open>sealed_channel\<close>.
\<close>

unbundle bit_operations_syntax

section \<open>The static key file\<close>

datatype static_key_error = ErrBadEnvelope | ErrBadBodyLen

definition staticKeyHead :: bytes where
  "staticKeyHead = ascii ''-----BEGIN OpenVPN Static key V1-----''"

definition staticKeyFoot :: bytes where
  "staticKeyFoot = ascii ''-----END OpenVPN Static key V1-----''"

definition staticKeyBodyLen :: nat where [govpn_consts]: "staticKeyBodyLen = 256"

text \<open>\<^verbatim>\<open>strings.Index\<close>: the first position at which \<open>pat\<close> occurs.\<close>

fun str_index :: "'a list \<Rightarrow> 'a list \<Rightarrow> nat option" where
  "str_index pat [] = (if pat = [] then Some 0 else None)"
| "str_index pat (x # xs) =
     (if take (length pat) (x # xs) = pat then Some 0 else map_option Suc (str_index pat xs))"

definition is_hex_digit :: "u8 \<Rightarrow> bool" where
  "is_hex_digit r \<longleftrightarrow> (48 \<le> r \<and> r \<le> 57) \<or> (97 \<le> r \<and> r \<le> 102) \<or> (65 \<le> r \<and> r \<le> 70)"

definition is_key_space :: "u8 \<Rightarrow> bool" where
  "is_key_space r \<longleftrightarrow> r = 10 \<or> r = 13 \<or> r = 32 \<or> r = 9"

text \<open>
  The loop over the body. It ranges over runes; a byte above 127 starts a rune that is
  neither a digit nor white space, so ranging over bytes rejects the same bodies.
\<close>

fun hex_digits :: "bytes \<Rightarrow> bytes option" where
  "hex_digits [] = Some []"
| "hex_digits (r # rs) =
     (if is_hex_digit r then map_option (\<lambda>ds. r # ds) (hex_digits rs)
      else if is_key_space r then hex_digits rs
      else None)"

text \<open>\<^verbatim>\<open>hex.DecodeString\<close> on digits; an odd number of them is an error.\<close>

definition hex_value :: "u8 \<Rightarrow> u8" where
  "hex_value r = (if r \<le> 57 then r - 48 else if r \<le> 70 then r - 55 else r - 87)"

fun hex_decode :: "bytes \<Rightarrow> bytes option" where
  "hex_decode [] = Some []"
| "hex_decode [x] = None"
| "hex_decode (x # y # zs) =
     map_option (\<lambda>bs. (push_bit 4 (hex_value x) OR hex_value y) # bs) (hex_decode zs)"

definition ParseStaticKeyV1 :: "bytes \<Rightarrow> static_key_error + bytes" where
  "ParseStaticKeyV1 text =
     (case str_index staticKeyHead text of
        None \<Rightarrow> Inl ErrBadEnvelope
      | Some headIdx \<Rightarrow>
          let rest = drop (headIdx + length staticKeyHead) text in
          (case str_index staticKeyFoot rest of
             None \<Rightarrow> Inl ErrBadEnvelope
           | Some footIdx \<Rightarrow>
               (case hex_digits (take footIdx rest) of
                  None \<Rightarrow> Inl ErrBadEnvelope
                | Some ds \<Rightarrow>
                    (case hex_decode ds of
                       None \<Rightarrow> Inl ErrBadEnvelope
                     | Some raw \<Rightarrow>
                         if length raw \<noteq> staticKeyBodyLen then Inl ErrBadBodyLen
                         else Inr raw))))"

section \<open>The wrapper\<close>

definition TagSize :: nat where [govpn_consts]: "TagSize = 32"
definition BlockSize :: nat where [govpn_consts]: "BlockSize = 16"
definition PIDSize :: nat where [govpn_consts]: "PIDSize = 8"
definition OffPID :: nat where [govpn_consts]: "OffPID = 1 + 8"
definition OffTag :: nat where [govpn_consts]: "OffTag = OffPID + PIDSize"
definition OffCT :: nat where [govpn_consts]: "OffCT = OffTag + TagSize"

datatype tls_error =
  TlsErrShort | TlsErrAuth | TlsErrReplay | TlsErrKeyLen | TlsErrHeaderLen | TlsErrRollover

record tls_key_slot =
  sl_cipher :: bytes
  sl_hmac :: bytes

record tls_wrapper =
  tw_encrypt :: tls_key_slot
  tw_decrypt :: tls_key_slot
  tw_sendSeq :: u32
  tw_sendTime :: int
  tw_sendRolloverAt :: int
  tw_replay :: replay_window

definition Tls_NewWrapper :: "bytes \<Rightarrow> bool \<Rightarrow> tls_error + tls_wrapper" where
  "Tls_NewWrapper key256 server =
     (if length key256 \<noteq> 256 then Inl TlsErrKeyLen
      else
        let key0 = \<lparr>sl_cipher = slice 0 32 key256, sl_hmac = slice 64 96 key256\<rparr>;
            key1 = \<lparr>sl_cipher = slice 128 160 key256, sl_hmac = slice 192 224 key256\<rparr>
        in Inr \<lparr>tw_encrypt = (if server then key0 else key1),
                tw_decrypt = (if server then key1 else key0),
                tw_sendSeq = 0, tw_sendTime = 0, tw_sendRolloverAt = 0,
                tw_replay = new_window\<rparr>)"

text \<open>
  The AES key of a slot is an array of 32 bytes, for which \<^verbatim>\<open>aes.NewCipher\<close> cannot fail.
\<close>

definition wrapWithPID ::
  "hash_fn \<Rightarrow> ctr_fn \<Rightarrow> tls_wrapper \<Rightarrow> bytes \<Rightarrow> bytes \<Rightarrow> bytes \<Rightarrow> bytes \<Rightarrow> bytes" where
  "wrapWithPID sha256 aes_ctr w dst header pid plaintext =
     (let aad = header @ pid;
          tag = hmac sha256 (sl_hmac (tw_encrypt w)) (aad @ plaintext);
          ciphertext = xor_key_stream aes_ctr (sl_cipher (tw_encrypt w)) (take BlockSize tag)
                         plaintext
      in dst @ aad @ tag @ ciphertext)"

text \<open>
  The critical section of \<^verbatim>\<open>Wrap\<close>: \<open>now\<close> and \<open>now'\<close> are its two readings of the
  clock in seconds.
\<close>

definition next_wrap_pid :: "tls_wrapper \<Rightarrow> int \<Rightarrow> int \<Rightarrow> tls_wrapper \<times> (tls_error + u32 \<times> int)" where
  "next_wrap_pid w now now' =
     (let w = (if tw_sendTime w = 0 then w\<lparr>tw_sendTime := now\<rparr> else w) in
      if tw_sendSeq w = 0xFFFFFFFF \<and> tw_sendRolloverAt w \<noteq> 0 \<and> now' \<le> tw_sendRolloverAt w
      then (w, Inl TlsErrRollover)
      else
        let w = (if tw_sendSeq w = 0xFFFFFFFF
                 then w\<lparr>tw_sendRolloverAt := now', tw_sendTime := now', tw_sendSeq := 0\<rparr> else w);
            w = w\<lparr>tw_sendSeq := tw_sendSeq w + 1\<rparr>
        in (w, Inr (tw_sendSeq w, tw_sendTime w)))"

definition Wrap ::
  "hash_fn \<Rightarrow> ctr_fn \<Rightarrow> tls_wrapper \<Rightarrow> bytes \<Rightarrow> bytes \<Rightarrow> bytes \<Rightarrow> int \<Rightarrow> int
   \<Rightarrow> tls_wrapper \<times> (tls_error + bytes)" where
  "Wrap sha256 aes_ctr w dst header plaintext now now' =
     (if length header \<noteq> OffPID then (w, Inl TlsErrHeaderLen)
      else case next_wrap_pid w now now' of
        (w', Inl e) \<Rightarrow> (w', Inl e)
      | (w', Inr (seq, ts)) \<Rightarrow>
          (w', Inr (wrapWithPID sha256 aes_ctr w' dst header (be32 seq @ be32 (of_int ts))
                      plaintext)))"

definition WrapWithPacketID ::
  "hash_fn \<Rightarrow> ctr_fn \<Rightarrow> tls_wrapper \<Rightarrow> bytes \<Rightarrow> bytes \<Rightarrow> bytes \<Rightarrow> bytes \<Rightarrow> tls_error + bytes" where
  "WrapWithPacketID sha256 aes_ctr w dst header pid plaintext =
     (if length header \<noteq> OffPID then Inl TlsErrHeaderLen
      else Inr (wrapWithPID sha256 aes_ctr w dst header pid plaintext))"

definition Unwrap ::
  "hash_fn \<Rightarrow> ctr_fn \<Rightarrow> tls_wrapper \<Rightarrow> bytes \<Rightarrow> bytes \<Rightarrow> tls_wrapper \<times> (tls_error + bytes \<times> bytes)"
where
  "Unwrap sha256 aes_ctr w dst packet =
     (if length packet < OffCT then (w, Inl TlsErrShort)
      else
        let aad = take OffTag packet;
            wireTag = slice OffTag OffCT packet;
            ciphertext = drop OffCT packet;
            decrypted = xor_key_stream aes_ctr (sl_cipher (tw_decrypt w))
                          (take BlockSize wireTag) ciphertext;
            computed = hmac sha256 (sl_hmac (tw_decrypt w)) (aad @ decrypted)
        in if wireTag \<noteq> computed then (w, Inl TlsErrAuth)
           else
             let seq = get32 (slice OffPID (OffPID + 4) packet) in
             (case tlscrypt_accept (tw_replay w) seq of
                (replay', ok) \<Rightarrow>
                  (w\<lparr>tw_replay := replay'\<rparr>,
                   if \<not> ok then Inl TlsErrReplay
                   else Inr (take OffPID packet, dst @ decrypted))))"

section \<open>Opening what was wrapped\<close>

text \<open>
  A wrapped message: its nine header bytes, the timestamp half of its packet id and the
  plaintext.
\<close>

type_synonym tls_message = "bytes \<times> u32 \<times> bytes"

definition tls_packet :: "hash_fn \<Rightarrow> ctr_fn \<Rightarrow> tls_wrapper \<Rightarrow> u32 \<Rightarrow> tls_message \<Rightarrow> bytes" where
  "tls_packet sha256 aes_ctr w seq m =
     (case m of (header, ts, p) \<Rightarrow>
        wrapWithPID sha256 aes_ctr w [] header (be32 seq @ be32 ts) p)"

definition tls_deliver :: "bytes \<Rightarrow> tls_message \<Rightarrow> tls_error + bytes \<times> bytes" where
  "tls_deliver dst m = (case m of (header, ts, p) \<Rightarrow> Inr (header, dst @ p))"

definition tls_linked :: "hash_fn \<Rightarrow> tls_wrapper \<Rightarrow> tls_wrapper \<Rightarrow> bool" where
  "tls_linked sha256 s r \<longleftrightarrow> digest_len sha256 32 \<and> tw_encrypt s = tw_decrypt r"

definition tls_genuine :: "tls_message \<Rightarrow> bool" where
  "tls_genuine m \<longleftrightarrow> length (fst m) = 9"

lemma Unwrap_packet:
  assumes "tls_linked sha256 s r" and "tls_genuine m"
  shows "Unwrap sha256 aes_ctr r dst (tls_packet sha256 aes_ctr s q m) =
    (r\<lparr>tw_replay := fst (tlscrypt_accept (tw_replay r) q)\<rparr>,
     if snd (tlscrypt_accept (tw_replay r) q) then tls_deliver dst m else Inl TlsErrReplay)"
proof -
  obtain h ts p where m: "m = (h, ts, p)" by (cases m)
  have h: "length h = 9" using assms(2) m by (simp add: tls_genuine_def)
  define tag where "tag = hmac sha256 (sl_hmac (tw_decrypt r)) ((h @ be32 q @ be32 ts) @ p)"
  define ct where "ct = xor_key_stream aes_ctr (sl_cipher (tw_decrypt r)) (take 16 tag) p"
  have len: "length tag = 32"
    using assms(1) by (simp add: tag_def tls_linked_def length_hmac)
  define b where "b = tls_packet sha256 aes_ctr s q m"
  have b: "b = (h @ be32 q @ be32 ts) @ tag @ ct"
    using assms(1) m
    by (simp add: b_def tls_packet_def wrapWithPID_def tls_linked_def Let_def tag_def ct_def
        govpn_consts)
  have parts: "slice 9 13 b = be32 q" "slice 17 49 b = tag" "drop 49 b = ct"
      "take 17 b = h @ be32 q @ be32 ts" "take 9 b = h" "\<not> length b < 49"
    using h len unfolding b by (simp_all add: slice_def)
  moreover have "xor_key_stream aes_ctr (sl_cipher (tw_decrypt r)) (take 16 tag) ct = p"
    unfolding ct_def by (rule xor_key_stream_twice)
  moreover have "hmac sha256 (sl_hmac (tw_decrypt r)) (h @ be32 q @ be32 ts @ p) = tag"
    by (simp add: tag_def)
  ultimately show ?thesis
    unfolding b_def [symmetric]
    by (simp add: Unwrap_def Let_def govpn_consts m tls_deliver_def u32c.dec_enc_Nil split_def)
qed

lemma Unwrap_foreign:
  assumes "tls_linked sha256 s r"
    and "\<And>q m. tls_genuine m \<Longrightarrow> b \<noteq> tls_packet sha256 aes_ctr s q m"
  shows "Unwrap sha256 aes_ctr r dst b = (r, Inl (if length b < 49 then TlsErrShort else TlsErrAuth))"
proof (cases "length b < 49")
  case False
  let ?tag = "slice 17 49 b"
  let ?p = "xor_key_stream aes_ctr (sl_cipher (tw_decrypt r)) (take 16 ?tag) (drop 49 b)"
  have "?tag \<noteq> hmac sha256 (sl_hmac (tw_decrypt r)) (take 17 b @ ?p)"
  proof
    assume tag: "?tag = hmac sha256 (sl_hmac (tw_decrypt r)) (take 17 b @ ?p)"
    have enc: "tw_encrypt s = tw_decrypt r"
      using assms(1) by (simp add: tls_linked_def)
    have parts: "take 17 b = take 9 b @ be32 (get32 (slice 9 13 b)) @ be32 (get32 (slice 13 17 b))"
      using False take_add [of 9 4 b] take_add [of 13 4 b]
      by (simp add: be32_get32) (simp add: slice_def)
    have "b = take 17 b @ ?tag @ drop 49 b"
      using False by (simp add: slice_def flip: take_add append_assoc)
    also have "\<dots> = tls_packet sha256 aes_ctr s (get32 (slice 9 13 b))
        (take 9 b, get32 (slice 13 17 b), ?p)"
      unfolding tls_packet_def wrapWithPID_def Let_def prod.case parts [symmetric] enc
        BlockSize_def tag [symmetric] xor_key_stream_twice
      by simp
    finally show False
      using assms(2) [of "(take 9 b, get32 (slice 13 17 b), ?p)" "get32 (slice 9 13 b)"] False
      by (simp add: tls_genuine_def)
  qed
  with False show ?thesis by (simp add: Unwrap_def Let_def govpn_consts)
qed (simp add: Unwrap_def govpn_consts)

lemma Unwrap_linked:
  "tls_linked sha256 s (fst (Unwrap sha256 aes_ctr r dst b)) \<longleftrightarrow> tls_linked sha256 s r"
  by (auto simp: Unwrap_def Let_def tls_linked_def split: prod.splits)

interpretation tls_chan: sealed_channel tlscrypt_accept new_window window_repr
  "tls_packet sha256 aes_ctr" "\<lambda>r. Unwrap sha256 aes_ctr r dst" "tls_deliver dst" TlsErrReplay
  tw_replay "tls_linked sha256" tls_genuine
  for sha256 aes_ctr dst
proof (unfold_locales, goal_cases)
  case (1 s r m q)
  then show ?case by (simp add: Unwrap_packet)
next
  case (2 s r m q)
  then show ?case by (simp add: Unwrap_packet)
next
  case (3 s r b)
  then show ?case by (simp add: Unwrap_foreign [of sha256 s])
next
  case (4 s r b)
  then show ?case by (simp add: Unwrap_linked)
qed

section \<open>Sequences of wrapped packets\<close>

text \<open>One call of \<^verbatim>\<open>Wrap\<close>: header, plaintext and the two clock readings.\<close>

type_synonym wrap_call = "bytes \<times> bytes \<times> int \<times> int"

fun wrap_run :: "hash_fn \<Rightarrow> ctr_fn \<Rightarrow> tls_wrapper \<Rightarrow> wrap_call list
    \<Rightarrow> tls_wrapper \<times> (tls_error + bytes) list" where
  "wrap_run sha256 aes_ctr w [] = (w, [])"
| "wrap_run sha256 aes_ctr w ((h, p, now, now') # ms) =
     (case Wrap sha256 aes_ctr w [] h p now now' of (w', out) \<Rightarrow>
        (case wrap_run sha256 aes_ctr w' ms of (w'', outs) \<Rightarrow> (w'', out # outs)))"

lemma tls_packet_cong:
  "tw_encrypt w = tw_encrypt w' \<Longrightarrow> tls_packet sha256 aes_ctr w q m = tls_packet sha256 aes_ctr w' q m"
  by (simp add: tls_packet_def wrapWithPID_def split: prod.splits)

lemma Wrap_counts:
  assumes "length h = 9" and "tw_sendSeq w \<noteq> 0xFFFFFFFF"
  shows "\<exists>w' ts. Wrap sha256 aes_ctr w [] h p now now' =
      (w', Inr (tls_packet sha256 aes_ctr w (tw_sendSeq w + 1) (h, ts, p))) \<and>
      tw_sendSeq w' = tw_sendSeq w + 1 \<and> tw_encrypt w' = tw_encrypt w"
  using assms by (simp add: Wrap_def next_wrap_pid_def Let_def govpn_consts tls_packet_def wrapWithPID_def)
    blast

lemma wrap_run_nth:
  assumes "i < length ms" and "unat (tw_sendSeq w) + length ms < 2 ^ 32"
    and "\<forall>m\<in>set ms. length (fst m) = 9"
  shows "\<exists>ts. snd (wrap_run sha256 aes_ctr w ms) ! i =
    Inr (tls_packet sha256 aes_ctr w (tw_sendSeq w + of_nat (i + 1))
      (fst (ms ! i), ts, fst (snd (ms ! i))))"
  using assms
proof (induction ms arbitrary: w i)
  case (Cons m ms)
  obtain h p now now' where m: "m = (h, p, now, now')" by (cases m)
  have "unat (tw_sendSeq w) < unat (0xFFFFFFFF :: u32)" using Cons.prems(2) by simp
  then have ne: "tw_sendSeq w \<noteq> 0xFFFFFFFF" by auto
  obtain w' ts where w': "Wrap sha256 aes_ctr w [] h p now now' =
      (w', Inr (tls_packet sha256 aes_ctr w (tw_sendSeq w + 1) (h, ts, p)))"
    "tw_sendSeq w' = tw_sendSeq w + 1" "tw_encrypt w' = tw_encrypt w"
    using Wrap_counts [OF _ ne] Cons.prems(3) m by fastforce
  show ?case
  proof (cases i)
    case 0
    with w' m show ?thesis by (auto simp: split_def)
  next
    case (Suc k)
    have "unat (tw_sendSeq w') = unat (tw_sendSeq w) + 1"
      using Cons.prems(2) w'(2) by (simp add: unat_word_ariths)
    with Cons.IH [of k w'] Cons.prems Suc
    obtain ts' where "snd (wrap_run sha256 aes_ctr w' ms) ! k =
      Inr (tls_packet sha256 aes_ctr w' (tw_sendSeq w' + of_nat (k + 1))
        (fst (ms ! k), ts', fst (snd (ms ! k))))"
      by auto
    with w' m Suc tls_packet_cong [OF w'(3)] show ?thesis
      by (auto simp: split_def algebra_simps)
  qed
qed simp

text \<open>
  C10. The tls-crypt layer works end to end and in both directions: the two wrappers over one
  static key, with opposite roles, can be built, and whatever the network loses, repeats or
  reorders among the wrapped packets (here any list of indices), unwrapping returns exactly
  the headers and plaintexts whose sequence numbers the abstract anti-replay rule admits and
  reports every other arrival as a replay.
\<close>

theorem tls_crypt_end_to_end:
  assumes "digest_len sha256 32" and "length key = 256"
    and "length ms < 2 ^ 32" and "\<forall>m\<in>set ms. length (fst m) = 9"
    and "\<forall>i\<in>set idx. i < length ms"
  shows "\<exists>s r. Tls_NewWrapper key server = Inr s \<and> Tls_NewWrapper key (\<not> server) = Inr r \<and>
    snd (open_run (\<lambda>r. Unwrap sha256 aes_ctr r []) r
           (map (\<lambda>i. projr (snd (wrap_run sha256 aes_ctr s ms) ! i)) idx)) =
    deliver_run Inr TlsErrReplay {}
      (map (\<lambda>i. (of_nat (i + 1), (fst (ms ! i), fst (snd (ms ! i))))) idx)"
proof -
  obtain s r where new: "Tls_NewWrapper key server = Inr s" "Tls_NewWrapper key (\<not> server) = Inr r"
    using assms(2) by (simp add: Tls_NewWrapper_def Let_def)
  then have link: "tls_linked sha256 s r" and fresh: "tw_sendSeq s = 0" "tw_replay r = new_window"
    using assms(1,2) by (auto simp: Tls_NewWrapper_def tls_linked_def Let_def)
  have "\<forall>i. \<exists>ts. i < length ms \<longrightarrow> snd (wrap_run sha256 aes_ctr s ms) ! i =
    Inr (tls_packet sha256 aes_ctr s (of_nat (i + 1)) (fst (ms ! i), ts, fst (snd (ms ! i))))"
    using wrap_run_nth [of _ ms s] assms(3,4) fresh by fastforce
  then obtain T where T: "\<And>i. i < length ms \<Longrightarrow> snd (wrap_run sha256 aes_ctr s ms) ! i =
    Inr (tls_packet sha256 aes_ctr s (of_nat (i + 1)) (fst (ms ! i), T i, fst (snd (ms ! i))))"
    by metis
  let ?qs = "map (\<lambda>i. (of_nat (i + 1) :: u32, (fst (ms ! i), T i, fst (snd (ms ! i))))) idx"
  have pkts: "map (\<lambda>i. projr (snd (wrap_run sha256 aes_ctr s ms) ! i)) idx =
      map (\<lambda>(q, m). tls_packet sha256 aes_ctr s q m) ?qs"
    using T assms(5) by simp
  have run: "snd (open_run (\<lambda>r. Unwrap sha256 aes_ctr r []) r
      (map (\<lambda>(q, m). tls_packet sha256 aes_ctr s q m) ?qs)) =
      deliver_run (tls_deliver []) TlsErrReplay {} ?qs"
    using link fresh window_repr_new assms(4,5)
    by (intro tls_chan.run_delivers) (auto simp: tls_genuine_def)
  have "deliver_run (tls_deliver []) TlsErrReplay A
      (map (\<lambda>i. (of_nat (i + 1), (fst (ms ! i), T i, fst (snd (ms ! i))))) js) =
    deliver_run Inr TlsErrReplay A
      (map (\<lambda>i. (of_nat (i + 1), (fst (ms ! i), fst (snd (ms ! i))))) js)" for A js
    by (induction js arbitrary: A) (simp_all add: tls_deliver_def)
  with new run show ?thesis unfolding pkts [symmetric] by auto
qed

theorem tls_crypt_end_to_end_witness:
  "\<exists>s r. Tls_NewWrapper (replicate 256 7) True = Inr s \<and>
    Tls_NewWrapper (replicate 256 7) False = Inr r \<and>
    snd (open_run (\<lambda>r. Unwrap (sum_hash 32) sum_ctr r []) r
      (map (\<lambda>i. projr (snd (wrap_run (sum_hash 32) sum_ctr s
         [(replicate 9 1, [1, 2], 100, 100), (replicate 9 2, [], 101, 101)]) ! i)) [1, 0, 1])) =
    [Inr (replicate 9 2, []), Inr (replicate 9 1, [1, 2]), Inl TlsErrReplay]"
  using tls_crypt_end_to_end [OF digest_len_sum_hash, of "replicate 256 7"
      "[(replicate 9 1, [1, 2], 100, 100), (replicate 9 2, [], 101, 101)]" "[1, 0, 1]" True sum_ctr]
  by (simp add: window_admits_def)

text \<open>
  Authentication comes before the replay window and before any byte is returned: what
  \<^verbatim>\<open>Unwrap\<close> returns is the header and plaintext of a packet carrying the right MAC, with an
  admissible sequence number, and a packet that does not carry it is refused with the state
  unchanged.
\<close>

theorem tls_unwrap_authentic:
  assumes "tls_linked sha256 s r"
  shows "(snd (Unwrap sha256 aes_ctr r dst b) = Inr (h, d) \<longrightarrow>
      (\<exists>q ts p. length h = 9 \<and> b = tls_packet sha256 aes_ctr s q (h, ts, p) \<and> d = dst @ p \<and>
         snd (tlscrypt_accept (tw_replay r) q))) \<and>
    ((\<nexists>h q ts p. length h = 9 \<and> b = tls_packet sha256 aes_ctr s q (h, ts, p)) \<longrightarrow>
       fst (Unwrap sha256 aes_ctr r dst b) = r \<and>
       snd (Unwrap sha256 aes_ctr r dst b) \<in> {Inl TlsErrShort, Inl TlsErrAuth})"
proof (intro conjI impI)
  assume "snd (Unwrap sha256 aes_ctr r dst b) = Inr (h, d)"
  from tls_chan.delivered_is_genuine [OF assms this]
  show "\<exists>q ts p. length h = 9 \<and> b = tls_packet sha256 aes_ctr s q (h, ts, p) \<and> d = dst @ p \<and>
         snd (tlscrypt_accept (tw_replay r) q)"
    by (fastforce simp: tls_genuine_def tls_deliver_def)
next
  assume "\<nexists>h q ts p. length h = 9 \<and> b = tls_packet sha256 aes_ctr s q (h, ts, p)"
  then have "Unwrap sha256 aes_ctr r dst b
      = (r, Inl (if length b < 49 then TlsErrShort else TlsErrAuth))"
    by (intro Unwrap_foreign [OF assms]) (force simp: tls_genuine_def)
  then show "fst (Unwrap sha256 aes_ctr r dst b) = r"
    and "snd (Unwrap sha256 aes_ctr r dst b) \<in> {Inl TlsErrShort, Inl TlsErrAuth}"
    by simp_all
qed

theorem tls_unwrap_authentic_witness:
  "\<exists>r. Tls_NewWrapper (replicate 256 7) False = Inr r \<and>
     fst (Unwrap (sum_hash 32) sum_ctr r [] [1, 2, 3]) = r"
proof -
  obtain s r where new: "Tls_NewWrapper (replicate 256 7) True = Inr s"
      "Tls_NewWrapper (replicate 256 7) False = Inr r"
    by (simp add: Tls_NewWrapper_def Let_def)
  then have "tls_linked (sum_hash 32) s r"
    by (auto simp: Tls_NewWrapper_def tls_linked_def Let_def digest_len_sum_hash)
  moreover have "[1, 2, 3] \<noteq> tls_packet (sum_hash 32) sum_ctr s q (h, ts, p)" if "length h = 9"
    for h q ts p
    using that by (auto simp: tls_packet_def wrapWithPID_def Let_def dest: arg_cong [of _ _ length])
  ultimately have "fst (Unwrap (sum_hash 32) sum_ctr r [] [1, 2, 3]) = r"
    using tls_unwrap_authentic by blast
  with new show ?thesis by blast
qed

section \<open>Reading a static key\<close>

lemma str_index_append:
  "pat \<noteq> [] \<Longrightarrow> hd pat \<notin> set pre \<Longrightarrow> str_index pat (pre @ pat @ post) = Some (length pre)"
proof (induction pre)
  case Nil
  then show ?case by (cases pat) simp_all
next
  case (Cons x pre)
  then have "take (length pat) (x # pre @ pat @ post) \<noteq> pat"
    by (cases pat) auto
  with Cons show ?case by simp
qed

lemma hex_digits_filter:
  "\<forall>c\<in>set body. is_hex_digit c \<or> is_key_space c \<Longrightarrow>
   hex_digits body = Some (filter is_hex_digit body)"
  by (induction body) auto

definition hex_char :: "u8 \<Rightarrow> u8" where
  "hex_char n = (if n < 10 then n + 48 else n + 87)"

definition hex_encode :: "bytes \<Rightarrow> bytes" where
  "hex_encode bs = concat (map (\<lambda>b. [hex_char (drop_bit 4 b), hex_char (b AND 15)]) bs)"

lemma hex_value_char: "n < 16 \<Longrightarrow> hex_value (hex_char n) = n"
  by (cases "n < 10")
    (simp_all add: hex_char_def hex_value_def word_less_nat_alt word_le_nat_alt unat_word_ariths)

lemma nibbles: "push_bit 4 (drop_bit 4 b) OR (b AND 15) = (b :: u8)"
proof (rule bit_word_eqI)
  fix n
  assume "n < LENGTH(8)"
  have m: "(15 :: u8) = mask 4" by (simp add: mask_eq_exp_minus_1)
  show "bit (push_bit 4 (drop_bit 4 b) OR (b AND 15)) n \<longleftrightarrow> bit b n"
    unfolding m using \<open>n < LENGTH(8)\<close> by (auto simp: bit_simps)
qed

lemma nibble_less: "drop_bit 4 (b :: u8) < 16" "(b :: u8) AND 15 < 16"
proof -
  have "unat b < 256" using unsigned_less [of b, where ?'a = nat] by simp
  then show "drop_bit 4 b < 16"
    by (simp add: word_less_nat_alt drop_bit_eq_div unat_div less_mult_imp_div_less)
  have "b AND 15 \<le> 15" by (rule word_and_le1)
  also have "(15 :: u8) < 16" by simp
  finally show "b AND 15 < 16" .
qed

lemma hex_decode_encode: "hex_decode (hex_encode bs) = Some bs"
  by (induction bs) (simp_all add: hex_encode_def hex_value_char nibble_less nibbles)

lemma hex_encode_append: "hex_encode (a @ b) = hex_encode a @ hex_encode b"
  by (simp add: hex_encode_def)

lemma hex_char_digit: "n < 16 \<Longrightarrow> is_hex_digit (hex_char n)"
  by (cases "n < 10")
    (simp_all add: hex_char_def is_hex_digit_def word_less_nat_alt word_le_nat_alt unat_word_ariths)

lemma hex_encode_digits: "\<forall>c\<in>set (hex_encode bs). is_hex_digit c"
  by (auto simp: hex_encode_def hex_char_digit nibble_less)

lemma no_dash: "is_hex_digit c \<or> is_key_space c \<Longrightarrow> c \<noteq> 45"
  by (auto simp: is_hex_digit_def is_key_space_def)

text \<open>
  A static key file is read back: text without a dash, the opening line, the key's
  hexadecimal digits broken up by any white space, the closing line and any trailing text
  give the 256 bytes of the key; and whatever is accepted has 256 bytes.
\<close>

theorem static_key_roundtrip:
  assumes "length key = 256" and "45 \<notin> set pre"
    and "filter is_hex_digit body = hex_encode key"
    and "\<forall>c\<in>set body. is_hex_digit c \<or> is_key_space c"
  shows "ParseStaticKeyV1 (pre @ staticKeyHead @ body @ staticKeyFoot @ post) = Inr key \<and>
    (ParseStaticKeyV1 anything = Inr raw \<longrightarrow> length raw = 256)"
proof
  have marks: "staticKeyHead \<noteq> []" "hd staticKeyHead = 45" "staticKeyFoot \<noteq> []"
      "hd staticKeyFoot = 45"
    by (simp_all add: staticKeyHead_def staticKeyFoot_def ascii_def)
  have "str_index staticKeyHead (pre @ staticKeyHead @ body @ staticKeyFoot @ post) = Some (length pre)"
    using assms(2) marks by (intro str_index_append) simp_all
  moreover have "str_index staticKeyFoot (body @ staticKeyFoot @ post) = Some (length body)"
    using assms(4) marks no_dash by (intro str_index_append) auto
  moreover have "hex_digits body = Some (hex_encode key)"
    using hex_digits_filter [OF assms(4)] assms(3) by simp
  ultimately show "ParseStaticKeyV1 (pre @ staticKeyHead @ body @ staticKeyFoot @ post) = Inr key"
    using assms(1) by (simp add: ParseStaticKeyV1_def hex_decode_encode govpn_consts)
  show "ParseStaticKeyV1 anything = Inr raw \<longrightarrow> length raw = 256"
    by (auto simp: ParseStaticKeyV1_def Let_def govpn_consts split: option.splits if_splits)
qed

theorem static_key_roundtrip_witness:
  "ParseStaticKeyV1 (ascii ''# a key'' @ staticKeyHead
     @ (10 # hex_encode (replicate 128 7) @ [13, 10] @ hex_encode (replicate 128 200) @ [10])
     @ staticKeyFoot @ [10]) = Inr (replicate 128 7 @ replicate 128 200)"
proof -
  let ?a = "replicate 128 7 :: bytes" and ?b = "replicate 128 200 :: bytes"
  let ?body = "10 # hex_encode ?a @ [13, 10] @ hex_encode ?b @ [10]"
  have all: "filter is_hex_digit (hex_encode bs) = hex_encode bs" for bs
    using hex_encode_digits by (simp add: filter_id_conv)
  have space: "\<not> is_hex_digit 10" "\<not> is_hex_digit 13" "is_key_space 10" "is_key_space 13"
    by (simp_all add: is_hex_digit_def is_key_space_def)
  have "length (?a @ ?b) = 256" by simp
  moreover have "45 \<notin> set (ascii ''# a key'')" by (simp add: ascii_def)
  moreover have "filter is_hex_digit ?body = hex_encode (?a @ ?b)"
    by (simp only: filter.simps filter_append all space hex_encode_append if_False) simp
  moreover have "\<forall>c\<in>set ?body. is_hex_digit c \<or> is_key_space c"
    using hex_encode_digits space by (auto simp del: set_replicate)
  ultimately show ?thesis
    using static_key_roundtrip by blast
qed

end
