(* ===== verification/Key_Deriv.thy ===== *)
theory Key_Deriv
  imports Crypto_Ops
begin

text \<open>
  \<^verbatim>\<open>internal/keyderiv\<close>: the TLS 1.0 pseudo-random function over HMAC, the two-stage
  derivation of the data-channel keys, the slot layout of the 256 bytes it gives, and the
  Key Method 2 messages. MD5 and SHA-1 are parameters of the definitions. The loop of
  \<^verbatim>\<open>pHash\<close> ends only because a digest is not empty, so it is a partial function whose
  value \<open>None\<close> is not returning, and that it does return is proved.
\<close>

unbundle bit_operations_syntax

section \<open>The pseudo-random function\<close>

partial_function (option) pHash_loop ::
  "hash_fn \<Rightarrow> bytes \<Rightarrow> bytes \<Rightarrow> nat \<Rightarrow> bytes \<Rightarrow> bytes \<Rightarrow> bytes option" where
  "pHash_loop h secret seed n a out =
     (if length out < n
      then pHash_loop h secret seed n (hmac h secret a)
             (out @ take (n - length out) (hmac h secret (a @ seed)))
      else Some out)"

definition pHash :: "hash_fn \<Rightarrow> bytes \<Rightarrow> bytes \<Rightarrow> nat \<Rightarrow> bytes option" where
  "pHash h secret seed n = pHash_loop h secret seed n (hmac h secret seed) []"

definition PRF :: "hash_fn \<Rightarrow> hash_fn \<Rightarrow> bytes \<Rightarrow> bytes \<Rightarrow> nat \<Rightarrow> bytes option" where
  "PRF md5 sha1 secret seed n =
     (let slen = length secret;
          half = (if slen mod 2 \<noteq> 0 then slen div 2 + 1 else slen div 2);
          s1 = take half secret;
          s2 = drop (slen - half) secret
      in case (pHash md5 s1 seed n, pHash sha1 s2 seed n) of
           (Some out1, Some out2) \<Rightarrow> Some (xor_bytes out1 out2)
         | _ \<Rightarrow> None)"

definition openvpnPRF ::
  "hash_fn \<Rightarrow> hash_fn \<Rightarrow> bytes \<Rightarrow> bytes \<Rightarrow> bytes \<Rightarrow> bytes \<Rightarrow> bytes option \<Rightarrow> bytes option \<Rightarrow> nat
   \<Rightarrow> bytes option" where
  "openvpnPRF md5 sha1 secret label clientSeed serverSeed clientSID serverSID n =
     PRF md5 sha1 secret
       (label @ clientSeed @ serverSeed
        @ (case clientSID of None \<Rightarrow> [] | Some sid \<Rightarrow> sid)
        @ (case serverSID of None \<Rightarrow> [] | Some sid \<Rightarrow> sid)) n"

section \<open>Key expansion\<close>

record key_source =
  ks_PreMaster :: bytes
  ks_Random1 :: bytes
  ks_Random2 :: bytes

record key_source2 =
  ks2_Client :: key_source
  ks2_Server :: key_source

record key2 =
  k2_raw :: bytes

datatype key2_error = ErrExpansionLen

definition NewKey2 :: "bytes \<Rightarrow> key2_error + key2" where
  "NewKey2 b = (if length b \<noteq> 256 then Inl ErrExpansionLen else Inr \<lparr>k2_raw = b\<rparr>)"

definition keyDirection :: "bool \<Rightarrow> nat \<times> nat" where
  "keyDirection server = (if server then (1, 0) else (0, 1))"

record data_keys =
  dk_EncryptCipher :: bytes
  dk_EncryptImplicitIV :: bytes
  dk_DecryptCipher :: bytes
  dk_DecryptImplicitIV :: bytes
  dk_CipherKeyLen :: int

definition key_slot :: "key2 \<Rightarrow> nat \<Rightarrow> bytes \<times> bytes" where
  "key_slot k idx =
     (let base = idx * 128
      in (slice base (base + 64) (k2_raw k), slice (base + 64) (base + 128) (k2_raw k)))"

definition ServerSlots :: "key2 \<Rightarrow> int \<Rightarrow> data_keys" where
  "ServerSlots k cipherKeyLen =
     (let (encIdx, decIdx) = keyDirection True;
          (encCipher, encHMAC) = key_slot k encIdx;
          (decCipher, decHMAC) = key_slot k decIdx
      in \<lparr>dk_EncryptCipher = take 32 encCipher,
          dk_EncryptImplicitIV = take 8 encHMAC,
          dk_DecryptCipher = take 32 decCipher,
          dk_DecryptImplicitIV = take 8 decHMAC,
          dk_CipherKeyLen = cipherKeyLen\<rparr>)"

definition masterSecretLabel :: bytes where
  "masterSecretLabel = ascii ''OpenVPN master secret''"

definition keyExpansionLabel :: bytes where
  "keyExpansionLabel = ascii ''OpenVPN key expansion''"

definition DeriveKeys ::
  "hash_fn \<Rightarrow> hash_fn \<Rightarrow> key_source2 \<Rightarrow> bytes \<Rightarrow> bytes \<Rightarrow> (key2_error + key2) option" where
  "DeriveKeys md5 sha1 src clientSID serverSID =
     (case openvpnPRF md5 sha1 (ks_PreMaster (ks2_Client src)) masterSecretLabel
             (ks_Random1 (ks2_Client src)) (ks_Random1 (ks2_Server src)) None None 48 of
        None \<Rightarrow> None
      | Some master \<Rightarrow>
          (case openvpnPRF md5 sha1 master keyExpansionLabel
                  (ks_Random2 (ks2_Client src)) (ks_Random2 (ks2_Server src))
                  (Some clientSID) (Some serverSID) 256 of
             None \<Rightarrow> None
           | Some expansion \<Rightarrow> Some (NewKey2 expansion)))"

section \<open>Key Method 2 messages\<close>

text \<open>
  A reader is the bytes still to come; \<^verbatim>\<open>io.ReadFull\<close> takes \<open>n\<close> of them or fails.
\<close>

datatype km2_error = ErrEOF | ErrUnexpectedEOF | ErrKeyMethod | ErrStringTooLong | ErrRand | ErrWrite

definition keyMethod2 :: u8 where [govpn_consts]: "keyMethod2 = 2"
definition keyMethodMask :: u8 where [govpn_consts]: "keyMethodMask = 0x0F"
definition maxOptionsStringLen :: u16 where [govpn_consts]: "maxOptionsStringLen = 512"

definition read_full :: "nat \<Rightarrow> bytes \<Rightarrow> km2_error + (bytes \<times> bytes)" where
  "read_full n r =
     (if n \<le> length r then Inr (take n r, drop n r)
      else if r = [] then Inl ErrEOF else Inl ErrUnexpectedEOF)"

definition km2_bind :: "km2_error + 'a \<Rightarrow> ('a \<Rightarrow> km2_error + 'b) \<Rightarrow> km2_error + 'b" where
  "km2_bind x f = (case x of Inl e \<Rightarrow> Inl e | Inr a \<Rightarrow> f a)"

record client_options =
  co_Options :: bytes
  co_Username :: bytes
  co_Password :: bytes
  co_PeerInfo :: bytes

definition readLengthPrefixedString :: "bytes \<Rightarrow> km2_error + (bytes \<times> bytes)" where
  "readLengthPrefixedString r =
     km2_bind (read_full 2 r) (\<lambda>(lenBuf, r).
       let n = get16 lenBuf in
       if n = 0 then Inr ([], r)
       else if n > maxOptionsStringLen then Inl ErrStringTooLong
       else read_full (unat n) r)"

definition ReadClientKeyMethod2 ::
  "bytes \<Rightarrow> km2_error + (key_source \<times> client_options \<times> bytes)" where
  "ReadClientKeyMethod2 r =
     km2_bind (read_full 4 r) (\<lambda>(_, r).
     km2_bind (read_full 1 r) (\<lambda>(methodByte, r).
     if methodByte ! 0 AND keyMethodMask \<noteq> keyMethod2 then Inl ErrKeyMethod
     else
     km2_bind (read_full 48 r) (\<lambda>(preMaster, r).
     km2_bind (read_full 32 r) (\<lambda>(random1, r).
     km2_bind (read_full 32 r) (\<lambda>(random2, r).
     km2_bind (readLengthPrefixedString r) (\<lambda>(options, r).
     km2_bind (readLengthPrefixedString r) (\<lambda>(username, r).
     km2_bind (readLengthPrefixedString r) (\<lambda>(password, r).
     km2_bind (readLengthPrefixedString r) (\<lambda>(peerInfo, r).
       Inr (\<lparr>ks_PreMaster = preMaster, ks_Random1 = random1, ks_Random2 = random2\<rparr>,
            \<lparr>co_Options = options, co_Username = username, co_Password = password,
             co_PeerInfo = peerInfo\<rparr>, r))))))))))"

text \<open>
  The two draws of \<^verbatim>\<open>crypto/rand\<close> and whether the write succeeds are arguments. The
  string's length is written as 16 bits of the length with its terminator.
\<close>

definition WriteServerKeyMethod2 ::
  "bytes option \<Rightarrow> bytes option \<Rightarrow> bool \<Rightarrow> bytes \<Rightarrow> bytes \<times> (km2_error + key_source)" where
  "WriteServerKeyMethod2 rand1 rand2 write_ok opts =
     (case rand1 of
        None \<Rightarrow> ([], Inl ErrRand)
      | Some r1 \<Rightarrow>
          (case rand2 of
             None \<Rightarrow> ([], Inl ErrRand)
           | Some r2 \<Rightarrow>
               let optsBytes = opts @ [0];
                   buf = [0, 0, 0, 0] @ [keyMethod2] @ r1 @ r2
                         @ be16 (of_nat (length optsBytes)) @ optsBytes @ [0, 0, 0, 0, 0, 0]
               in if write_ok
                  then (buf, Inr \<lparr>ks_PreMaster = replicate 48 0, ks_Random1 = r1,
                                  ks_Random2 = r2\<rparr>)
                  else ([], Inl ErrWrite)))"

section \<open>The pseudo-random function returns\<close>

text \<open>RFC 2246: the chain \<open>A(i)\<close> and the blocks of \<^verbatim>\<open>P_hash\<close>.\<close>

fun prf_chain :: "hash_fn \<Rightarrow> bytes \<Rightarrow> bytes \<Rightarrow> nat \<Rightarrow> bytes" where
  "prf_chain h secret seed 0 = seed"
| "prf_chain h secret seed (Suc i) = hmac h secret (prf_chain h secret seed i)"

definition prf_blocks :: "hash_fn \<Rightarrow> bytes \<Rightarrow> bytes \<Rightarrow> nat \<Rightarrow> bytes" where
  "prf_blocks h secret seed k =
     concat (map (\<lambda>i. hmac h secret (prf_chain h secret seed (Suc i) @ seed)) [0..<k])"

definition P_hash :: "hash_fn \<Rightarrow> bytes \<Rightarrow> bytes \<Rightarrow> nat \<Rightarrow> bytes" where
  "P_hash h secret seed n = take n (prf_blocks h secret seed n)"

lemma length_prf_blocks: "digest_len h d \<Longrightarrow> length (prf_blocks h secret seed k) = d * k"
  by (induction k) (simp_all add: prf_blocks_def length_hmac)

lemma prf_blocks_Suc:
  "prf_blocks h secret seed (Suc k) =
   prf_blocks h secret seed k @ hmac h secret (prf_chain h secret seed (Suc k) @ seed)"
  by (simp add: prf_blocks_def)

lemma prf_blocks_prefix: "k \<le> l \<Longrightarrow> \<exists>r. prf_blocks h secret seed l = prf_blocks h secret seed k @ r"
  by (induction rule: dec_induct) (auto simp: prf_blocks_Suc)

lemma take_prf_blocks:
  assumes "digest_len h d" and "n \<le> d * k" and "n \<le> d * l"
  shows "take n (prf_blocks h secret seed k) = take n (prf_blocks h secret seed l)"
proof -
  have "take n (prf_blocks h secret seed b) = take n (prf_blocks h secret seed a)"
    if "a \<le> b" and "n \<le> d * a" for a b
    using prf_blocks_prefix [OF that(1), of h secret seed] that(2) assms(1)
    by (auto simp: length_prf_blocks)
  then show ?thesis using assms(2,3) by (metis linear)
qed

lemma pHash_loop_blocks:
  assumes "digest_len h d" and "0 < d"
  shows "pHash_loop h secret seed n (prf_chain h secret seed (Suc k))
           (take n (prf_blocks h secret seed k)) = Some (P_hash h secret seed n)"
proof (induction "n - d * k" arbitrary: k rule: less_induct)
  case less
  have len: "length (prf_blocks h secret seed j) = d * j" for j
    using assms(1) by (rule length_prf_blocks)
  show ?case
  proof (cases "d * k < n")
    case True
    then have "take n (prf_blocks h secret seed (Suc k)) =
        prf_blocks h secret seed k
        @ take (n - d * k) (hmac h secret (prf_chain h secret seed (Suc k) @ seed))"
      by (simp add: prf_blocks_Suc len)
    moreover have "n - d * Suc k < n - d * k"
      using True assms(2) by simp
    ultimately show ?thesis
      using less.hyps [of "Suc k"] True by (subst pHash_loop.simps) (simp add: len)
  next
    case False
    then have "take n (prf_blocks h secret seed k) = P_hash h secret seed n"
      unfolding P_hash_def using assms by (intro take_prf_blocks [of h d]) simp_all
    moreover have "length (P_hash h secret seed n) = n"
      using assms(2) by (simp add: P_hash_def len)
    ultimately show ?thesis by (subst pHash_loop.simps) simp
  qed
qed

lemma pHash_total:
  "digest_len h d \<Longrightarrow> 0 < d \<Longrightarrow> pHash h secret seed n = Some (P_hash h secret seed n)"
  using pHash_loop_blocks [of h d secret seed n 0] by (simp add: pHash_def prf_blocks_def)

lemma length_P_hash: "digest_len h d \<Longrightarrow> 0 < d \<Longrightarrow> length (P_hash h secret seed n) = n"
  by (simp add: P_hash_def length_prf_blocks)

text \<open>The halves of the secret, which share the middle byte of an odd one.\<close>

definition prf_halves :: "bytes \<Rightarrow> bytes \<times> bytes" where
  "prf_halves s = (take ((length s + 1) div 2) s, drop (length s div 2) s)"

lemma PRF_total:
  assumes "digest_len md5 16" and "digest_len sha1 20"
  shows "PRF md5 sha1 secret seed n =
    Some (xor_bytes (P_hash md5 (fst (prf_halves secret)) seed n)
                    (P_hash sha1 (snd (prf_halves secret)) seed n))"
proof -
  define half where
    "half = (if length secret mod 2 \<noteq> 0 then length secret div 2 + 1 else length secret div 2)"
  have "half = (length secret + 1) div 2" and "length secret - half = length secret div 2"
    unfolding half_def by presburger+
  then show ?thesis
    unfolding PRF_def Let_def half_def [symmetric] prf_halves_def
    by (simp add: pHash_total [OF assms(1)] pHash_total [OF assms(2)])
qed

lemma PRF_length:
  assumes "digest_len md5 16" and "digest_len sha1 20" and "PRF md5 sha1 secret seed n = Some out"
  shows "length out = n"
  using assms by (auto simp: PRF_total length_P_hash)

text \<open>
  C35. Key derivation always returns: with digests of MD5's and SHA-1's length it ends, gives
  exactly 256 bytes and never the length error, and the bytes are the RFC 2246 expansion,
  seeded with both second randoms and both session ids, of a 48-byte master secret that
  depends on the client's pre-master secret and both first randoms.
\<close>

theorem derive_keys_returns:
  assumes "digest_len md5 16" and "digest_len sha1 20"
  shows "\<exists>k master.
    DeriveKeys md5 sha1 src csid ssid = Some (Inr k) \<and> length (k2_raw k) = 256 \<and>
    master = xor_bytes
      (P_hash md5 (fst (prf_halves (ks_PreMaster (ks2_Client src))))
        (masterSecretLabel @ ks_Random1 (ks2_Client src) @ ks_Random1 (ks2_Server src)) 48)
      (P_hash sha1 (snd (prf_halves (ks_PreMaster (ks2_Client src))))
        (masterSecretLabel @ ks_Random1 (ks2_Client src) @ ks_Random1 (ks2_Server src)) 48) \<and>
    length master = 48 \<and>
    k2_raw k = xor_bytes
      (P_hash md5 (take 24 master) (keyExpansionLabel @ ks_Random2 (ks2_Client src)
        @ ks_Random2 (ks2_Server src) @ csid @ ssid) 256)
      (P_hash sha1 (drop 24 master) (keyExpansionLabel @ ks_Random2 (ks2_Client src)
        @ ks_Random2 (ks2_Server src) @ csid @ ssid) 256)"
proof -
  note total = PRF_total [OF assms] and len = length_P_hash [OF assms(1)] length_P_hash [OF assms(2)]
  show ?thesis
    unfolding DeriveKeys_def openvpnPRF_def
    by (simp add: total NewKey2_def len prf_halves_def)
qed

theorem derive_keys_returns_witness:
  "\<exists>k. DeriveKeys (sum_hash 16) (sum_hash 20)
     \<lparr>ks2_Client = \<lparr>ks_PreMaster = replicate 48 1, ks_Random1 = replicate 32 2,
                    ks_Random2 = replicate 32 3\<rparr>,
      ks2_Server = \<lparr>ks_PreMaster = replicate 48 0, ks_Random1 = replicate 32 4,
                    ks_Random2 = replicate 32 5\<rparr>\<rparr>
     (replicate 8 6) (replicate 8 7) = Some (Inr k) \<and> length (k2_raw k) = 256"
  using derive_keys_returns [OF digest_len_sum_hash digest_len_sum_hash] by metis

section \<open>Slots\<close>

text \<open>
  The client's half of the layout: the same bytes with the directions exchanged.
\<close>

definition mirrored :: "data_keys \<Rightarrow> data_keys" where
  "mirrored d = d\<lparr>dk_EncryptCipher := dk_DecryptCipher d,
                  dk_EncryptImplicitIV := dk_DecryptImplicitIV d,
                  dk_DecryptCipher := dk_EncryptCipher d,
                  dk_DecryptImplicitIV := dk_EncryptImplicitIV d\<rparr>"

lemma ServerSlots_bytes:
  "ServerSlots k len =
     \<lparr>dk_EncryptCipher = slice 128 160 (k2_raw k), dk_EncryptImplicitIV = slice 192 200 (k2_raw k),
      dk_DecryptCipher = slice 0 32 (k2_raw k), dk_DecryptImplicitIV = slice 64 72 (k2_raw k),
      dk_CipherKeyLen = len\<rparr>"
  by (simp add: ServerSlots_def keyDirection_def key_slot_def slice_def)

section \<open>Reading and writing Key Method 2\<close>

lemma read_full_Inr_iff: "read_full n r = Inr (a, r') \<longleftrightarrow> length a = n \<and> r = a @ r'"
  by (auto simp: read_full_def)

lemma km2_bind_Inr_iff: "km2_bind x f = Inr y \<longleftrightarrow> (\<exists>a. x = Inr a \<and> f a = Inr y)"
  by (cases x) (simp_all add: km2_bind_def)

lemma read_full_bind:
  "km2_bind (read_full n r) f = Inr y \<longleftrightarrow> (\<exists>a r1. length a = n \<and> r = a @ r1 \<and> f (a, r1) = Inr y)"
  by (auto simp: km2_bind_Inr_iff read_full_Inr_iff)

definition lp_string :: "bytes \<Rightarrow> bytes" where
  "lp_string s = be16 (of_nat (length s)) @ s"

lemma readLengthPrefixedString_iff:
  "readLengthPrefixedString r = Inr (s, r') \<longleftrightarrow> length s \<le> 512 \<and> r = lp_string s @ r'"
proof
  assume "readLengthPrefixedString r = Inr (s, r')"
  then obtain l r1 where r: "length l = 2" "r = l @ r1"
    and body: "(if get16 l = 0 then Inr ([], r1)
       else if get16 l > 512 then Inl ErrStringTooLong else read_full (unat (get16 l)) r1)
       = Inr (s, r')"
    unfolding readLengthPrefixedString_def read_full_bind Let_def maxOptionsStringLen_def
    by auto
  then have "length s = unat (get16 l)" and "get16 l \<le> 512" and "r1 = s @ r'"
    by (auto simp: read_full_Inr_iff split: if_splits)
  moreover from this(1) have "be16 (of_nat (length s)) = l"
    using be16_get16 [OF r(1)] by simp
  ultimately show "length s \<le> 512 \<and> r = lp_string s @ r'"
    using r by (simp add: lp_string_def word_le_nat_alt)
next
  assume s: "length s \<le> 512 \<and> r = lp_string s @ r'"
  then have n: "unat (of_nat (length s) :: u16) = length s"
    by (simp add: unat_of_nat take_bit_nat_eq_self)
  then have "\<not> 512 < (of_nat (length s) :: u16)"
    and "(of_nat (length s) :: u16) = 0 \<longleftrightarrow> s = []"
    using s by (simp_all add: word_less_nat_alt unat_eq_zero flip: length_0_conv) (metis unat_eq_zero)
  then show "readLengthPrefixedString r = Inr (s, r')"
    using s n
    by (simp add: readLengthPrefixedString_def km2_bind_def read_full_def lp_string_def Let_def
        govpn_consts u16c.dec_enc_Nil)
qed

lemma read_string_bind:
  "km2_bind (readLengthPrefixedString r) f = Inr y \<longleftrightarrow>
   (\<exists>s r1. length s \<le> 512 \<and> r = lp_string s @ r1 \<and> f (s, r1) = Inr y)"
  by (auto simp: km2_bind_Inr_iff readLengthPrefixedString_iff)

lemma read_full_bind_app: "length a = n \<Longrightarrow> km2_bind (read_full n (a @ r)) f = f (a, r)"
  by (simp add: km2_bind_def read_full_def)

lemma read_string_bind_app:
  "length s \<le> 512 \<Longrightarrow> km2_bind (readLengthPrefixedString (lp_string s @ r)) f = f (s, r)"
  using readLengthPrefixedString_iff [of "lp_string s @ r" s r] by (simp add: km2_bind_def)

text \<open>
  A client's Key Method 2 message is accepted exactly when it has the documented layout:
  four ignored bytes, a method byte whose low nibble is 2, 48 bytes of pre-master secret, two
  randoms of 32 bytes, and four strings with a 16-bit length of at most 512 each. What follows
  the message is left unread.
\<close>

theorem key_method2_accepts_exactly:
  "ReadClientKeyMethod2 r = Inr (src, opts, r') \<longleftrightarrow>
   (\<exists>reserved mbyte. length reserved = 4 \<and> mbyte AND 0x0F = 2 \<and>
      length (ks_PreMaster src) = 48 \<and> length (ks_Random1 src) = 32 \<and>
      length (ks_Random2 src) = 32 \<and>
      length (co_Options opts) \<le> 512 \<and> length (co_Username opts) \<le> 512 \<and>
      length (co_Password opts) \<le> 512 \<and> length (co_PeerInfo opts) \<le> 512 \<and>
      r = reserved @ mbyte # ks_PreMaster src @ ks_Random1 src @ ks_Random2 src
          @ lp_string (co_Options opts) @ lp_string (co_Username opts)
          @ lp_string (co_Password opts) @ lp_string (co_PeerInfo opts) @ r')"
  (is "_ \<longleftrightarrow> ?R")
proof
  assume "ReadClientKeyMethod2 r = Inr (src, opts, r')"
  then show ?R
    unfolding ReadClientKeyMethod2_def read_full_bind read_string_bind prod.case keyMethod2_def
      keyMethodMask_def
    by (auto simp: read_full_bind read_string_bind length_Suc_conv split: if_splits)
next
  assume ?R
  then obtain reserved mbyte where lens: "length reserved = 4" "length [mbyte] = 1"
      "length (ks_PreMaster src) = 48" "length (ks_Random1 src) = 32"
      "length (ks_Random2 src) = 32"
      "length (co_Options opts) \<le> 512" "length (co_Username opts) \<le> 512"
      "length (co_Password opts) \<le> 512" "length (co_PeerInfo opts) \<le> 512"
    and mbyte: "mbyte AND 0x0F = 2"
    and r: "r = reserved @ [mbyte] @ ks_PreMaster src @ ks_Random1 src @ ks_Random2 src
          @ lp_string (co_Options opts) @ lp_string (co_Username opts)
          @ lp_string (co_Password opts) @ lp_string (co_PeerInfo opts) @ r'"
    by auto
  show "ReadClientKeyMethod2 r = Inr (src, opts, r')"
    unfolding ReadClientKeyMethod2_def r
    by (simp only: read_full_bind_app lens read_string_bind_app prod.case nth_Cons_0 mbyte
        keyMethod2_def keyMethodMask_def if_False not_True_eq_False simp_thms) simp
qed

text \<open>
  The server's own message has the same layout without a pre-master secret: the randoms it
  returns to the caller are the ones on the wire, and the strings read back as the options
  with their terminator and three empty ones, with nothing left over.
\<close>

lemma server_message_readable:
  assumes "length r1 = 32" and "length r2 = 32" and "length opts < 512"
    and "WriteServerKeyMethod2 (Some r1) (Some r2) True opts = (msg, res)"
  shows "(\<exists>src. res = Inr src \<and> ks_Random1 src = r1 \<and> ks_Random2 src = r2) \<and>
    take 5 msg = [0, 0, 0, 0, 2] \<and> slice 5 37 msg = r1 \<and> slice 37 69 msg = r2 \<and>
    drop 69 msg = lp_string (opts @ [0]) @ lp_string [] @ lp_string [] @ lp_string [] \<and>
    readLengthPrefixedString (drop 69 msg) =
      Inr (opts @ [0], lp_string [] @ lp_string [] @ lp_string [])"
proof -
  have msg: "msg = [0, 0, 0, 0, 2] @ r1 @ r2 @ lp_string (opts @ [0])
      @ lp_string [] @ lp_string [] @ lp_string []"
    using assms(4)
    by (auto simp: WriteServerKeyMethod2_def Let_def govpn_consts lp_string_def be16_def)
  then have "drop 69 msg = lp_string (opts @ [0]) @ lp_string [] @ lp_string [] @ lp_string []"
    using assms(1,2) by simp
  with msg assms show ?thesis
    by (auto simp: WriteServerKeyMethod2_def Let_def slice_def readLengthPrefixedString_iff)
qed

end
