(* ===== verification/Data_Chan.thy ===== *)
theory Data_Chan
  imports Key_Deriv Sealed_Channel Wire
begin

text \<open>
  \<^verbatim>\<open>internal/datachan\<close>: sealing and opening \<^verbatim>\<open>P_DATA_V2\<close> packets, the send-side packet
  ids that make the AES-GCM nonces, and the keepalive ping. The AEAD objects a wrapper holds
  come from a parameter \<open>new_gcm\<close> that stands for \<^verbatim>\<open>aes.NewCipher\<close> and
  \<^verbatim>\<open>cipher.NewGCM\<close>. The wrapper interprets \<open>sealed_channel\<close>.
\<close>

unbundle bit_operations_syntax

section \<open>Constants, errors, pings\<close>

definition offPacketID :: nat where [govpn_consts]: "offPacketID = 4"
definition offTag :: nat where [govpn_consts]: "offTag = 8"
definition dataTagSize :: nat where [govpn_consts]: "dataTagSize = 16"
definition offCiphertext :: nat where [govpn_consts]: "offCiphertext = offTag + dataTagSize"
definition dataHeaderSize :: nat where [govpn_consts]: "dataHeaderSize = offTag"

datatype data_error =
  DataErrShort | DataErrAuth | DataErrReplay | DataErrPacketIDExhausted | DataErrPingAbsorbed
| DataErrCipherKeyLen | DataErrCipher

definition PingSize :: nat where [govpn_consts]: "PingSize = 16"

definition pingMagic :: bytes where
  "pingMagic = [0x2a, 0x18, 0x7b, 0xf3, 0x64, 0x1e, 0xb4, 0xcb,
                0x07, 0xed, 0x2d, 0x0a, 0x98, 0x1f, 0xc7, 0x48]"

definition IsPing :: "bytes \<Rightarrow> bool" where
  "IsPing plaintext \<longleftrightarrow> length plaintext = PingSize \<and> plaintext = pingMagic"

section \<open>The wrapper\<close>

record data_wrapper =
  dw_peerID :: u32
  dw_keyID :: u8
  dw_encryptAEAD :: aead
  dw_encryptIV :: bytes
  dw_decryptAEAD :: aead
  dw_decryptIV :: bytes
  dw_sendSeq :: u32
  dw_replay :: replay_window

definition Data_NewWrapper ::
  "(bytes \<Rightarrow> aead option) \<Rightarrow> data_keys \<Rightarrow> u32 \<Rightarrow> u8 \<Rightarrow> data_error + data_wrapper" where
  "Data_NewWrapper new_gcm ks peerID keyID =
     (if dk_CipherKeyLen ks \<noteq> 16 \<and> dk_CipherKeyLen ks \<noteq> 32 then Inl DataErrCipherKeyLen
      else case new_gcm (take (nat (dk_CipherKeyLen ks)) (dk_EncryptCipher ks)) of
        None \<Rightarrow> Inl DataErrCipher
      | Some encAEAD \<Rightarrow>
          (case new_gcm (take (nat (dk_CipherKeyLen ks)) (dk_DecryptCipher ks)) of
             None \<Rightarrow> Inl DataErrCipher
           | Some decAEAD \<Rightarrow>
               Inr \<lparr>dw_peerID = peerID, dw_keyID = keyID,
                    dw_encryptAEAD = encAEAD, dw_encryptIV = dk_EncryptImplicitIV ks,
                    dw_decryptAEAD = decAEAD, dw_decryptIV = dk_DecryptImplicitIV ks,
                    dw_sendSeq = 0, dw_replay = new_window\<rparr>))"

definition nextPacketID :: "data_wrapper \<Rightarrow> data_wrapper \<times> (data_error + u32)" where
  "nextPacketID w =
     (if dw_sendSeq w = 0xFFFFFFFF then (w, Inl DataErrPacketIDExhausted)
      else let seq = dw_sendSeq w + 1 in (w\<lparr>dw_sendSeq := seq\<rparr>, Inr seq))"

text \<open>The first four header bytes: opcode and key id, then the peer id in 24 bits.\<close>

definition data_header :: "data_wrapper \<Rightarrow> bytes" where
  "data_header w =
     [push_bit 3 OpDataV2 OR (dw_keyID w AND 7),
      ucast (drop_bit 16 (dw_peerID w)), ucast (drop_bit 8 (dw_peerID w)), ucast (dw_peerID w)]"

definition data_nonce :: "u32 \<Rightarrow> bytes \<Rightarrow> bytes" where
  "data_nonce seq iv = be32 seq @ take 8 iv"

definition sealWithSeq :: "data_wrapper \<Rightarrow> bytes \<Rightarrow> u32 \<Rightarrow> bytes \<Rightarrow> bytes" where
  "sealWithSeq w dst seq plaintext =
     (let header = data_header w @ be32 seq;
          sealed = ae_seal (dw_encryptAEAD w) (data_nonce seq (dw_encryptIV w)) plaintext header;
          ciphertext = take (length sealed - dataTagSize) sealed;
          tag = drop (length sealed - dataTagSize) sealed
      in dst @ header @ tag @ ciphertext)"

definition Seal :: "data_wrapper \<Rightarrow> bytes \<Rightarrow> bytes \<Rightarrow> data_wrapper \<times> (data_error + bytes)" where
  "Seal w dst plaintext =
     (case nextPacketID w of
        (w', Inl e) \<Rightarrow> (w', Inl e)
      | (w', Inr seq) \<Rightarrow> (w', Inr (sealWithSeq w' dst seq plaintext)))"

definition SealWithPacketID :: "data_wrapper \<Rightarrow> bytes \<Rightarrow> u32 \<Rightarrow> bytes \<Rightarrow> bytes" where
  "SealWithPacketID w dst packetID plaintext = sealWithSeq w dst packetID plaintext"

definition SealPing :: "data_wrapper \<Rightarrow> bytes \<Rightarrow> data_wrapper \<times> (data_error + bytes)" where
  "SealPing w dst = Seal w dst pingMagic"

definition Open :: "data_wrapper \<Rightarrow> bytes \<Rightarrow> bytes \<Rightarrow> data_wrapper \<times> (data_error + bytes)" where
  "Open w dst packet =
     (if length packet < offCiphertext then (w, Inl DataErrShort)
      else
        let header = take dataHeaderSize packet;
            seq = get32 (slice offPacketID offTag packet);
            tag = slice offTag offCiphertext packet;
            ciphertext = drop offCiphertext packet
        in case ae_open (dw_decryptAEAD w) (data_nonce seq (dw_decryptIV w))
                  (ciphertext @ tag) header of
             None \<Rightarrow> (w, Inl DataErrAuth)
           | Some plaintext \<Rightarrow>
               (case datachan_accept (dw_replay w) seq of
                  (replay', ok) \<Rightarrow>
                    (w\<lparr>dw_replay := replay'\<rparr>,
                     if \<not> ok then Inl DataErrReplay
                     else if IsPing plaintext then Inl DataErrPingAbsorbed
                     else Inr (dst @ plaintext))))"

section \<open>Opening what was sealed\<close>

text \<open>
  A packet as the AEAD sees it: any four header bytes, a packet id, and a plaintext. The
  tag precedes the ciphertext.
\<close>

definition data_packet :: "data_wrapper \<Rightarrow> u32 \<Rightarrow> bytes \<times> bytes \<Rightarrow> bytes" where
  "data_packet w seq hp =
     (let header = fst hp @ be32 seq;
          sealed = ae_seal (dw_encryptAEAD w) (data_nonce seq (dw_encryptIV w)) (snd hp) header
      in header @ drop (length sealed - 16) sealed @ take (length sealed - 16) sealed)"

definition data_deliver :: "bytes \<Rightarrow> bytes \<times> bytes \<Rightarrow> data_error + bytes" where
  "data_deliver dst hp = (if IsPing (snd hp) then Inl DataErrPingAbsorbed else Inr (dst @ snd hp))"

definition data_linked :: "data_wrapper \<Rightarrow> data_wrapper \<Rightarrow> bool" where
  "data_linked s r \<longleftrightarrow> aead_ok (dw_encryptAEAD s) (dw_decryptAEAD r) \<and>
     take 8 (dw_encryptIV s) = take 8 (dw_decryptIV r)"

definition data_genuine :: "bytes \<times> bytes \<Rightarrow> bool" where
  "data_genuine hp \<longleftrightarrow> length (fst hp) = 4"

lemma length_data_header [simp]: "length (data_header w) = 4"
  by (simp add: data_header_def)

lemma sealWithSeq_packet: "sealWithSeq w dst seq p = dst @ data_packet w seq (data_header w, p)"
  by (simp add: sealWithSeq_def data_packet_def Let_def govpn_consts)

text \<open>Opening splits a packet into the parts \<open>data_packet\<close> joins.\<close>

lemma Open_packet:
  assumes "data_linked s r" and "data_genuine m"
  shows "Open r dst (data_packet s q m) =
    (r\<lparr>dw_replay := fst (datachan_accept (dw_replay r) q)\<rparr>,
     if snd (datachan_accept (dw_replay r) q) then data_deliver dst m else Inl DataErrReplay)"
proof -
  obtain h p where m: "m = (h, p)" by (cases m)
  have h: "length h = 4" using assms(2) m by (simp add: data_genuine_def)
  define sealed where
    "sealed = ae_seal (dw_encryptAEAD s) (data_nonce q (dw_encryptIV s)) p (h @ be32 q)"
  have ok: "aead_ok (dw_encryptAEAD s) (dw_decryptAEAD r)"
    and iv: "data_nonce q (dw_encryptIV s) = data_nonce q (dw_decryptIV r)"
    using assms(1) by (simp_all add: data_linked_def data_nonce_def)
  have len: "length sealed = length p + 16"
    unfolding sealed_def using ok by (rule aead_ok_length)
  have "ae_open (dw_decryptAEAD r) (data_nonce q (dw_decryptIV r)) sealed (h @ be32 q) = Some p"
    unfolding sealed_def iv using ok by (rule aead_ok_open)
  moreover have "data_packet s q m
      = (h @ be32 q) @ drop (length sealed - 16) sealed @ take (length sealed - 16) sealed"
    by (simp add: data_packet_def m sealed_def Let_def)
  moreover have "slice 4 8 ((h @ be32 q) @ xs) = be32 q" for xs
    using h by (simp add: slice_def)
  moreover have "slice 8 24 ((h @ be32 q) @ drop (length sealed - 16) sealed @ xs)
      = drop (length sealed - 16) sealed" for xs
    using h len by (simp add: slice_def)
  ultimately show ?thesis
    using h len
    by (simp add: Open_def Let_def govpn_consts m data_deliver_def u32c.dec_enc_Nil split_def)
qed

lemma Open_foreign:
  assumes "data_linked s r" and "\<And>q m. data_genuine m \<Longrightarrow> b \<noteq> data_packet s q m"
  shows "Open r dst b = (r, Inl (if length b < 24 then DataErrShort else DataErrAuth))"
proof (cases "length b < 24")
  case False
  let ?q = "get32 (slice 4 8 b)"
  have "ae_open (dw_decryptAEAD r) (data_nonce ?q (dw_decryptIV r)) (drop 24 b @ slice 8 24 b)
      (take 8 b) = None"
  proof (rule ccontr)
    assume "ae_open (dw_decryptAEAD r) (data_nonce ?q (dw_decryptIV r))
      (drop 24 b @ slice 8 24 b) (take 8 b) \<noteq> None"
    then obtain p where p: "drop 24 b @ slice 8 24 b =
        ae_seal (dw_encryptAEAD s) (data_nonce ?q (dw_encryptIV s)) p (take 8 b)"
      using assms(1) by (auto simp: data_linked_def aead_ok_def data_nonce_def)
    have split: "take 8 b = take 4 b @ be32 ?q"
      using False by (simp add: be32_get32 slice_def flip: take_add)
    have "b = take 8 b @ slice 8 24 b @ drop 24 b"
      using False by (simp add: slice_def flip: take_add append_assoc)
    also have "\<dots> = data_packet s ?q (take 4 b, p)"
      using False by (simp add: data_packet_def Let_def flip: split p)
    finally have "b = data_packet s ?q (take 4 b, p)" .
    with assms(2) [of "(take 4 b, p)" ?q] False show False
      by (simp add: data_genuine_def)
  qed
  with False show ?thesis by (simp add: Open_def Let_def govpn_consts)
qed (simp add: Open_def govpn_consts)

lemma Open_linked: "data_linked s (fst (Open r dst b)) \<longleftrightarrow> data_linked s r"
  by (auto simp: Open_def Let_def data_linked_def split: option.splits prod.splits)

interpretation data_chan: sealed_channel datachan_accept new_window window_repr
  data_packet "\<lambda>r. Open r dst" "data_deliver dst" DataErrReplay dw_replay data_linked data_genuine
  for dst
proof (unfold_locales, goal_cases)
  case (1 s r m q)
  then show ?case by (simp add: Open_packet)
next
  case (2 s r m q)
  then show ?case by (simp add: Open_packet)
next
  case (3 s r b)
  then show ?case by (simp add: Open_foreign [of s])
next
  case (4 s r b)
  then show ?case by (simp add: Open_linked)
qed

section \<open>Sequences of sealed packets\<close>

fun seal_run :: "data_wrapper \<Rightarrow> bytes list \<Rightarrow> data_wrapper \<times> (data_error + bytes) list" where
  "seal_run w [] = (w, [])"
| "seal_run w (p # ps) =
     (case Seal w [] p of (w', out) \<Rightarrow>
        (case seal_run w' ps of (w'', outs) \<Rightarrow> (w'', out # outs)))"

lemma sealWithSeq_sendSeq [simp]: "sealWithSeq (w\<lparr>dw_sendSeq := x\<rparr>) dst seq p = sealWithSeq w dst seq p"
  by (simp add: sealWithSeq_def data_header_def)

lemma Seal_cases:
  "Seal w dst p =
     (if unat (dw_sendSeq w) = 2 ^ 32 - 1 then (w, Inl DataErrPacketIDExhausted)
      else (w\<lparr>dw_sendSeq := dw_sendSeq w + 1\<rparr>, Inr (sealWithSeq w dst (dw_sendSeq w + 1) p)))"
proof -
  have "dw_sendSeq w = 0xFFFFFFFF \<longleftrightarrow> unat (dw_sendSeq w) = 2 ^ 32 - 1"
    by (simp add: word_unat_eq_iff)
  then show ?thesis
    by (simp add: Seal_def nextPacketID_def Let_def del: diff_numeral_special)
qed

lemma length_seal_run [simp]: "length (snd (seal_run w ps)) = length ps"
  by (induction ps arbitrary: w) (auto split: prod.splits simp: split_def)

lemma unat_succ_u32: "unat (w :: u32) \<noteq> 2 ^ 32 - 1 \<Longrightarrow> unat (w + 1) = unat w + 1"
  using unat_u32_less [of w] by (simp add: unat_word_ariths)

lemma seal_run_nth:
  "i < length ps \<Longrightarrow>
   snd (seal_run w ps) ! i =
     (if unat (dw_sendSeq w) + i + 1 < 2 ^ 32
      then Inr (sealWithSeq w [] (dw_sendSeq w + of_nat (i + 1)) (ps ! i))
      else Inl DataErrPacketIDExhausted)"
proof (induction ps arbitrary: w i)
  case (Cons p ps)
  define m where "m = (2 ^ 32 :: nat)"
  have bound: "unat (dw_sendSeq w) < m" using unat_u32_less by (simp add: m_def)
  show ?case
  proof (cases "unat (dw_sendSeq w) = m - 1")
    case True
    have "snd (seal_run w qs) ! j = Inl DataErrPacketIDExhausted" if "j < length qs" for j qs
      using that
    proof (induction qs arbitrary: j)
      case (Cons q qs)
      then show ?case using True by (cases j) (simp_all add: Seal_cases split_def m_def)
    qed simp
    from this [of i "p # ps"] Cons.prems True show ?thesis
      by (simp add: m_def del: seal_run.simps)
  next
    case False
    let ?w = "w\<lparr>dw_sendSeq := dw_sendSeq w + 1\<rparr>"
    have run: "snd (seal_run w (p # ps)) =
        Inr (sealWithSeq w [] (dw_sendSeq w + 1) p) # snd (seal_run ?w ps)"
      using False by (simp add: Seal_cases split_def m_def)
    have succ: "unat (dw_sendSeq w + 1) = unat (dw_sendSeq w) + 1"
      using False by (intro unat_succ_u32) (simp add: m_def)
    show ?thesis
    proof (cases i)
      case 0
      with run False bound show ?thesis by (simp add: m_def)
    next
      case (Suc k)
      with Cons.IH [of k ?w] Cons.prems run succ show ?thesis
        by (simp add: algebra_simps)
    qed
  qed
qed simp

lemma packet_nonce_field:
  "slice 4 8 (sealWithSeq w [] seq p) = be32 seq"
  by (simp add: sealWithSeq_packet data_packet_def Let_def slice_def)


text \<open>Concrete endpoints for the witnesses.\<close>

definition demo_key :: key2 where
  "demo_key = \<lparr>k2_raw = map of_nat [0..<256]\<rparr>"

definition demo_server :: data_wrapper where
  "demo_server = projr (Data_NewWrapper (\<lambda>k. Some (sum_aead k)) (ServerSlots demo_key 16) 5 1)"

definition demo_client :: data_wrapper where
  "demo_client = projr (Data_NewWrapper (\<lambda>k. Some (sum_aead k))
     (mirrored (ServerSlots demo_key 16)) 5 1)"

lemma demo_sendSeq: "dw_sendSeq demo_server = 0"
  by (simp add: demo_server_def Data_NewWrapper_def ServerSlots_bytes)


section \<open>End to end\<close>

text \<open>
  What is used of \<open>new_gcm\<close>: it accepts the two AES key lengths, and what it returns for
  a key is an AEAD.
\<close>

definition gcm_ok :: "(bytes \<Rightarrow> aead option) \<Rightarrow> bool" where
  "gcm_ok new_gcm \<longleftrightarrow>
     (\<forall>k. length k = 16 \<or> length k = 32 \<longrightarrow> (\<exists>a. new_gcm k = Some a \<and> aead_ok a a))"

lemma gcm_ok_sum_aead: "gcm_ok (\<lambda>k. Some (sum_aead k))"
  by (simp add: gcm_ok_def aead_ok_sum_aead)

lemma endpoints:
  assumes "gcm_ok new_gcm" and "length (k2_raw k) = 256" and "len = 16 \<or> len = 32"
  obtains s c where
    "Data_NewWrapper new_gcm (ServerSlots k len) pid kid = Inr s"
    "Data_NewWrapper new_gcm (mirrored (ServerSlots k len)) pid kid = Inr c"
    "data_linked s c" "data_linked c s"
    "dw_replay s = new_window" "dw_replay c = new_window" "dw_sendSeq s = 0" "dw_sendSeq c = 0"
proof -
  let ?e = "take (nat len) (slice 128 160 (k2_raw k))"
  let ?d = "take (nat len) (slice 0 32 (k2_raw k))"
  have "length ?e = 16 \<or> length ?e = 32" and "length ?d = 16 \<or> length ?d = 32"
    using assms(2,3) by auto
  then obtain a b where ab: "new_gcm ?e = Some a" "aead_ok a a" "new_gcm ?d = Some b" "aead_ok b b"
    using assms(1) unfolding gcm_ok_def by blast
  show thesis
    by (rule that) (use ab assms(3) in
      \<open>auto simp: Data_NewWrapper_def ServerSlots_bytes mirrored_def data_linked_def\<close>)
qed

definition plain_deliver :: "bytes \<Rightarrow> data_error + bytes" where
  "plain_deliver p = (if IsPing p then Inl DataErrPingAbsorbed else Inr p)"

lemma deliver_run_map:
  "deliver_run f err A (map (\<lambda>(q, m). (q, g m)) qs) = deliver_run (\<lambda>m. f (g m)) err A qs"
  by (induction qs arbitrary: A) auto

text \<open>
  C2. The data channel works end to end: the server's wrapper over the derived slots and the
  client's over the mirrored ones can both be built, and whatever the network does to the
  sealed packets -- losing, repeating and reordering them, here any list of indices -- the
  other side delivers exactly the plaintexts whose ids the abstract anti-replay rule admits,
  absorbs the pings among them, and reports every other arrival as a replay.
\<close>

theorem data_channel_end_to_end:
  assumes "gcm_ok new_gcm" and "length (k2_raw k) = 256" and "len = 16 \<or> len = 32"
    and "length ps < 2 ^ 32 - 1" and "\<forall>i\<in>set idx. i < length ps"
  shows "\<exists>s c. Data_NewWrapper new_gcm (ServerSlots k len) pid kid = Inr s \<and>
    Data_NewWrapper new_gcm (mirrored (ServerSlots k len)) pid kid = Inr c \<and>
    snd (open_run (\<lambda>r. Open r []) c (map (\<lambda>i. projr (snd (seal_run s ps) ! i)) idx)) =
    deliver_run plain_deliver DataErrReplay {} (map (\<lambda>i. (of_nat (i + 1), ps ! i)) idx)"
proof -
  obtain s c where new: "Data_NewWrapper new_gcm (ServerSlots k len) pid kid = Inr s"
      "Data_NewWrapper new_gcm (mirrored (ServerSlots k len)) pid kid = Inr c"
    and link: "data_linked s c" and fresh: "dw_replay c = new_window" "dw_sendSeq s = 0"
    by (rule endpoints [OF assms(1-3)]) blast
  let ?qs = "map (\<lambda>i. (of_nat (i + 1) :: u32, ps ! i)) idx"
  let ?hqs = "map (\<lambda>(q, p). (q, (data_header s, p))) ?qs"
  have "map (\<lambda>i. projr (snd (seal_run s ps) ! i)) idx = map (\<lambda>(q, m). data_packet s q m) ?hqs"
    using assms(4,5) fresh by (auto simp: seal_run_nth sealWithSeq_packet)
  moreover have "snd (open_run (\<lambda>r. Open r []) c (map (\<lambda>(q, m). data_packet s q m) ?hqs)) =
      deliver_run (data_deliver []) DataErrReplay {} ?hqs"
    using link fresh window_repr_new
    by (intro data_chan.run_delivers) (auto simp: data_genuine_def)
  moreover have "deliver_run (data_deliver []) DataErrReplay {} ?hqs =
      deliver_run plain_deliver DataErrReplay {} ?qs"
    unfolding deliver_run_map
    by (rule arg_cong [where f = "\<lambda>f. deliver_run f DataErrReplay {} ?qs"])
      (simp add: data_deliver_def plain_deliver_def fun_eq_iff)
  ultimately have "snd (open_run (\<lambda>r. Open r []) c
      (map (\<lambda>i. projr (snd (seal_run s ps) ! i)) idx)) =
    deliver_run plain_deliver DataErrReplay {} ?qs"
    by (rule trans [OF arg_cong [where f = "\<lambda>bs. snd (open_run (\<lambda>r. Open r []) c bs)"] trans])
  with new show ?thesis by blast
qed

theorem data_channel_end_to_end_witness:
  "\<exists>s c. Data_NewWrapper (\<lambda>k. Some (sum_aead k)) (ServerSlots demo_key 16) 5 1 = Inr s \<and>
    Data_NewWrapper (\<lambda>k. Some (sum_aead k)) (mirrored (ServerSlots demo_key 16)) 5 1 = Inr c \<and>
    snd (open_run (\<lambda>r. Open r []) c
      (map (\<lambda>i. projr (snd (seal_run s [[69], pingMagic, [70]]) ! i)) [2, 0, 2, 1])) =
    [Inr [70], Inr [69], Inl DataErrReplay, Inl DataErrPingAbsorbed]"
proof -
  have "deliver_run plain_deliver DataErrReplay {}
      (map (\<lambda>i. (of_nat (i + 1), [[69], pingMagic, [70]] ! i)) [2, 0, 2, 1]) =
    [Inr [70], Inr [69], Inl DataErrReplay, Inl DataErrPingAbsorbed]"
    by (simp add: window_admits_def plain_deliver_def IsPing_def pingMagic_def PingSize_def)
  then show ?thesis
    using data_channel_end_to_end [OF gcm_ok_sum_aead, of demo_key 16
        "[[69], pingMagic, [70]]" "[2, 0, 2, 1]" 5 1]
    by (simp add: demo_key_def)
qed

text \<open>
  C4. Opening is authenticated first: a plaintext is returned only for a packet that the
  peer's key sealed under exactly that header and packet id, that is no ping and whose id
  the replay window admits; and anything the key did not seal leaves the wrapper, its replay
  window included, as it was.
\<close>

theorem data_open_authentic:
  assumes "data_linked s r"
  shows "(snd (Open r dst b) = Inr d \<longrightarrow>
      (\<exists>h q p. length h = 4 \<and> b = data_packet s q (h, p) \<and> d = dst @ p \<and> \<not> IsPing p \<and>
         snd (datachan_accept (dw_replay r) q))) \<and>
    ((\<nexists>h q p. length h = 4 \<and> b = data_packet s q (h, p)) \<longrightarrow>
       fst (Open r dst b) = r \<and> snd (Open r dst b) \<in> {Inl DataErrShort, Inl DataErrAuth})"
proof (intro conjI impI)
  assume "snd (Open r dst b) = Inr d"
  from data_chan.delivered_is_genuine [OF assms this]
  show "\<exists>h q p. length h = 4 \<and> b = data_packet s q (h, p) \<and> d = dst @ p \<and> \<not> IsPing p \<and>
         snd (datachan_accept (dw_replay r) q)"
    by (fastforce simp: data_genuine_def data_deliver_def split: if_splits)
next
  assume "\<nexists>h q p. length h = 4 \<and> b = data_packet s q (h, p)"
  then have "Open r dst b = (r, Inl (if length b < 24 then DataErrShort else DataErrAuth))"
    by (intro Open_foreign [OF assms]) (force simp: data_genuine_def)
  then show "fst (Open r dst b) = r" and "snd (Open r dst b) \<in> {Inl DataErrShort, Inl DataErrAuth}"
    by simp_all
qed

theorem data_open_authentic_witness:
  "data_linked demo_server demo_client \<and>
   fst (Open demo_client [] [1, 2, 3]) = demo_client \<and>
   snd (Open demo_client [7] (sealWithSeq demo_server [] 4 [69])) = Inr [7, 69]"
proof -
  have link: "data_linked demo_server demo_client"
    and replay: "dw_replay demo_client = new_window"
    by (simp_all add: demo_server_def demo_client_def Data_NewWrapper_def ServerSlots_bytes
        mirrored_def data_linked_def aead_ok_sum_aead)
  have "[1, 2, 3] \<noteq> data_packet demo_server q (h, p)" if "length h = 4" for q h p
    using that by (auto simp: data_packet_def Let_def dest: arg_cong [of _ _ length])
  then have "fst (Open demo_client [] [1, 2, 3]) = demo_client"
    using data_open_authentic [OF link, of "[]" "[1, 2, 3]"] by blast
  moreover have "snd (Open demo_client [7] (sealWithSeq demo_server [] 4 [69])) = Inr [7, 69]"
    unfolding sealWithSeq_packet append_Nil
    using Open_packet [OF link, of "(data_header demo_server, [69])" "[7]" 4] replay
    by (simp add: data_genuine_def data_deliver_def IsPing_def govpn_consts
        datachan_accept_def new_window_def)
  ultimately show ?thesis using link by blast
qed

end
