(* ===== verification/Ip_Pool.thy ===== *)
theory Ip_Pool
  imports Govpn_Prelude
begin

text \<open>
  \<^verbatim>\<open>ippool.go\<close>: the allocator of tunnel addresses and peer ids. A \<^verbatim>\<open>net.IP\<close> is a byte
  slice of length 4 or 16; what the pool uses of the \<^verbatim>\<open>net\<close> package (\<^verbatim>\<open>To4\<close> and
  \<^verbatim>\<open>IPMask.Size\<close>) is modelled. The interface \<open>lease_pool\<close> is what the server relies
  on: over any sequence of allocations, reservations and releases the live leases are
  pairwise distinct in both components.
\<close>

unbundle bit_operations_syntax

section \<open>Addresses and masks\<close>

type_synonym net_ip = bytes

definition To4 :: "net_ip \<Rightarrow> net_ip option" where
  "To4 ip =
     (if length ip = 4 then Some ip
      else if length ip = 16 \<and> take 10 ip = replicate 10 0 \<and> ip ! 10 = 0xff \<and> ip ! 11 = 0xff
      then Some (drop 12 ip) else None)"

definition normalizeIPv4Mask :: "bytes \<Rightarrow> bytes" where
  "normalizeIPv4Mask msk = (if length msk = 16 then drop 12 msk else msk)"

text \<open>
  \<^verbatim>\<open>IPMask.Size\<close> of a four-byte mask: the number of leading ones and the width, or two
  zeros when a one follows a zero.
\<close>

definition mask_bits :: "u32 \<Rightarrow> bool list" where
  "mask_bits m = map (bit m) (rev [0..<32])"

definition mask_size :: "bytes \<Rightarrow> nat \<times> nat" where
  "mask_size msk =
     (let bs = mask_bits (get32 msk); ones = length (takeWhile (\<lambda>b. b) bs)
      in if list_ex (\<lambda>b. b) (drop ones bs) then (0, 0) else (ones, 32))"

record ip_net =
  net_IP :: net_ip
  net_Mask :: bytes

section \<open>The pool\<close>

definition maxPeerID :: u32 where [govpn_consts]: "maxPeerID = 0xFFFFFF"

datatype pool_error =
  ErrPoolExhausted | ErrAssignIPNotIPv4 | ErrAssignIPOutsideNetwork | ErrAssignIPReserved
| ErrAssignIPInUse | ErrNetworkUnset | ErrNetworkNotIPv4 | ErrNetworkTooSmall

record ip_pool =
  pool_base :: u32
  pool_size :: u32
  pool_usedIPs :: "u32 set"
  pool_usedPeerIDs :: "u32 set"

definition newIPPool :: "ip_net option \<Rightarrow> pool_error + ip_pool" where
  "newIPPool network =
     (case network of
        None \<Rightarrow> Inl ErrNetworkUnset
      | Some net \<Rightarrow>
          (case To4 (net_IP net) of
             None \<Rightarrow> Inl ErrNetworkNotIPv4
           | Some ip4 \<Rightarrow>
               let msk = normalizeIPv4Mask (net_Mask net) in
               if length msk \<noteq> 4 then Inl ErrNetworkNotIPv4
               else
                 let (ones, bits) = mask_size msk in
                 if bits \<noteq> 32 then Inl ErrNetworkNotIPv4
                 else
                   let size = push_bit (32 - ones) (1 :: u32) in
                   if size < 4 then Inl ErrNetworkTooSmall
                   else Inr \<lparr>pool_base = get32 ip4, pool_size = size,
                             pool_usedIPs = {}, pool_usedPeerIDs = {}\<rparr>))"

definition offsetToIP :: "u32 \<Rightarrow> net_ip" where
  "offsetToIP v = be32 v"

definition serverIP :: "ip_pool \<Rightarrow> net_ip" where
  "serverIP p = offsetToIP (pool_base p + 1)"

text \<open>The two scan loops: the first number from \<open>o\<close> up to below \<open>lim\<close> that is unused.\<close>

lemma unat_succ_below: "x < lim \<Longrightarrow> unat (x + 1) = unat x + 1" for x lim :: u32
  using unat_u32_less [of lim] by (simp add: word_less_nat_alt unat_word_ariths)

function scan_free :: "u32 \<Rightarrow> u32 \<Rightarrow> u32 set \<Rightarrow> u32 option" where
  "scan_free x lim used =
     (if x < lim then (if x \<notin> used then Some x else scan_free (x + 1) lim used) else None)"
  by auto
termination
proof (relation "measure (\<lambda>(x, lim, _). unat lim - unat x)")
  fix x lim :: u32 and used :: "u32 set"
  assume "x < lim"
  then have "unat (x + 1) = unat x + 1"
    by (rule unat_succ_below)
  with \<open>x < lim\<close> show "((x + 1, lim, used), (x, lim, used)) \<in> measure (\<lambda>(x, lim, _). unat lim - unat x)"
    by (simp add: word_less_nat_alt)
qed simp

declare scan_free.simps [simp del]

definition nextFreeOffset :: "ip_pool \<Rightarrow> u32 option" where
  "nextFreeOffset p = scan_free 2 (pool_size p - 1) (pool_usedIPs p)"

definition nextFreePeerID :: "ip_pool \<Rightarrow> u32 option" where
  "nextFreePeerID p = scan_free 0 (maxPeerID + 1) (pool_usedPeerIDs p)"

definition allocate :: "ip_pool \<Rightarrow> ip_pool \<times> (pool_error + net_ip \<times> u32)" where
  "allocate p =
     (case nextFreeOffset p of
        None \<Rightarrow> (p, Inl ErrPoolExhausted)
      | Some off \<Rightarrow>
          (case nextFreePeerID p of
             None \<Rightarrow> (p, Inl ErrPoolExhausted)
           | Some peerID \<Rightarrow>
               (p\<lparr>pool_usedIPs := insert off (pool_usedIPs p),
                  pool_usedPeerIDs := insert peerID (pool_usedPeerIDs p)\<rparr>,
                Inr (offsetToIP (pool_base p + off), peerID))))"

definition reserve :: "ip_pool \<Rightarrow> net_ip \<Rightarrow> ip_pool \<times> (pool_error + u32)" where
  "reserve p ip =
     (case To4 ip of
        None \<Rightarrow> (p, Inl ErrAssignIPNotIPv4)
      | Some ip4 \<Rightarrow>
          let v = get32 ip4 in
          if v < pool_base p then (p, Inl ErrAssignIPOutsideNetwork)
          else
            let off = v - pool_base p in
            if off \<ge> pool_size p then (p, Inl ErrAssignIPOutsideNetwork)
            else if off = 0 \<or> off = 1 \<or> off = pool_size p - 1 then (p, Inl ErrAssignIPReserved)
            else if off \<in> pool_usedIPs p then (p, Inl ErrAssignIPInUse)
            else
              (case nextFreePeerID p of
                 None \<Rightarrow> (p, Inl ErrPoolExhausted)
               | Some peerID \<Rightarrow>
                   (p\<lparr>pool_usedIPs := insert off (pool_usedIPs p),
                      pool_usedPeerIDs := insert peerID (pool_usedPeerIDs p)\<rparr>, Inr peerID)))"

definition release :: "ip_pool \<Rightarrow> net_ip \<Rightarrow> u32 \<Rightarrow> ip_pool" where
  "release p ip peerID =
     (let p = (case To4 ip of
                 None \<Rightarrow> p
               | Some ip4 \<Rightarrow> p\<lparr>pool_usedIPs := pool_usedIPs p - {get32 ip4 - pool_base p}\<rparr>)
      in p\<lparr>pool_usedPeerIDs := pool_usedPeerIDs p - {peerID}\<rparr>)"

section \<open>The scan\<close>

lemma scan_free_Some:
  "scan_free x lim used = Some y \<longleftrightarrow>
   x \<le> y \<and> y < lim \<and> y \<notin> used \<and> (\<forall>z. x \<le> z \<and> z < y \<longrightarrow> z \<in> used)"
proof (induction x lim used rule: scan_free.induct)
  case (1 x lim used)
  have step: "x \<le> z \<and> z \<noteq> x \<longleftrightarrow> x + 1 \<le> z" if "x < lim" for z
    using unat_succ_below [OF that] by (auto simp: word_le_nat_alt word_unat_eq_iff)
  show ?case
  proof (cases "x < lim \<and> x \<in> used")
    case True
    with 1 have "scan_free x lim used = Some y \<longleftrightarrow>
        x + 1 \<le> y \<and> y < lim \<and> y \<notin> used \<and> (\<forall>z. x + 1 \<le> z \<and> z < y \<longrightarrow> z \<in> used)"
      by (subst scan_free.simps) simp
    with step True show ?thesis by auto
  next
    case False
    then show ?thesis
      by (subst scan_free.simps) (auto simp: order.order_iff_strict)
  qed
qed

lemma scan_free_None: "scan_free x lim used = None \<longleftrightarrow> (\<forall>z. x \<le> z \<and> z < lim \<longrightarrow> z \<in> used)"
proof
  assume "scan_free x lim used = None"
  then have none: "scan_free x lim used \<noteq> Some y" for y by simp
  show "\<forall>z. x \<le> z \<and> z < lim \<longrightarrow> z \<in> used"
  proof (intro allI)
    fix z
    show "x \<le> z \<and> z < lim \<longrightarrow> z \<in> used"
    proof (induction z rule: less_induct)
      case (less z)
      with none [of z] show ?case unfolding scan_free_Some by (meson less_trans)
    qed
  qed
next
  assume "\<forall>z. x \<le> z \<and> z < lim \<longrightarrow> z \<in> used"
  then show "scan_free x lim used = None"
    using scan_free_Some [of x lim used] by (cases "scan_free x lim used") auto
qed

section \<open>The contract of a lease pool\<close>

datatype 'a lease_op = LeaseAlloc | LeaseReserve 'a | LeaseRelease nat

text \<open>
  The clients: each keeps the pair it was given and gives exactly that pair back.
\<close>

fun lease_step ::
  "('p \<Rightarrow> 'p \<times> ('e + 'a \<times> 'b)) \<Rightarrow> ('p \<Rightarrow> 'a \<Rightarrow> 'p \<times> ('e + 'b)) \<Rightarrow> ('p \<Rightarrow> 'a \<Rightarrow> 'b \<Rightarrow> 'p) \<Rightarrow>
   'p \<times> ('a \<times> 'b) list \<Rightarrow> 'a lease_op \<Rightarrow> 'p \<times> ('a \<times> 'b) list" where
  "lease_step al re rl (p, ls) LeaseAlloc =
     (case al p of (p', Inr ab) \<Rightarrow> (p', ab # ls) | (p', Inl _) \<Rightarrow> (p', ls))"
| "lease_step al re rl (p, ls) (LeaseReserve a) =
     (case re p a of (p', Inr b) \<Rightarrow> (p', (a, b) # ls) | (p', Inl _) \<Rightarrow> (p', ls))"
| "lease_step al re rl (p, ls) (LeaseRelease i) =
     (if i < length ls
      then (rl p (fst (ls ! i)) (snd (ls ! i)), take i ls @ drop (Suc i) ls) else (p, ls))"

lemma distinct_drop_middle:
  "distinct (us @ v # ws) \<Longrightarrow> distinct (us @ ws) \<and> set (us @ v # ws) - {v} = set (us @ ws)"
  by auto

locale lease_pool =
  fixes al :: "'p \<Rightarrow> 'p \<times> ('e + 'a \<times> 'b)"
    and re :: "'p \<Rightarrow> 'a \<Rightarrow> 'p \<times> ('e + 'b)"
    and rl :: "'p \<Rightarrow> 'a \<Rightarrow> 'b \<Rightarrow> 'p"
    and ok :: "'p \<Rightarrow> bool"
    and key :: "'p \<Rightarrow> 'a \<Rightarrow> 'k"
    and live :: "'p \<Rightarrow> 'k set"
    and ids :: "'p \<Rightarrow> 'b set"
  assumes al_ok: "ok p \<Longrightarrow> al p = (p', Inr (a, b)) \<Longrightarrow>
      ok p' \<and> key p a \<notin> live p \<and> b \<notin> ids p \<and> key p' = key p \<and>
      live p' = insert (key p a) (live p) \<and> ids p' = insert b (ids p)"
    and al_err: "al p = (p', Inl e) \<Longrightarrow> p' = p"
    and re_ok: "ok p \<Longrightarrow> re p a = (p', Inr b) \<Longrightarrow>
      ok p' \<and> key p a \<notin> live p \<and> b \<notin> ids p \<and> key p' = key p \<and>
      live p' = insert (key p a) (live p) \<and> ids p' = insert b (ids p)"
    and re_err: "re p a = (p', Inl e) \<Longrightarrow> p' = p"
    and rl_ok: "ok p \<Longrightarrow> key p a \<in> live p \<Longrightarrow>
      ok (rl p a b) \<and> key (rl p a b) = key p \<and> live (rl p a b) = live p - {key p a} \<and>
      ids (rl p a b) = ids p - {b}"
begin

definition accounted :: "'p \<times> ('a \<times> 'b) list \<Rightarrow> bool" where
  "accounted s = (case s of (p, ls) \<Rightarrow>
     ok p \<and> live p = set (map (key p \<circ> fst) ls) \<and> ids p = set (map snd ls) \<and>
     distinct (map (key p \<circ> fst) ls) \<and> distinct (map snd ls))"

lemma accounted_Cons:
  assumes "accounted (p, ls)" and "ok p'" and "key p a \<notin> live p" and "b \<notin> ids p"
    and "key p' = key p" and "live p' = insert (key p a) (live p)" and "ids p' = insert b (ids p)"
  shows "accounted (p', (a, b) # ls)"
  using assms by (auto simp: accounted_def image_image)

lemma accounted_step:
  assumes "accounted s"
  shows "accounted (lease_step al re rl s op)"
proof -
  obtain p ls where s: "s = (p, ls)" by (cases s)
  have ok: "ok p" using assms s by (simp add: accounted_def)
  show ?thesis
  proof (cases op)
    case LeaseAlloc
    show ?thesis
    proof (cases "al p")
      case (Pair p' r)
      then show ?thesis
        using assms s LeaseAlloc al_err [of p p'] al_ok [OF ok, of p'] accounted_Cons [of p ls p']
        by (cases r) auto
    qed
  next
    case (LeaseReserve a)
    show ?thesis
    proof (cases "re p a")
      case (Pair p' r)
      then show ?thesis
        using assms s LeaseReserve re_err [of p a p'] re_ok [OF ok, of a p']
          accounted_Cons [of p ls p'] by (cases r) auto
    qed
  next
    case (LeaseRelease i)
    show ?thesis
    proof (cases "i < length ls")
      case True
      obtain xs a b ys where ls: "ls = xs @ (a, b) # ys" "length xs = i"
        using id_take_nth_drop [OF True] by (metis length_take min.absorb4 surj_pair True)
      have "key p a \<in> live p" using assms s ls by (auto simp: accounted_def)
      note freed = rl_ok [OF ok this, of b]
      have "lease_step al re rl s op = (rl p a b, xs @ ys)"
        unfolding s LeaseRelease ls(1) using ls(2) by (simp add: nth_append)
      moreover have "accounted (rl p a b, xs @ ys)"
        using assms freed distinct_drop_middle [of "map (key p \<circ> fst) xs" "key p a"]
          distinct_drop_middle [of "map snd xs" b "map snd ys"]
        unfolding s ls(1) accounted_def
        by (simp del: set_append distinct_append set_map distinct.simps list.set)
      ultimately show ?thesis by simp
    next
      case False
      then show ?thesis using assms s LeaseRelease by simp
    qed
  qed
qed

lemma accounted_run: "accounted s \<Longrightarrow> accounted (foldl (lease_step al re rl) s ops)"
  by (induction ops arbitrary: s) (simp_all add: accounted_step)

end

section \<open>The pool keeps the contract\<close>

definition pool_ok :: "ip_pool \<Rightarrow> bool" where
  "pool_ok p \<longleftrightarrow>
     4 \<le> pool_size p \<and> unat (pool_base p) + unat (pool_size p) \<le> 2 ^ 32 \<and>
     (\<forall>off\<in>pool_usedIPs p. 2 \<le> off \<and> off < pool_size p - 1) \<and>
     (\<forall>pid\<in>pool_usedPeerIDs p. pid \<le> maxPeerID)"

text \<open>An address is tracked by its offset from the base.\<close>

definition ip_offset :: "ip_pool \<Rightarrow> net_ip \<Rightarrow> u32" where
  "ip_offset p ip = (case To4 ip of None \<Rightarrow> 0 | Some ip4 \<Rightarrow> get32 ip4 - pool_base p)"

lemma To4_be32 [simp]: "To4 (be32 v) = Some (be32 v)"
  by (simp add: To4_def)

lemma ip_offset_offsetToIP [simp]: "ip_offset p (offsetToIP (pool_base p + off)) = off"
  by (simp add: ip_offset_def offsetToIP_def u32c.dec_enc_Nil)

lemma ip_offset_cong: "pool_base p' = pool_base p \<Longrightarrow> ip_offset p' = ip_offset p"
  by (intro ext) (simp add: ip_offset_def split: option.split)

lemma nextFreePeerID_Some:
  "nextFreePeerID p = Some pid \<longleftrightarrow>
   pid \<le> maxPeerID \<and> pid \<notin> pool_usedPeerIDs p \<and> (\<forall>z<pid. z \<in> pool_usedPeerIDs p)"
proof -
  have "pid < maxPeerID + 1 \<longleftrightarrow> pid \<le> maxPeerID" for pid
    unfolding maxPeerID_def word_less_nat_alt word_le_nat_alt by simp linarith
  then show ?thesis by (simp add: nextFreePeerID_def scan_free_Some)
qed

lemma allocate_Inr:
  assumes "pool_ok p" and "allocate p = (p', Inr (ip, pid))"
  shows "\<exists>off. nextFreeOffset p = Some off \<and> nextFreePeerID p = Some pid \<and>
    ip = offsetToIP (pool_base p + off) \<and>
    p' = p\<lparr>pool_usedIPs := insert off (pool_usedIPs p),
           pool_usedPeerIDs := insert pid (pool_usedPeerIDs p)\<rparr>"
  using assms(2) by (auto simp: allocate_def split: option.splits)

lemma reserve_Inr:
  assumes "reserve p ip = (p', Inr pid)"
  shows "nextFreePeerID p = Some pid \<and> ip_offset p ip \<notin> pool_usedIPs p \<and>
    2 \<le> ip_offset p ip \<and> ip_offset p ip < pool_size p - 1 \<and>
    p' = p\<lparr>pool_usedIPs := insert (ip_offset p ip) (pool_usedIPs p),
           pool_usedPeerIDs := insert pid (pool_usedPeerIDs p)\<rparr>"
proof -
  have bounds: "2 \<le> off \<and> off < s - 1"
    if "off \<noteq> 0" and "off \<noteq> 1" and "off \<noteq> s - 1" and "off < s" for off s :: u32
  proof -
    have "unat (s - 1) = unat s - 1" using that(4) by (intro unat_minus_one) auto
    with that show ?thesis
      by (auto simp: word_less_nat_alt word_le_nat_alt word_unat_eq_iff)
  qed
  show ?thesis
    using assms bounds [of "ip_offset p ip" "pool_size p"]
    by (auto simp: reserve_def Let_def ip_offset_def split: option.splits if_splits)
qed

interpretation ip_leases: lease_pool allocate reserve release pool_ok ip_offset pool_usedIPs
  pool_usedPeerIDs
proof (unfold_locales, goal_cases)
  case (1 p p' ip pid)
  from allocate_Inr [OF 1] obtain off where off: "nextFreeOffset p = Some off"
      "nextFreePeerID p = Some pid" "ip = offsetToIP (pool_base p + off)"
      "p' = p\<lparr>pool_usedIPs := insert off (pool_usedIPs p),
             pool_usedPeerIDs := insert pid (pool_usedPeerIDs p)\<rparr>"
    by blast
  with 1(1) show ?case
    by (auto simp: pool_ok_def nextFreeOffset_def scan_free_Some nextFreePeerID_Some
        intro: ip_offset_cong)
next
  case (2 p p' e)
  then show ?case by (auto simp: allocate_def split: option.splits)
next
  case (3 p ip p' pid)
  from reserve_Inr [OF 3(2)] 3(1) show ?case
    by (auto simp: pool_ok_def nextFreePeerID_Some intro: ip_offset_cong)
next
  case (4 p ip p' e)
  then show ?case by (auto simp: reserve_def Let_def split: option.splits if_splits)
next
  case (5 p ip pid)
  have "To4 ip = None \<Longrightarrow> ip_offset p ip = 0" by (simp add: ip_offset_def)
  moreover have "0 \<notin> pool_usedIPs p" using 5(1) by (auto simp: pool_ok_def)
  ultimately obtain ip4 where "To4 ip = Some ip4" using 5(2) by fastforce
  then show ?case using 5(1)
    by (auto simp: release_def pool_ok_def ip_offset_def Let_def intro: ip_offset_cong)
qed

lemma newIPPool_fresh:
  assumes "newIPPool net = Inr p"
  shows "4 \<le> pool_size p \<and> pool_usedIPs p = {} \<and> pool_usedPeerIDs p = {}"
  using assms
  by (auto simp: newIPPool_def Let_def not_less split: option.splits if_splits prod.splits)

lemma pool_ok_fresh:
  assumes "newIPPool net = Inr p" and "unat (pool_size p) dvd unat (pool_base p)"
    and "\<exists>k\<le>32. pool_size p = push_bit k 1"
  shows "pool_ok p"
proof -
  from assms(3) obtain k where k: "k \<le> 32" "pool_size p = push_bit k 1" by blast
  have "pool_size p \<noteq> 0" using newIPPool_fresh [OF assms(1)] by auto
  with k have "k < 32" by (cases "k = 32") simp_all
  then have "(2 :: nat) ^ k < 2 ^ 32" by (intro power_strict_increasing) simp_all
  then have "unat (of_nat (2 ^ k) :: u32) = 2 ^ k"
    by (simp only: unat_of_nat) simp
  with k have size: "unat (pool_size p) = 2 ^ k" by simp
  obtain m where m: "unat (pool_base p) = 2 ^ k * m" using assms(2) size by auto
  have "2 ^ k * m < 2 ^ k * 2 ^ (32 - k)"
    using unat_u32_less [of "pool_base p"] m \<open>k < 32\<close> by (simp flip: power_add)
  then have "m < 2 ^ (32 - k)" by simp
  then have "2 ^ k * (m + 1) \<le> 2 ^ k * (2 ^ (32 - k) :: nat)"
    by (intro mult_le_mono2) simp
  also have "\<dots> = 2 ^ 32" using \<open>k < 32\<close> by (simp flip: power_add)
  finally have "unat (pool_base p) + unat (pool_size p) \<le> 2 ^ 32"
    using m size by (simp add: algebra_simps)
  with newIPPool_fresh [OF assms(1)] show ?thesis by (simp add: pool_ok_def)
qed

lemma newIPPool_size:
  "newIPPool net = Inr p \<Longrightarrow> \<exists>k\<le>32. pool_size p = push_bit k 1"
  by (auto simp: newIPPool_def Let_def simp del: push_bit_of_1 push_bit_word_beyond
      split: option.splits if_splits prod.splits intro: exI [of _ "32 - _"])

lemma foldl_fixed: "(\<And>s x. f (g s x) = f s) \<Longrightarrow> f (foldl g s xs) = f s"
  by (induction xs arbitrary: s) simp_all

lemma lease_step_geometry:
  "(pool_base (fst (lease_step allocate reserve release s op)),
    pool_size (fst (lease_step allocate reserve release s op))) =
   (pool_base (fst s), pool_size (fst s))"
  by (cases s; cases op)
    (auto simp: allocate_def reserve_def release_def Let_def split: option.splits)

lemma accounted_lease:
  assumes "ip_leases.accounted (p, ls)" and "(ip, pid) \<in> set ls"
  shows "pid \<le> maxPeerID \<and>
    (\<exists>ip4. To4 ip = Some ip4 \<and> get32 ip4 = pool_base p + ip_offset p ip \<and>
       unat (pool_base p) + 1 < unat (get32 ip4) \<and>
       unat (get32 ip4) + 1 < unat (pool_base p) + unat (pool_size p))"
proof -
  have used: "ip_offset p ip \<in> pool_usedIPs p" "pid \<in> pool_usedPeerIDs p" and ok: "pool_ok p"
    using assms by (force simp: ip_leases.accounted_def)+
  then have off: "2 \<le> ip_offset p ip" "ip_offset p ip < pool_size p - 1" "pid \<le> maxPeerID"
    by (auto simp: pool_ok_def)
  then obtain ip4 where ip4: "To4 ip = Some ip4"
    by (cases "To4 ip") (auto simp: ip_offset_def)
  then have v: "get32 ip4 = pool_base p + ip_offset p ip" by (simp add: ip_offset_def)
  have "unat (pool_size p - 1) = unat (pool_size p) - 1"
    using ok by (intro unat_minus_one) (auto simp: pool_ok_def)
  then have "2 \<le> unat (ip_offset p ip)" and "unat (ip_offset p ip) + 1 < unat (pool_size p)"
    using off by (simp_all add: word_less_nat_alt word_le_nat_alt)
  moreover from this ok have "unat (get32 ip4) = unat (pool_base p) + unat (ip_offset p ip)"
    unfolding v by (simp add: pool_ok_def unat_word_ariths)
  ultimately show ?thesis using ip4 v off(3) by auto
qed


definition demo_net :: ip_net where
  "demo_net = \<lparr>net_IP = [10, 8, 0, 0], net_Mask = [255, 255, 255, 248]\<rparr>"

lemma demo_pool:
  "newIPPool (Some demo_net) = Inr \<lparr>pool_base = 0x0A080000, pool_size = 8,
     pool_usedIPs = {}, pool_usedPeerIDs = {}\<rparr>"
proof -
  have net: "get32 [255, 255, 255, 248] = 0xFFFFFFF8" by (simp add: get32_def)
  have "mask_size [255, 255, 255, 248] = (29, 32)"
    unfolding mask_size_def net by code_simp
  then show ?thesis
    by (simp add: newIPPool_def demo_net_def To4_def normalizeIPv4Mask_def get32_def)
qed


text \<open>
  Allocation never blocks and takes the first free address and the first free peer id:
  it succeeds exactly when both exist, every smaller one is then in use, and releasing what
  it gave restores the pool; otherwise it reports exhaustion and changes nothing.
\<close>

theorem pool_allocates_first_free:
  assumes "pool_ok p"
  shows "case allocate p of
      (p', Inr (ip, pid)) \<Rightarrow>
        (\<exists>off. ip = offsetToIP (pool_base p + off) \<and> 2 \<le> off \<and> off < pool_size p - 1 \<and>
           off \<notin> pool_usedIPs p \<and> (\<forall>z. 2 \<le> z \<and> z < off \<longrightarrow> z \<in> pool_usedIPs p)) \<and>
        pid \<le> maxPeerID \<and> pid \<notin> pool_usedPeerIDs p \<and> (\<forall>z<pid. z \<in> pool_usedPeerIDs p) \<and>
        pool_ok p' \<and> release p' ip pid = p
    | (p', Inl e) \<Rightarrow>
        p' = p \<and> e = ErrPoolExhausted \<and>
        ((\<forall>z. 2 \<le> z \<and> z < pool_size p - 1 \<longrightarrow> z \<in> pool_usedIPs p) \<or>
         (\<forall>z\<le>maxPeerID. z \<in> pool_usedPeerIDs p))"
proof (cases "allocate p")
  case (Pair p' r)
  show ?thesis
  proof (cases r)
    case (Inl e)
    have "z < maxPeerID + 1 \<longleftrightarrow> z \<le> maxPeerID" for z
      unfolding maxPeerID_def word_less_nat_alt word_le_nat_alt by simp linarith
    with Inl Pair show ?thesis
      by (auto simp: allocate_def nextFreeOffset_def nextFreePeerID_def scan_free_None
          split: option.splits)
  next
    case (Inr x)
    obtain ip pid where x: "x = (ip, pid)" by (cases x)
    from allocate_Inr [OF assms, of p' ip pid] Pair Inr x obtain off where
      off: "nextFreeOffset p = Some off" "nextFreePeerID p = Some pid"
        "ip = offsetToIP (pool_base p + off)"
        "p' = p\<lparr>pool_usedIPs := insert off (pool_usedIPs p),
               pool_usedPeerIDs := insert pid (pool_usedPeerIDs p)\<rparr>"
      by blast
    moreover have "pool_ok p'"
      using ip_leases.al_ok [OF assms, of p' ip pid] Pair Inr x by simp
    moreover from off have "release p' ip pid = p"
      by (auto simp: release_def offsetToIP_def u32c.dec_enc_Nil nextFreeOffset_def
          scan_free_Some nextFreePeerID_Some)
    ultimately show ?thesis
      using Pair Inr x
      by (auto simp: nextFreeOffset_def scan_free_Some nextFreePeerID_Some)
  qed
qed

theorem pool_allocates_first_free_witness:
  "\<exists>p' ip. allocate (projr (newIPPool (Some demo_net))) = (p', Inr (ip, 0)) \<and>
     ip = [10, 8, 0, 2] \<and> release p' ip 0 = projr (newIPPool (Some demo_net))"
proof -
  let ?p = "projr (newIPPool (Some demo_net))"
  have "pool_ok ?p" by (simp add: demo_pool pool_ok_def)
  moreover have "snd (allocate ?p) = Inr ([10, 8, 0, 2], 0)"
    unfolding demo_pool sum.sel by code_simp
  ultimately show ?thesis using pool_allocates_first_free [of ?p] by (cases "allocate ?p") auto
qed

end
