(* ===== verification/Go_Strings.thy ===== *)
theory Go_Strings
  imports Govpn_Prelude
begin

text \<open>
  What the sources use of Go's \<^verbatim>\<open>strings\<close>, \<^verbatim>\<open>strconv\<close> and \<^verbatim>\<open>fmt\<close> packages, on
  strings as lists of bytes (\<open>char\<close>): splitting and joining at one separator byte, prefixes,
  trimming, decimal numbers, and case folding against an ASCII string.
\<close>

section \<open>Splitting and joining\<close>

fun str_split :: "char \<Rightarrow> string \<Rightarrow> string list" where
  "str_split sep [] = [[]]"
| "str_split sep (c # cs) =
     (if c = sep then [] # str_split sep cs
      else (case str_split sep cs of t # ts \<Rightarrow> (c # t) # ts | [] \<Rightarrow> [[c]]))"

fun str_join :: "char \<Rightarrow> string list \<Rightarrow> string" where
  "str_join sep [] = []"
| "str_join sep [t] = t"
| "str_join sep (t # ts) = t @ sep # str_join sep ts"

lemma str_split_nonempty [simp]: "str_split sep s \<noteq> []"
  by (induction s) (auto split: list.splits)

lemma str_split_append:
  "sep \<notin> set t \<Longrightarrow> str_split sep (t @ sep # s) = t # str_split sep s"
  by (induction t) auto

lemma str_split_plain: "sep \<notin> set t \<Longrightarrow> str_split sep t = [t]"
  by (induction t) auto

lemma str_split_join:
  "ts \<noteq> [] \<Longrightarrow> \<forall>t\<in>set ts. sep \<notin> set t \<Longrightarrow> str_split sep (str_join sep ts) = ts"
proof (induction sep ts rule: str_join.induct)
  case (3 sep t u us)
  then show ?case by (simp add: str_split_append)
qed (simp_all add: str_split_plain)

lemma str_join_split: "str_join sep (str_split sep s) = s"
proof (induction s)
  case (Cons c cs)
  show ?case
  proof (cases "str_split sep cs")
    case (Cons t ts)
    then show ?thesis using Cons.IH by (cases ts) auto
  qed simp
qed simp

lemma str_split_no_sep: "t \<in> set (str_split sep s) \<Longrightarrow> sep \<notin> set t"
  by (induction s arbitrary: t) (auto split: list.splits if_splits)

lemma set_str_join: "set (str_join sep ts) \<subseteq> insert sep (\<Union>t\<in>set ts. set t)"
  by (induction sep ts rule: str_join.induct) auto

section \<open>Prefixes and trimming\<close>

definition HasPrefix :: "string \<Rightarrow> string \<Rightarrow> bool" where
  "HasPrefix s pre \<longleftrightarrow> take (length pre) s = pre"

definition CutPrefix :: "string \<Rightarrow> string \<Rightarrow> string option" where
  "CutPrefix s pre = (if HasPrefix s pre then Some (drop (length pre) s) else None)"

lemma CutPrefix_Some: "CutPrefix s pre = Some rest \<longleftrightarrow> s = pre @ rest"
  by (auto simp: CutPrefix_def HasPrefix_def) (metis append_take_drop_id)

text \<open>The encodings of the runes that \<^verbatim>\<open>unicode.IsSpace\<close> accepts.\<close>

definition space_runes :: "string list" where
  "space_runes = map (map char_of)
     ([[9], [10], [11], [12], [13], [32], [0xC2, 0x85], [0xC2, 0xA0], [0xE1, 0x9A, 0x80],
       [0xE2, 0x80, 0xA8], [0xE2, 0x80, 0xA9], [0xE2, 0x80, 0xAF], [0xE2, 0x81, 0x9F],
       [0xE3, 0x80, 0x80]] @ map (\<lambda>i. [0xE2, 0x80, 0x80 + i]) [0..<11] :: nat list list)"

lemma space_runes_nonempty: "r \<in> set space_runes \<Longrightarrow> r \<noteq> []"
  by (auto simp: space_runes_def)

fun trim_left :: "nat \<Rightarrow> string \<Rightarrow> string" where
  "trim_left 0 s = s"
| "trim_left (Suc n) s =
     (case find (HasPrefix s) space_runes of
        None \<Rightarrow> s | Some r \<Rightarrow> trim_left n (drop (length r) s))"

fun trim_right :: "nat \<Rightarrow> string \<Rightarrow> string" where
  "trim_right 0 s = s"
| "trim_right (Suc n) s =
     (case find (\<lambda>r. HasPrefix (rev s) (rev r)) space_runes of
        None \<Rightarrow> s | Some r \<Rightarrow> trim_right n (take (length s - length r) s))"

text \<open>Every round removes a byte, so as many rounds as there are bytes are enough.\<close>

definition TrimSpace :: "string \<Rightarrow> string" where
  "TrimSpace s = (let t = trim_left (length s) s in trim_right (length t) t)"

section \<open>Decimal numbers\<close>

definition digit_char :: "nat \<Rightarrow> char" where
  "digit_char d = char_of (48 + d)"

fun dec_nat :: "nat \<Rightarrow> string" where
  "dec_nat n = (if n < 10 then [digit_char n] else dec_nat (n div 10) @ [digit_char (n mod 10)])"

declare dec_nat.simps [simp del]

definition dec_int :: "int \<Rightarrow> string" where
  "dec_int i = (if i < 0 then CHR ''-'' # dec_nat (nat (- i)) else dec_nat (nat i))"

definition is_digit :: "char \<Rightarrow> bool" where
  "is_digit c \<longleftrightarrow> 48 \<le> (of_char c :: nat) \<and> (of_char c :: nat) \<le> 57"

definition digits_value :: "string \<Rightarrow> nat" where
  "digits_value s = foldl (\<lambda>v c. 10 * v + (of_char c - 48)) 0 s"

text \<open>\<^verbatim>\<open>strconv.Atoi\<close>: an optional sign, digits, and a value that fits 64 bits.\<close>

definition Atoi :: "string \<Rightarrow> int option" where
  "Atoi s =
     (let neg = HasPrefix s ''-'';
          ds = (if neg \<or> HasPrefix s ''+'' then tl s else s);
          v = (if neg then - int (digits_value ds) else int (digits_value ds))
      in if ds = [] \<or> \<not> list_all is_digit ds then None
         else if v < - (2 ^ 63) \<or> v \<ge> 2 ^ 63 then None else Some v)"

lemma of_char_digit [simp]: "d < 10 \<Longrightarrow> (of_char (digit_char d) :: nat) = 48 + d"
  by (simp add: digit_char_def of_char_of)

lemma is_digit_char [simp]: "d < 10 \<Longrightarrow> is_digit (digit_char d)"
  by (simp add: is_digit_def)

lemma dec_nat_digits: "list_all is_digit (dec_nat n) \<and> dec_nat n \<noteq> []"
proof (induction n rule: dec_nat.induct)
  case (1 n)
  then show ?case by (subst (1 2) dec_nat.simps) simp
qed

lemma digits_value_dec_nat: "digits_value (dec_nat n) = n"
proof (induction n rule: dec_nat.induct)
  case (1 n)
  show ?case
  proof (cases "n < 10")
    case False
    then have "digits_value (dec_nat n) = 10 * digits_value (dec_nat (n div 10)) + n mod 10"
      by (subst dec_nat.simps) (simp add: digits_value_def)
    with 1 [OF False] show ?thesis by simp
  qed (subst dec_nat.simps, simp add: digits_value_def)
qed

lemma digit_plain:
  "c \<in> set (dec_nat n) \<Longrightarrow> is_digit c"
  using dec_nat_digits [of n] by (simp add: list_all_iff)

lemma dec_nat_no_sign: "\<not> HasPrefix (dec_nat n) ''-'' \<and> \<not> HasPrefix (dec_nat n) ''+''"
  using dec_nat_digits [of n] by (cases "dec_nat n") (auto simp: HasPrefix_def is_digit_def)

lemma Atoi_dec_nat: "n < 2 ^ 63 \<Longrightarrow> Atoi (dec_nat n) = Some (int n)"
  using dec_nat_digits [of n] dec_nat_no_sign [of n]
  by (simp add: Atoi_def Let_def digits_value_dec_nat)

section \<open>Case folding\<close>

definition lower :: "char \<Rightarrow> char" where
  "lower c = (let n = (of_char c :: nat) in if 65 \<le> n \<and> n \<le> 90 then char_of (n + 32) else c)"

definition is_ascii :: "string \<Rightarrow> bool" where
  "is_ascii = list_all (\<lambda>c. (of_char c :: nat) < 128)"

text \<open>
  \<^verbatim>\<open>strings.EqualFold\<close> of an ASCII string and any string. Besides the two cases of a
  letter, simple folding identifies an \<open>s\<close> with U+017F and a \<open>k\<close> with U+212A, whose
  encodings take two and three bytes.
\<close>

fun EqualFold :: "string \<Rightarrow> string \<Rightarrow> bool" where
  "EqualFold [] t = (t = [])"
| "EqualFold (c # cs) t =
     (if HasPrefix t [char_of (0xC5 :: nat), char_of (0xBF :: nat)]
      then lower c = CHR ''s'' \<and> EqualFold cs (drop 2 t)
      else if HasPrefix t [char_of (0xE2 :: nat), char_of (0x84 :: nat), char_of (0xAA :: nat)]
      then lower c = CHR ''k'' \<and> EqualFold cs (drop 3 t)
      else (case t of
              [] \<Rightarrow> False
            | d # ds \<Rightarrow> (of_char d :: nat) < 128 \<and> lower c = lower d \<and> EqualFold cs ds))"

lemma EqualFold_ascii:
  "is_ascii t \<Longrightarrow> EqualFold s t \<longleftrightarrow> map lower s = map lower t"
proof (induction s t rule: EqualFold.induct)
  case (2 c cs t)
  then have "\<not> HasPrefix t [char_of (0xC5 :: nat), char_of (0xBF :: nat)]"
    and "\<not> HasPrefix t [char_of (0xE2 :: nat), char_of (0x84 :: nat), char_of (0xAA :: nat)]"
    by (cases t; auto simp: HasPrefix_def is_ascii_def of_char_of)+
  with 2 show ?case by (cases t) (auto simp: is_ascii_def)
qed simp

end
