(* ===== verification/Cipher_Neg.thy ===== *)
theory Cipher_Neg
  imports Go_Strings
begin

text \<open>
  \<^verbatim>\<open>cipher.go\<close>: the names of the data-channel ciphers, the server's allow-list, what a
  client signals in its peer info and options string, and the choice between them.
\<close>

section \<open>Names\<close>

definition maxCipherNameLen :: nat where [govpn_consts]: "maxCipherNameLen = 63"

definition supportedDataCiphers :: "string list" where
  "supportedDataCiphers = [''AES-256-GCM'', ''AES-128-GCM'']"

datatype cipher_error =
  ErrConfigCipher string | ErrDataCiphersEntry string | ErrDataCiphersTwice string
| ErrCipherNegotiationFailed

definition cipher_name_byte :: "char \<Rightarrow> bool" where
  "cipher_name_byte c \<longleftrightarrow>
     (let n = (of_char c :: nat) in
      (65 \<le> n \<and> n \<le> 90) \<or> (97 \<le> n \<and> n \<le> 122) \<or> (48 \<le> n \<and> n \<le> 57) \<or> c = CHR ''-'')"

definition isCipherNameByteSet :: "string \<Rightarrow> bool" where
  "isCipherNameByteSet name = list_all cipher_name_byte name"

definition canonicalCipherName :: "string \<Rightarrow> string option" where
  "canonicalCipherName name =
     (if length name = 0 \<or> length name > maxCipherNameLen then None
      else if \<not> isCipherNameByteSet name then None
      else find (\<lambda>candidate. EqualFold candidate name) supportedDataCiphers)"

definition cipherKeyLen :: "string \<Rightarrow> int" where
  "cipherKeyLen name =
     (if name = ''AES-256-GCM'' then 32 else if name = ''AES-128-GCM'' then 16 else 0)"

section \<open>The server's allow-list\<close>

fun resolve_entries :: "string list \<Rightarrow> string list \<Rightarrow> cipher_error + string list" where
  "resolve_entries out [] = Inr out"
| "resolve_entries out (name # names) =
     (case canonicalCipherName name of
        None \<Rightarrow> Inl (ErrDataCiphersEntry name)
      | Some canonical \<Rightarrow>
          if canonical \<in> set out then Inl (ErrDataCiphersTwice canonical)
          else resolve_entries (out @ [canonical]) names)"

definition resolveDataCiphers :: "string list \<Rightarrow> string \<Rightarrow> cipher_error + string list" where
  "resolveDataCiphers dataCiphers cipher =
     (if length dataCiphers = 0 then
        if cipher = '''' then Inr supportedDataCiphers
        else (case canonicalCipherName cipher of
                None \<Rightarrow> Inl (ErrConfigCipher cipher)
              | Some canonical \<Rightarrow> Inr [canonical])
      else resolve_entries [] dataCiphers)"

section \<open>What the client signals\<close>

fun first_cut :: "string \<Rightarrow> string list \<Rightarrow> string option" where
  "first_cut key [] = None"
| "first_cut key (line # ls) =
     (case CutPrefix line key of Some rest \<Rightarrow> Some rest | None \<Rightarrow> first_cut key ls)"

definition newline :: char where "newline = char_of (10 :: nat)"

definition peerInfoValue :: "string \<Rightarrow> string \<Rightarrow> string option" where
  "peerInfoValue peerInfo key = first_cut key (str_split newline peerInfo)"

definition peerNCPVersion :: "string \<Rightarrow> int" where
  "peerNCPVersion peerInfo =
     (case peerInfoValue peerInfo ''IV_NCP='' of
        None \<Rightarrow> 0
      | Some value \<Rightarrow> (case Atoi (TrimSpace value) of None \<Rightarrow> 0 | Some n \<Rightarrow> n))"

definition peerSupportsNCP :: "string \<Rightarrow> bool" where
  "peerSupportsNCP peerInfo \<longleftrightarrow>
     peerNCPVersion peerInfo \<ge> 2 \<or> peerInfoValue peerInfo ''IV_CIPHERS='' \<noteq> None"

text \<open>A nil list and an empty one behave alike in every use, so both are \<open>[]\<close>.\<close>

definition peerCipherList :: "string \<Rightarrow> string list" where
  "peerCipherList peerInfo =
     (case peerInfoValue peerInfo ''IV_CIPHERS='' of
        Some value \<Rightarrow> if value = '''' then [] else str_split CHR '':'' value
      | None \<Rightarrow>
          if peerNCPVersion peerInfo \<ge> 2 then [''AES-256-GCM'', ''AES-128-GCM''] else [])"

fun occ_scan :: "string list \<Rightarrow> string" where
  "occ_scan [] = ''''"
| "occ_scan (token # tokens) =
     (if \<not> HasPrefix token ''cipher '' then occ_scan tokens
      else
        let value = drop (length ''cipher '') token
        in if value = '''' \<or> length value > maxCipherNameLen then '''' else value)"

definition parseOCCCipher :: "string \<Rightarrow> string" where
  "parseOCCCipher options = occ_scan (str_split CHR '','' options)"

section \<open>The choice\<close>

definition containsFold :: "string list \<Rightarrow> string \<Rightarrow> bool" where
  "containsFold xs s = list_ex (EqualFold s) xs"

fun selectCipher :: "string list \<Rightarrow> string list \<Rightarrow> string \<Rightarrow> cipher_error + string" where
  "selectCipher [] peerCiphers occCipher = Inl ErrCipherNegotiationFailed"
| "selectCipher (candidate # allowList) peerCiphers occCipher =
     (if containsFold peerCiphers candidate \<or> EqualFold candidate occCipher then Inr candidate
      else selectCipher allowList peerCiphers occCipher)"

definition serverKM2Options :: "string \<Rightarrow> string" where
  "serverKM2Options cipher =
     ''V4,dev-type tun,link-mtu 1541,tun-mtu 1500,proto UDPv4,cipher '' @ cipher
     @ '',auth SHA1,keysize '' @ dec_int (cipherKeyLen cipher * 8)
     @ '',key-method 2,tls-server''"

section \<open>Canonical names\<close>

lemma canonical_supported: "canonicalCipherName n = Some c \<Longrightarrow> c \<in> set supportedDataCiphers"
  by (auto simp: canonicalCipherName_def find_Some_iff in_set_conv_nth split: if_splits)

lemma canonical_exact:
  assumes "canonicalCipherName n = Some c"
  shows "map lower n = map lower c"
proof -
  have "is_ascii n"
    using assms
    by (auto simp: canonicalCipherName_def isCipherNameByteSet_def cipher_name_byte_def
        is_ascii_def list_all_iff Let_def split: if_splits)
  moreover have "EqualFold c n"
    using assms by (auto simp: canonicalCipherName_def find_Some_iff split: if_splits)
  ultimately show ?thesis by (simp add: EqualFold_ascii)
qed

lemma supported_keyLen: "c \<in> set supportedDataCiphers \<Longrightarrow> cipherKeyLen c = 16 \<or> cipherKeyLen c = 32"
  by (auto simp: supportedDataCiphers_def cipherKeyLen_def)

lemma resolve_entries_Inr:
  "resolve_entries out names = Inr res \<longleftrightarrow>
   (\<exists>cs. map canonicalCipherName names = map Some cs \<and> res = out @ cs \<and>
      distinct cs \<and> set cs \<inter> set out = {})"
proof (induction names arbitrary: out)
  case (Cons name names)
  show ?case
  proof (cases "canonicalCipherName name")
    case None
    then show ?thesis by (auto simp: Cons_eq_map_conv)
  next
    case (Some c)
    show ?thesis
    proof (cases "c \<in> set out")
      case True
      with Some show ?thesis by (auto simp: Cons_eq_map_conv)
    next
      case False
      with Some Cons.IH [of "out @ [c]"]
      have "resolve_entries out (name # names) = Inr res \<longleftrightarrow>
         (\<exists>cs. map canonicalCipherName names = map Some cs \<and> res = (out @ [c]) @ cs \<and>
            distinct cs \<and> set cs \<inter> set (out @ [c]) = {})"
        by simp
      with Some False show ?thesis by (auto simp: Cons_eq_map_conv)
    qed
  qed
qed auto

text \<open>
  A configured allow-list resolves to the canonical names of its entries in the
  configured order, and only if each is a known name up to ASCII case and no two name the
  same cipher; an empty configuration gives both ciphers or the deprecated single one. What
  it resolves to is never empty, and each entry has an AES key length the data channel
  accepts.
\<close>

theorem resolved_ciphers_usable:
  "(resolveDataCiphers names cipher = Inr allow \<longleftrightarrow>
     (if names = [] then allow = (if cipher = '''' then supportedDataCiphers
          else [the (canonicalCipherName cipher)]) \<and>
          (cipher = '''' \<or> canonicalCipherName cipher \<noteq> None)
      else map canonicalCipherName names = map Some allow \<and> distinct allow)) \<and>
   (resolveDataCiphers names cipher = Inr allow \<longrightarrow>
     allow \<noteq> [] \<and> distinct allow \<and> (\<forall>c\<in>set allow. cipherKeyLen c = 16 \<or> cipherKeyLen c = 32))"
  (is "(?resolved \<longleftrightarrow> ?spec) \<and> (?resolved \<longrightarrow> ?usable)")
proof
  show eq: "?resolved \<longleftrightarrow> ?spec"
    by (auto simp: resolveDataCiphers_def resolve_entries_Inr split: option.splits)
  show "?resolved \<longrightarrow> ?usable"
  proof
    assume ?resolved
    then have spec: ?spec using eq by blast
    have "distinct allow \<and> allow \<noteq> [] \<and> set allow \<subseteq> set supportedDataCiphers"
    proof (cases "names = []")
      case True
      with spec show ?thesis
        by (cases "cipher = []")
          (auto simp: supportedDataCiphers_def, auto dest!: canonical_supported simp: supportedDataCiphers_def)
    next
      case False
      with spec have m: "map canonicalCipherName names = map Some allow" and d: "distinct allow"
        by simp_all
      have "c \<in> set supportedDataCiphers" if "c \<in> set allow" for c
      proof -
        from that have "Some c \<in> set (map canonicalCipherName names)" by (simp add: m)
        then obtain x where "Some c = canonicalCipherName x" by auto
        then show ?thesis using canonical_supported [of x c] by simp
      qed
      with False m d show ?thesis by auto
    qed
    then show ?usable using supported_keyLen by blast
  qed
qed

theorem resolved_ciphers_usable_witness:
  "resolveDataCiphers [''aes-128-gcm'', ''AES-256-GCM''] '''' = Inr [''AES-128-GCM'', ''AES-256-GCM'']
   \<and> list_all (\<lambda>c. cipherKeyLen c = 16 \<or> cipherKeyLen c = 32) [''AES-128-GCM'', ''AES-256-GCM'']"
proof -
  have "resolveDataCiphers [''aes-128-gcm'', ''AES-256-GCM''] ''''
      = Inr [''AES-128-GCM'', ''AES-256-GCM'']"
    by code_simp
  with resolved_ciphers_usable show ?thesis unfolding list_all_iff by blast
qed

section \<open>The server's order decides\<close>

definition acceptable :: "string list \<Rightarrow> string \<Rightarrow> string \<Rightarrow> bool" where
  "acceptable peerCiphers occCipher c \<longleftrightarrow>
     (\<exists>p\<in>set peerCiphers. EqualFold c p) \<or> EqualFold c occCipher"

lemma selectCipher_find:
  "selectCipher allow peer occ =
     (case find (acceptable peer occ) allow of
        None \<Rightarrow> Inl ErrCipherNegotiationFailed | Some c \<Rightarrow> Inr c)"
  by (induction allow) (auto simp: acceptable_def containsFold_def list_ex_iff)

lemma selectCipher_Inr:
  "selectCipher allow peer occ = Inr c \<longleftrightarrow>
     (\<exists>xs ys. allow = xs @ c # ys \<and> acceptable peer occ c \<and>
        (\<forall>b\<in>set xs. \<not> acceptable peer occ b))"
proof
  assume "selectCipher allow peer occ = Inr c"
  then have "find (acceptable peer occ) allow = Some c"
    by (auto simp: selectCipher_find split: option.splits)
  then obtain i where i: "i < length allow" "acceptable peer occ c" "c = allow ! i"
    and first: "\<forall>j<i. \<not> acceptable peer occ (allow ! j)"
    by (auto simp: find_Some_iff)
  have "allow = take i allow @ c # drop (Suc i) allow"
    using i(1,3) by (simp add: id_take_nth_drop)
  moreover have "\<forall>b\<in>set (take i allow). \<not> acceptable peer occ b"
    using first i(1) by (auto simp: in_set_conv_nth)
  ultimately show "\<exists>xs ys. allow = xs @ c # ys \<and> acceptable peer occ c \<and>
        (\<forall>b\<in>set xs. \<not> acceptable peer occ b)"
    using i(2) by blast
next
  assume "\<exists>xs ys. allow = xs @ c # ys \<and> acceptable peer occ c \<and>
        (\<forall>b\<in>set xs. \<not> acceptable peer occ b)"
  then obtain xs ys where "allow = xs @ c # ys" "acceptable peer occ c"
      "\<forall>b\<in>set xs. \<not> acceptable peer occ b" by blast
  then show "selectCipher allow peer occ = Inr c"
    unfolding selectCipher_find by (induction xs arbitrary: allow) auto
qed

text \<open>
  C36. The server's order decides the cipher: the choice is the first entry of the allow-list
  that the client accepts, by its list or by its options string, and there is a choice
  whenever there is such an entry. The order and multiplicity of the client's own list have
  no influence.
\<close>

theorem server_order_decides:
  "(selectCipher allow peer occ = Inr c \<longleftrightarrow>
     (\<exists>xs ys. allow = xs @ c # ys \<and> acceptable peer occ c \<and>
        (\<forall>b\<in>set xs. \<not> acceptable peer occ b))) \<and>
   (selectCipher allow peer occ = Inl ErrCipherNegotiationFailed \<longleftrightarrow>
     (\<forall>b\<in>set allow. \<not> acceptable peer occ b)) \<and>
   (set peer = set peer' \<longrightarrow> selectCipher allow peer occ = selectCipher allow peer' occ)"
proof (intro conjI impI)
  show "selectCipher allow peer occ = Inl ErrCipherNegotiationFailed \<longleftrightarrow>
     (\<forall>b\<in>set allow. \<not> acceptable peer occ b)"
    using find_None_iff [of "acceptable peer occ" allow]
    by (auto simp: selectCipher_find split: option.splits)
  assume "set peer = set peer'"
  then have "acceptable peer occ = acceptable peer' occ"
    by (simp add: acceptable_def fun_eq_iff)
  then show "selectCipher allow peer occ = selectCipher allow peer' occ"
    by (simp add: selectCipher_find)
qed (rule selectCipher_Inr)

theorem server_order_decides_witness:
  "selectCipher supportedDataCiphers [''aes-128-gcm'', ''AES-256-GCM''] '''' = Inr ''AES-256-GCM'' \<and>
   selectCipher supportedDataCiphers [''AES-256-GCM'', ''aes-128-gcm'', ''AES-256-GCM''] ''''
     = Inr ''AES-256-GCM''"
proof -
  have "selectCipher supportedDataCiphers [''aes-128-gcm'', ''AES-256-GCM''] '''' = Inr ''AES-256-GCM''"
    by code_simp
  moreover
  have "set [''aes-128-gcm'', ''AES-256-GCM''] =
      set [''AES-256-GCM'', ''aes-128-gcm'', ''AES-256-GCM'']" by auto
  note conjunct2 [OF conjunct2 [OF server_order_decides [where allow = supportedDataCiphers
        and occ = "[]" and c = "[]"]], rule_format, OF this]
  ultimately show ?thesis by simp
qed

lemma server_options_text:
  "serverKM2Options ''AES-256-GCM'' = ''V4,dev-type tun,link-mtu 1541,tun-mtu 1500,proto UDPv4,cipher AES-256-GCM,auth SHA1,keysize 256,key-method 2,tls-server''"
  "serverKM2Options ''AES-128-GCM'' = ''V4,dev-type tun,link-mtu 1541,tun-mtu 1500,proto UDPv4,cipher AES-128-GCM,auth SHA1,keysize 128,key-method 2,tls-server''"
  by (simp_all add: serverKM2Options_def cipherKeyLen_def dec_int_def dec_nat.simps digit_char_def char_of_def bit_0)

text \<open>
  The options string the server announces names the negotiated cipher: read with the
  server's own option scanner it gives back exactly that name, together with the key size in
  bits, and it fits the 512 bytes of a Key Method 2 string with its terminator.
\<close>

theorem server_options_roundtrip:
  assumes "c \<in> set supportedDataCiphers"
  shows "parseOCCCipher (serverKM2Options c) = c \<and> length (serverKM2Options c) < 512 \<and>
    (''keysize '' @ dec_int (8 * cipherKeyLen c)) \<in> set (str_split CHR '','' (serverKM2Options c))"
proof -
  have "c = ''AES-256-GCM'' \<or> c = ''AES-128-GCM''"
    using assms by (simp add: supportedDataCiphers_def)
  moreover have "''keysize '' @ dec_int (8 * cipherKeyLen ''AES-256-GCM'') = ''keysize 256''"
    and "''keysize '' @ dec_int (8 * cipherKeyLen ''AES-128-GCM'') = ''keysize 128''"
    by (simp_all add: cipherKeyLen_def dec_int_def dec_nat.simps digit_char_def char_of_def bit_0)
  ultimately show ?thesis
    by (elim disjE)
      (simp_all add: server_options_text parseOCCCipher_def HasPrefix_def govpn_consts)
qed

theorem server_options_roundtrip_witness:
  "parseOCCCipher (serverKM2Options ''AES-128-GCM'') = ''AES-128-GCM''"
  using server_options_roundtrip [of "''AES-128-GCM''"] by (simp add: supportedDataCiphers_def)

end
