(* ===== verification/Push.thy ===== *)
theory Push
  imports Cipher_Neg Ip_Pool
begin

text \<open>
  \<^verbatim>\<open>push.go\<close>: the NUL-terminated control strings and the PUSH_REPLY the server sends. The
  buffered reader is the bytes still to come, as a string of bytes.
\<close>

section \<open>Control strings\<close>

definition maxControlStringLen :: nat where [govpn_consts]: "maxControlStringLen = 1024"

definition nul :: char where "nul = char_of (0 :: nat)"

datatype push_error = ErrReaderEOF | ErrControlStringTooLong | ErrPushWrite

fun read_control_loop :: "nat \<Rightarrow> string \<Rightarrow> string \<Rightarrow> push_error + string \<times> string" where
  "read_control_loop 0 buf r = Inl ErrControlStringTooLong"
| "read_control_loop (Suc k) buf [] = Inl ErrReaderEOF"
| "read_control_loop (Suc k) buf (b # r) =
     (if b = nul then Inr (buf, r) else read_control_loop k (buf @ [b]) r)"

text \<open>The loop runs while the buffer holds fewer than \<open>mx\<close> bytes and grows it in each round.\<close>

definition readControlString :: "string \<Rightarrow> nat \<Rightarrow> push_error + string \<times> string" where
  "readControlString r mx = read_control_loop mx [] r"

definition writeControlString :: "bool \<Rightarrow> string \<Rightarrow> string \<times> push_error option" where
  "writeControlString write_ok s = (if write_ok then (s @ [nul], None) else ([], Some ErrPushWrite))"

section \<open>The reply\<close>

text \<open>A \<^verbatim>\<open>time.Duration\<close> divided by a second, rounded towards zero as Go does.\<close>

definition durationToPushedSeconds :: "duration \<Rightarrow> int" where
  "durationToPushedSeconds d =
     (let ns = sint d;
          secs = (if ns < 0 then - ((- ns) div 10 ^ 9) else ns div 10 ^ 9)
      in if secs < 1 then 1 else secs)"

text \<open>
  \<^verbatim>\<open>net.IP.String\<close>: dotted decimals for an IPv4 address in either length; the text of an
  address without IPv4 form is the parameter \<open>other_text\<close>.
\<close>

definition ip_string :: "(net_ip \<Rightarrow> string) \<Rightarrow> net_ip \<Rightarrow> string" where
  "ip_string other_text ip =
     (case To4 ip of
        None \<Rightarrow> other_text ip
      | Some ip4 \<Rightarrow> str_join CHR ''.'' (map (\<lambda>b. dec_nat (unat b)) ip4))"

definition push_options ::
  "(net_ip \<Rightarrow> string) \<Rightarrow> net_ip \<Rightarrow> ip_net \<Rightarrow> u32 \<Rightarrow> string \<Rightarrow> bool \<Rightarrow> int \<Rightarrow> int \<Rightarrow> string list" where
  "push_options other_text clientIP network peerID cipher supportsNCP pingSeconds pingRestartSeconds =
     (let netmask = ip_string other_text (normalizeIPv4Mask (net_Mask network)) in
      [''PUSH_REPLY'',
       ''ifconfig '' @ ip_string other_text clientIP @ '' '' @ netmask,
       ''topology subnet'',
       ''peer-id '' @ dec_nat (unat peerID)]
      @ (if supportsNCP then [''cipher '' @ cipher] else [])
      @ [''ping '' @ dec_int pingSeconds, ''ping-restart '' @ dec_int pingRestartSeconds])"

definition buildPushReply ::
  "(net_ip \<Rightarrow> string) \<Rightarrow> net_ip \<Rightarrow> ip_net \<Rightarrow> u32 \<Rightarrow> string \<Rightarrow> bool \<Rightarrow> int \<Rightarrow> int \<Rightarrow> string" where
  "buildPushReply other_text clientIP network peerID cipher supportsNCP pingSeconds
     pingRestartSeconds =
     str_join CHR '','' (push_options other_text clientIP network peerID cipher supportsNCP
       pingSeconds pingRestartSeconds) @ [nul]"

section \<open>Reading what was written\<close>

lemma read_control_loop_Inr:
  "read_control_loop k buf r = Inr (out, r') \<longleftrightarrow>
   (\<exists>s. out = buf @ s \<and> nul \<notin> set s \<and> length s < k \<and> r = s @ nul # r')"
proof (induction k buf r rule: read_control_loop.induct)
  case (3 k buf b r)
  show ?case
  proof (cases "b = nul")
    case True
    then show ?thesis by (auto simp: Cons_eq_append_conv)
  next
    case False
    then have "read_control_loop (Suc k) buf (b # r) = Inr (out, r') \<longleftrightarrow>
      (\<exists>s. out = (buf @ [b]) @ s \<and> nul \<notin> set s \<and> length s < k \<and> r = s @ nul # r')"
      using 3 by simp
    also have "\<dots> \<longleftrightarrow>
      (\<exists>s. out = buf @ s \<and> nul \<notin> set s \<and> length s < Suc k \<and> b # r = s @ nul # r')"
      using False by (force simp: Cons_eq_append_conv)
    finally show ?thesis .
  qed
qed simp_all

text \<open>
  A control string is accepted exactly when its terminator is among the first \<open>mx\<close> bytes;
  it is then the bytes before the terminator, what follows is left for the next read, and so
  what one side writes the other reads back.
\<close>

theorem control_string_framing:
  "(readControlString r mx = Inr (s, r') \<longleftrightarrow>
     nul \<notin> set s \<and> length s < mx \<and> r = s @ nul # r') \<and>
   (nul \<notin> set t \<and> length t < mx \<longrightarrow>
     readControlString (fst (writeControlString True t) @ r') mx = Inr (t, r'))"
  unfolding readControlString_def read_control_loop_Inr by (simp add: writeControlString_def)

theorem control_string_framing_witness:
  "readControlString (fst (writeControlString True ''PUSH_REQUEST'') @ ''rest'') 1024
   = Inr (''PUSH_REQUEST'', ''rest'')"
  using control_string_framing [where t = "''PUSH_REQUEST''" and mx = 1024 and r' = "''rest''"]
  by (simp add: nul_def char_of_def)

section \<open>The reply's options\<close>

definition plain :: "string \<Rightarrow> bool" where
  "plain s \<longleftrightarrow> CHR '','' \<notin> set s \<and> nul \<notin> set s"

lemma plain_append [simp]: "plain (a @ b) \<longleftrightarrow> plain a \<and> plain b"
  by (auto simp: plain_def)

lemma plain_Cons [simp]: "plain (c # s) \<longleftrightarrow> c \<noteq> CHR '','' \<and> c \<noteq> CHR 0x00 \<and> plain s"
  by (auto simp: plain_def nul_def char_of_def)

lemma plain_Nil [simp]: "plain []"
  by (simp add: plain_def)

lemma digit_not_plain_sep: "is_digit c \<Longrightarrow> c \<noteq> CHR '','' \<and> c \<noteq> nul"
  by (auto simp: is_digit_def nul_def of_char_of)

lemma plain_dec_nat [simp]: "plain (dec_nat n)"
  using digit_plain digit_not_plain_sep unfolding plain_def by blast

lemma plain_dec_int [simp]: "plain (dec_int i)"
  using plain_dec_nat by (auto simp: dec_int_def plain_def nul_def char_of_def)

lemma plain_dotted: "To4 ip = Some ip4 \<Longrightarrow> plain (ip_string other ip)"
proof -
  assume "To4 ip = Some ip4"
  moreover have "set (str_join CHR ''.'' (map (\<lambda>b. dec_nat (unat b)) ip4)) \<subseteq>
      insert CHR ''.'' (\<Union>t\<in>set (map (\<lambda>b. dec_nat (unat b)) ip4). set t)"
    by (rule set_str_join)
  moreover have "plain (dec_nat (unat b))" for b :: u8 by simp
  ultimately show ?thesis
    by (fastforce simp: ip_string_def plain_def nul_def char_of_def)
qed

text \<open>
  The reply says what was negotiated: for a client with an IPv4 address in a network with
  an IPv4 mask it is one control string, whose comma-separated options are the command, the
  address and mask, the topology, the peer id, the cipher exactly when the client supports
  negotiation, and the two keepalive values; the peer id and the keepalive values read back
  as the numbers they were built from.
\<close>

theorem push_reply_content:
  assumes "To4 clientIP = Some ip4" and "To4 (normalizeIPv4Mask (net_Mask network)) = Some m4"
    and "cipher \<in> set supportedDataCiphers"
    and "0 \<le> ping" "ping < 2 ^ 63" "0 \<le> restart" "restart < 2 ^ 63"
    and "reply = buildPushReply other clientIP network peerID cipher ncp ping restart"
    and "length reply \<le> maxControlStringLen"
  shows "\<exists>text. readControlString reply maxControlStringLen = Inr (text, []) \<and>
    str_split CHR '','' text =
      [''PUSH_REPLY'', ''ifconfig '' @ ip_string other clientIP @ '' ''
         @ ip_string other (normalizeIPv4Mask (net_Mask network)),
       ''topology subnet'', ''peer-id '' @ dec_nat (unat peerID)]
      @ (if ncp then [''cipher '' @ cipher] else [])
      @ [''ping '' @ dec_nat (nat ping), ''ping-restart '' @ dec_nat (nat restart)] \<and>
    Atoi (dec_nat (unat peerID)) = Some (int (unat peerID)) \<and>
    Atoi (dec_nat (nat ping)) = Some ping \<and> Atoi (dec_nat (nat restart)) = Some restart"
proof -
  let ?opts = "push_options other clientIP network peerID cipher ncp ping restart"
  let ?text = "str_join CHR '','' ?opts"
  have reply: "reply = ?text @ [nul]" using assms(8) by (simp add: buildPushReply_def)
  have "plain cipher" using assms(3)
    by (auto simp: supportedDataCiphers_def plain_def nul_def char_of_def)
  then have opts: "\<forall>t\<in>set ?opts. plain t"
    using plain_dotted [OF assms(1)] plain_dotted [OF assms(2)]
    by (simp add: push_options_def Let_def)
  then have "nul \<notin> set ?text"
    using set_str_join [of "CHR '',''" ?opts] by (fastforce simp: plain_def nul_def char_of_def)
  with assms(9) have "readControlString reply maxControlStringLen = Inr (?text, [])"
    unfolding reply readControlString_def read_control_loop_Inr by simp
  moreover have "str_split CHR '','' ?text = ?opts"
    using opts by (intro str_split_join) (auto simp: push_options_def Let_def plain_def)
  moreover have "dec_int ping = dec_nat (nat ping)" "dec_int restart = dec_nat (nat restart)"
    using assms(4,6) by (simp_all add: dec_int_def)
  moreover have "unat peerID < 2 ^ 63" using unat_u32_less [of peerID] by simp
  ultimately show ?thesis
    using assms(4-7) by (simp add: Atoi_dec_nat push_options_def Let_def nat_less_iff)
qed

definition demo_reply :: string where
  "demo_reply = buildPushReply (\<lambda>_. ''?'') [10, 8, 0, 2]
     \<lparr>net_IP = [10, 8, 0, 0], net_Mask = [255, 255, 255, 0]\<rparr> 3 ''AES-256-GCM'' True 10 60"

theorem push_reply_content_witness:
  "\<exists>text. readControlString demo_reply 1024 = Inr (text, []) \<and>
     length (str_split CHR '','' text) = 7"
proof -
  let ?net = "\<lparr>net_IP = [10, 8, 0, 0], net_Mask = [255, 255, 255, 0]\<rparr>"
  have "length demo_reply \<le> maxControlStringLen"
    by (simp add: demo_reply_def buildPushReply_def push_options_def Let_def ip_string_def To4_def
        normalizeIPv4Mask_def dec_nat.simps dec_int_def govpn_consts)
  then show ?thesis
    using push_reply_content [of "[10, 8, 0, 2]" "[10, 8, 0, 2]" ?net "[255, 255, 255, 0]"
        "''AES-256-GCM''" 10 60 demo_reply "\<lambda>_. ''?''" 3 True]
    by (auto simp: To4_def normalizeIPv4Mask_def supportedDataCiphers_def demo_reply_def
        govpn_consts)
qed

end
