(* ===== verification/Ctrl_Conn.thy ===== *)
theory Ctrl_Conn
  imports Wire Reliable Tls_Crypt
begin

text \<open>
  \<^verbatim>\<open>internal/ctrlconn\<close>: one client's control channel as a byte stream over the send and
  receive windows, the pending acknowledgements and the session's tls-crypt wrapper. The
  wrapper belongs to the session and outlives a connection, so the operations that send take
  it and return it. A call that would block is a value of its own (\<open>SlotBlocked\<close>,
  \<open>ReadBlocked\<close>); the polling loops then try again later with a later clock. The
  transport's answer to a write is an argument, and what was handed to it is returned.
\<close>

unbundle bit_operations_syntax

section \<open>The connection\<close>

definition MaxPayload :: nat where [govpn_consts]: "MaxPayload = 1150"

text \<open>A zero \<^verbatim>\<open>time.Time\<close>, the absent deadline, is the instant 0.\<close>

record ctrl_conn =
  cc_localSID :: bytes
  cc_remoteSID :: bytes
  cc_keyID :: u8
  cc_sendRel :: reliable
  cc_recvRel :: reliable
  cc_acks :: ack_set
  cc_readBuf :: bytes
  cc_closed :: bool
  cc_readDeadline :: instant
  cc_writeDeadline :: instant

definition NewWithKeyID :: "bytes \<Rightarrow> bytes \<Rightarrow> u8 \<Rightarrow> ctrl_conn option" where
  "NewWithKeyID localSID remoteSID keyID =
     (case (New_reliable (int NSendBuffers), New_reliable (int NRecBuffers)) of
        (Some s, Some r) \<Rightarrow>
          Some \<lparr>cc_localSID = localSID, cc_remoteSID = remoteSID, cc_keyID = keyID,
                cc_sendRel = s, cc_recvRel = r, cc_acks = [], cc_readBuf = [],
                cc_closed = False, cc_readDeadline = 0, cc_writeDeadline = 0\<rparr>
      | _ \<Rightarrow> None)"

section \<open>Receiving\<close>

text \<open>Each round of the drain loop of \<^verbatim>\<open>absorb\<close> empties one slot of the window.\<close>

lemma Get_frees_slot:
  assumes "Get r = (r', Some p)"
  shows "length (active_ids r') < length (active_ids r)"
proof -
  obtain i where f: "find_index (\<lambda>e. e_active e \<and> e_packetID e = r_packetID r) (window r) = Some i"
    and r': "r' = (set_entry i ((r_entries r ! i)\<lparr>e_active := False\<rparr>) r)\<lparr>r_packetID :=
        e_packetID (r_entries r ! i) + 1\<rparr>"
    using assms by (auto simp: Get_def Let_def split: option.splits)
  from find_index_SomeD [OF f] have i: "i < length (window r)" and act: "e_active (window r ! i)"
    by simp_all
  then have size: "i < r_size r" by (simp add: window_def)
  let ?w = "window r" and ?e = "(r_entries r ! i)\<lparr>e_active := False\<rparr>"
  have split: "?w = take i ?w @ ?w ! i # drop (Suc i) ?w"
    using i by (simp add: id_take_nth_drop)
  have "window r' = take i ?w @ ?e # drop (Suc i) ?w"
    unfolding r' using size i by (simp add: upd_conv_take_nth_drop)
  then have "length (active_ids r') =
      length (filter e_active (take i ?w)) + length (filter e_active (drop (Suc i) ?w))"
    by (simp add: active_ids_def)
  also have "\<dots> < length (filter e_active ?w)"
    using act by (subst (3) split) simp
  finally show ?thesis by (simp add: active_ids_def)
qed

function drain_in_order :: "reliable \<Rightarrow> bytes \<Rightarrow> reliable \<times> bytes" where
  "drain_in_order r buf =
     (case Get r of
        (r', None) \<Rightarrow> (r', buf)
      | (r', Some payload) \<Rightarrow>
          drain_in_order r' (if length payload > 0 then buf @ payload else buf))"
  by auto
termination
  by (relation "measure (\<lambda>(r, _). length (active_ids r))") (auto intro: Get_frees_slot [OF sym])

declare drain_in_order.simps [simp del]

lemma drain_in_order_if [code]:
  "drain_in_order r buf =
     (if snd (Get r) = None then (fst (Get r), buf)
      else drain_in_order (fst (Get r)) (buf @ the (snd (Get r))))"
  by (subst drain_in_order.simps) (simp split: prod.split option.split)

definition absorb :: "ctrl_conn \<Rightarrow> control_packet \<Rightarrow> ctrl_conn" where
  "absorb c cp =
     (let c = c\<lparr>cc_sendRel := Ack (cc_sendRel c) (cp_acks cp)\<rparr>;
          drain = (\<lambda>c. case drain_in_order (cc_recvRel c) (cc_readBuf c) of
                     (r, buf) \<Rightarrow> c\<lparr>cc_recvRel := r, cc_readBuf := buf\<rparr>)
      in if cp_opcode cp \<noteq> OpAckV1 then
           (case Put (cc_recvRel c) (cp_packetID cp) (cp_payload cp) of
              (r, PutRejected) \<Rightarrow> c\<lparr>cc_recvRel := r\<rparr>
            | (r, _) \<Rightarrow>
                drain (c\<lparr>cc_recvRel := r, cc_acks := ack_add (cc_acks c) (cp_packetID cp)\<rparr>))
         else drain c)"

datatype read_result = ReadBytes bytes | ReadEOF | ReadTimeout | ReadBlocked

definition Conn_Read :: "ctrl_conn \<Rightarrow> nat \<Rightarrow> instant \<Rightarrow> ctrl_conn \<times> read_result" where
  "Conn_Read c n now =
     (if cc_readBuf c = [] then
        if cc_closed c then (c, ReadEOF)
        else if cc_readDeadline c \<noteq> 0 \<and> \<not> now < cc_readDeadline c then (c, ReadTimeout)
        else (c, ReadBlocked)
      else (c\<lparr>cc_readBuf := drop n (cc_readBuf c)\<rparr>, ReadBytes (take n (cc_readBuf c))))"

section \<open>Sending\<close>

datatype conn_error = ConnClosedPipe | ConnTimeout | ConnWrap tls_error | ConnTransport

datatype slot_result = SlotFree nat | SlotClosed | SlotTimeout | SlotBlocked

definition waitForSendSlot :: "ctrl_conn \<Rightarrow> instant \<Rightarrow> slot_result" where
  "waitForSendSlot c now =
     (case Next (cc_sendRel c) of
        Some idx \<Rightarrow> SlotFree idx
      | None \<Rightarrow>
          if cc_closed c then SlotClosed
          else if cc_writeDeadline c \<noteq> 0 \<and> \<not> now < cc_writeDeadline c then SlotTimeout
          else SlotBlocked)"

text \<open>The two clock readings of \<^verbatim>\<open>Wrap\<close>, in seconds.\<close>

type_synonym wrap_clock = "int \<times> int"

definition buildControlPacket ::
  "hash_fn \<Rightarrow> ctr_fn \<Rightarrow> wrap_clock \<Rightarrow> tls_wrapper \<Rightarrow> ctrl_conn \<Rightarrow> u8 \<Rightarrow> u32 \<Rightarrow> bytes
   \<Rightarrow> tls_wrapper \<times> ctrl_conn \<times> (tls_error + bytes)" where
  "buildControlPacket sha256 aes_ctr clk w c opcode pid payload =
     (let (acks', drained) = ack_drain (cc_acks c);
          cp = \<lparr>cp_opcode = opcode, cp_keyID = cc_keyID c, cp_sessionID = cc_localSID c,
                cp_acks = drained, cp_remoteSessionID = cc_remoteSID c, cp_packetID = pid,
                cp_payload = payload\<rparr>;
          plaintext = AppendPlaintext cp [];
          header = AppendHeaderByte [] opcode (cc_keyID c) @ cc_localSID c;
          (w', res) = Wrap sha256 aes_ctr w [] header plaintext (fst clk) (snd clk)
      in (w', c\<lparr>cc_acks := acks'\<rparr>, res))"

definition flushAckOnly ::
  "hash_fn \<Rightarrow> ctr_fn \<Rightarrow> wrap_clock \<Rightarrow> tls_wrapper \<Rightarrow> ctrl_conn
   \<Rightarrow> tls_wrapper \<times> ctrl_conn \<times> bytes list" where
  "flushAckOnly sha256 aes_ctr clk w c =
     (if \<not> ack_peek (cc_acks c) then (w, c, [])
      else case buildControlPacket sha256 aes_ctr clk w c OpAckV1 0 [] of
        (w', c', Inl e) \<Rightarrow> (w', c', [])
      | (w', c', Inr b) \<Rightarrow> (w', c', [b]))"

definition Deliver ::
  "hash_fn \<Rightarrow> ctr_fn \<Rightarrow> wrap_clock \<Rightarrow> tls_wrapper \<Rightarrow> ctrl_conn \<Rightarrow> control_packet
   \<Rightarrow> tls_wrapper \<times> ctrl_conn \<times> bytes list" where
  "Deliver sha256 aes_ctr clk w c cp = flushAckOnly sha256 aes_ctr clk w (absorb c cp)"

datatype 'a send_result = Sent 'a | SendFailed conn_error | SendBlocked

definition writeChunk ::
  "hash_fn \<Rightarrow> ctr_fn \<Rightarrow> wrap_clock \<Rightarrow> instant \<Rightarrow> bool \<Rightarrow> tls_wrapper \<Rightarrow> ctrl_conn \<Rightarrow> u8 \<Rightarrow> bytes
   \<Rightarrow> tls_wrapper \<times> ctrl_conn \<times> bytes list \<times> unit send_result" where
  "writeChunk sha256 aes_ctr clk now tx_ok w c opcode payload =
     (case waitForSendSlot c now of
        SlotClosed \<Rightarrow> (w, c, [], SendFailed ConnClosedPipe)
      | SlotTimeout \<Rightarrow> (w, c, [], SendFailed ConnTimeout)
      | SlotBlocked \<Rightarrow> (w, c, [], SendBlocked)
      | SlotFree idx \<Rightarrow>
          let (rel, pid) = MarkActive (cc_sendRel c) idx;
              c = c\<lparr>cc_sendRel := rel\<rparr>
          in case buildControlPacket sha256 aes_ctr clk w c opcode pid payload of
               (w', c', Inl e) \<Rightarrow> (w', c', [], SendFailed (ConnWrap e))
             | (w', c', Inr b) \<Rightarrow>
                 (w', c'\<lparr>cc_sendRel := SetPayload (cc_sendRel c') idx b\<rparr>, [b],
                  if tx_ok then Sent () else SendFailed ConnTransport))"

definition DeliverAndRespond ::
  "hash_fn \<Rightarrow> ctr_fn \<Rightarrow> wrap_clock \<Rightarrow> instant \<Rightarrow> bool \<Rightarrow> tls_wrapper \<Rightarrow> ctrl_conn
   \<Rightarrow> control_packet \<Rightarrow> u8 \<Rightarrow> bytes \<Rightarrow> tls_wrapper \<times> ctrl_conn \<times> bytes list \<times> unit send_result" where
  "DeliverAndRespond sha256 aes_ctr clk now tx_ok w c cp opcode payload =
     writeChunk sha256 aes_ctr clk now tx_ok w (absorb c cp) opcode payload"

definition SendReset ::
  "hash_fn \<Rightarrow> ctr_fn \<Rightarrow> wrap_clock \<Rightarrow> instant \<Rightarrow> bool \<Rightarrow> tls_wrapper \<Rightarrow> ctrl_conn \<Rightarrow> u8
   \<Rightarrow> tls_wrapper \<times> ctrl_conn \<times> bytes list \<times> unit send_result" where
  "SendReset sha256 aes_ctr clk now tx_ok w c opcode =
     writeChunk sha256 aes_ctr clk now tx_ok w c opcode []"

text \<open>
  \<^verbatim>\<open>Write\<close>: \<open>env k\<close> is what the \<open>k\<close>-th chunk meets (the clock readings and the
  transport's answer). It returns the number of bytes written so far; a blocked call has
  sent that many and goes on with the rest when it polls again.
\<close>

function Conn_Write ::
  "hash_fn \<Rightarrow> ctr_fn \<Rightarrow> (nat \<Rightarrow> wrap_clock \<times> instant \<times> bool) \<Rightarrow> nat \<Rightarrow> tls_wrapper \<Rightarrow> ctrl_conn
   \<Rightarrow> bytes \<Rightarrow> nat \<Rightarrow> bytes list \<Rightarrow> tls_wrapper \<times> ctrl_conn \<times> bytes list \<times> nat \<times> unit send_result"
where
  "Conn_Write sha256 aes_ctr env k w c p written out =
     (if p = [] then (w, c, out, written, Sent ())
      else
        let chunk = (if length p > MaxPayload then take MaxPayload p else p);
            (clk, now, tx_ok) = env k
        in case writeChunk sha256 aes_ctr clk now tx_ok w c OpControlV1 chunk of
             (w', c', bs, Sent _) \<Rightarrow>
               Conn_Write sha256 aes_ctr env (Suc k) w' c' (drop (length chunk) p)
                 (written + length chunk) (out @ bs)
           | (w', c', bs, SendFailed e) \<Rightarrow> (w', c', out @ bs, written, SendFailed e)
           | (w', c', bs, SendBlocked) \<Rightarrow> (w', c', out @ bs, written, SendBlocked))"
  by auto
termination
  by (relation "measure (\<lambda>(_, _, _, _, _, _, p, _, _). length p)")
    (auto simp: govpn_consts split: if_splits)

declare Conn_Write.simps [simp del]

section \<open>Retransmission, draining, closing\<close>

text \<open>
  One tick of \<^verbatim>\<open>retransmitLoop\<close>: \<open>readings\<close> are the clock readings of the rounds it makes;
  the tick is over when nothing is due. \<open>None\<close> means that it was not over after as many
  rounds as there are readings.
\<close>

fun retransmit_tick :: "ctrl_conn \<Rightarrow> instant list \<Rightarrow> bytes list \<Rightarrow> (ctrl_conn \<times> bytes list) option"
where
  "retransmit_tick c [] out = None"
| "retransmit_tick c (now # readings) out =
     (case Due (cc_sendRel c) now of
        (rel, None) \<Rightarrow> Some (c\<lparr>cc_sendRel := rel\<rparr>, out)
      | (rel, Some (payload, pid)) \<Rightarrow>
          retransmit_tick (c\<lparr>cc_sendRel := rel\<rparr>) readings (out @ [payload]))"

datatype drain_result = Drained | NotDrained | DrainBlocked

definition WaitDrained :: "ctrl_conn \<Rightarrow> instant \<Rightarrow> instant \<Rightarrow> drain_result" where
  "WaitDrained c deadline now =
     (if Empty (cc_sendRel c) then Drained
      else if cc_closed c then NotDrained
      else if \<not> now < deadline then NotDrained
      else DrainBlocked)"

definition Conn_Close :: "ctrl_conn \<Rightarrow> ctrl_conn" where
  "Conn_Close c = c\<lparr>cc_closed := True\<rparr>"

definition SetDeadline :: "ctrl_conn \<Rightarrow> instant \<Rightarrow> ctrl_conn" where
  "SetDeadline c t = c\<lparr>cc_readDeadline := t, cc_writeDeadline := t\<rparr>"

definition SetReadDeadline :: "ctrl_conn \<Rightarrow> instant \<Rightarrow> ctrl_conn" where
  "SetReadDeadline c t = c\<lparr>cc_readDeadline := t\<rparr>"

definition SetWriteDeadline :: "ctrl_conn \<Rightarrow> instant \<Rightarrow> ctrl_conn" where
  "SetWriteDeadline c t = c\<lparr>cc_writeDeadline := t\<rparr>"

section \<open>The stream a connection delivers\<close>

datatype conn_event = CAbsorb control_packet | CRead nat instant

fun conn_run :: "ctrl_conn \<Rightarrow> conn_event list \<Rightarrow> bytes \<Rightarrow> ctrl_conn \<times> bytes" where
  "conn_run c [] got = (c, got)"
| "conn_run c (CAbsorb cp # evs) got = conn_run (absorb c cp) evs got"
| "conn_run c (CRead n now # evs) got =
     (case Conn_Read c n now of
        (c', ReadBytes b) \<Rightarrow> conn_run c' evs (got @ b)
      | (c', _) \<Rightarrow> conn_run c' evs got)"

lemma rx_run_append:
  "rx_run put get s (xs @ ys) =
     (case rx_run put get s xs of (s', out) \<Rightarrow>
        (case rx_run put get s' ys of (s'', out') \<Rightarrow> (s'', out @ out')))"
  by (induction put get s xs rule: rx_run.induct) (auto split: prod.splits option.splits)

lemma drain_in_order_rx:
  "\<exists>n out. rx_run Put Get r (replicate n RxGet) = (fst (drain_in_order r buf), out) \<and>
     snd (drain_in_order r buf) = buf @ concat out"
proof (induction r buf rule: drain_in_order.induct)
  case (1 r buf)
  show ?case
  proof (cases "Get r")
    case (Pair r' x)
    show ?thesis
    proof (cases x)
      case None
      have "rx_run Put Get r (replicate 0 RxGet) = (r, [])" by simp
      moreover have "r' = r" using Pair None by (auto simp: Get_def Let_def split: option.splits)
      ultimately show ?thesis
        using Pair None by (subst (1 2) drain_in_order.simps) (metis (no_types, lifting) append_Nil2
            case_prod_conv concat.simps(1) fst_conv option.case(1) snd_conv)
    next
      case (Some p)
      have step: "drain_in_order r buf =
          drain_in_order r' (if length p > 0 then buf @ p else buf)"
        using Pair Some by (subst drain_in_order.simps) simp
      obtain n out where n: "rx_run Put Get r' (replicate n RxGet) =
          (fst (drain_in_order r buf), out)"
        and b: "snd (drain_in_order r buf) = buf @ p @ concat out"
        using "1.IH" [OF Pair [symmetric] Some] unfolding step by (auto split: if_splits)
      have "rx_run Put Get r (replicate (Suc n) RxGet) =
          (fst (drain_in_order r buf), p # out)"
        using n Pair Some by simp
      with b show ?thesis by (metis concat.simps(2))
    qed
  qed
qed

text \<open>The stored payloads are those of the given packets.\<close>

definition puts_from :: "control_packet set \<Rightarrow> rx_event list \<Rightarrow> bool" where
  "puts_from cps evs \<longleftrightarrow>
     (\<forall>pid p. RxPut pid p \<in> set evs \<longrightarrow>
        (\<exists>cp\<in>cps. cp_opcode cp \<noteq> OpAckV1 \<and> pid = cp_packetID cp \<and> p = cp_payload cp))"

lemma puts_from_append:
  "puts_from A xs \<Longrightarrow> puts_from B ys \<Longrightarrow> A \<union> B \<subseteq> C \<Longrightarrow> puts_from C (xs @ ys)"
  by (simp add: puts_from_def) blast

text \<open>Absorbing a packet is a put (unless it only acknowledges) followed by gets.\<close>

lemma absorb_rx:
  "\<exists>evs out. rx_run Put Get (cc_recvRel c) evs = (cc_recvRel (absorb c cp), out) \<and>
     cc_readBuf (absorb c cp) = cc_readBuf c @ concat out \<and>
     puts_from {cp} evs"
proof -
  obtain r res where put: "Put (cc_recvRel c) (cp_packetID cp) (cp_payload cp) = (r, res)"
    by (cases "Put (cc_recvRel c) (cp_packetID cp) (cp_payload cp)")
  have gets: "\<exists>n out. rx_run Put Get q (replicate n RxGet) = (fst (drain_in_order q buf), out) \<and>
      snd (drain_in_order q buf) = buf @ concat out" for q buf
    by (rule drain_in_order_rx)
  have agree: "puts_from {cp} (replicate n RxGet)" for n
    by (auto simp: puts_from_def)
  show ?thesis
  proof (cases "cp_opcode cp = OpAckV1")
    case True
    with gets [of "cc_recvRel c" "cc_readBuf c"] agree show ?thesis
      by (force simp: absorb_def Let_def split_def)
  next
    case False
    show ?thesis
    proof (cases "res = PutRejected")
      case True
      have "rx_run Put Get (cc_recvRel c) [RxPut (cp_packetID cp) (cp_payload cp)] = (r, [])"
        using put by simp
      with True False put show ?thesis
        by (intro exI [of _ "[RxPut (cp_packetID cp) (cp_payload cp)]"] exI [of _ "[]"])
          (auto simp: absorb_def Let_def puts_from_def)
    next
      case acc: False
      obtain n out where n: "rx_run Put Get r (replicate n RxGet) =
          (fst (drain_in_order r (cc_readBuf c)), out)"
        and b: "snd (drain_in_order r (cc_readBuf c)) = cc_readBuf c @ concat out"
        using gets [of r "cc_readBuf c"] by blast
      have "cc_recvRel (absorb c cp) = fst (drain_in_order r (cc_readBuf c)) \<and>
          cc_readBuf (absorb c cp) = snd (drain_in_order r (cc_readBuf c))"
        using put False acc by (cases res) (simp_all add: absorb_def Let_def split_def)
      with n b put False show ?thesis
        by (intro exI [of _ "RxPut (cp_packetID cp) (cp_payload cp) # replicate n RxGet"]
            exI [of _ out]) (auto simp: puts_from_def)
    qed
  qed
qed

definition absorbed :: "conn_event list \<Rightarrow> control_packet set" where
  "absorbed evs = {cp. CAbsorb cp \<in> set evs}"

definition events_agree :: "(u32 \<Rightarrow> bytes) \<Rightarrow> conn_event list \<Rightarrow> bool" where
  "events_agree f evs \<longleftrightarrow>
     (\<forall>cp\<in>absorbed evs. cp_opcode cp \<noteq> OpAckV1 \<longrightarrow> cp_payload cp = f (cp_packetID cp))"

lemma conn_run_rx:
  assumes "conn_run c evs got = (c', got')"
  shows "\<exists>rxs out. rx_run Put Get (cc_recvRel c) rxs = (cc_recvRel c', out) \<and>
    puts_from (absorbed evs) rxs \<and> got' @ cc_readBuf c' = got @ cc_readBuf c @ concat out"
  using assms
proof (induction c evs got rule: conn_run.induct)
  case (1 c got)
  then show ?case by (intro exI [of _ "[]"]) (simp add: puts_from_def)
next
  case (2 c cp evs got)
  obtain r1 o1 where a: "rx_run Put Get (cc_recvRel c) r1 = (cc_recvRel (absorb c cp), o1)"
    "cc_readBuf (absorb c cp) = cc_readBuf c @ concat o1" "puts_from {cp} r1"
    using absorb_rx [of c cp] by blast
  obtain r2 o2 where b: "rx_run Put Get (cc_recvRel (absorb c cp)) r2 = (cc_recvRel c', o2)"
    "puts_from (absorbed evs) r2" "got' @ cc_readBuf c' = got @ cc_readBuf (absorb c cp) @ concat o2"
    using "2.IH" "2.prems" by auto
  have "puts_from (absorbed (CAbsorb cp # evs)) (r1 @ r2)"
    by (rule puts_from_append [OF a(3) b(2)]) (auto simp: absorbed_def)
  with a b show ?case
    by (intro exI [of _ "r1 @ r2"] exI [of _ "o1 @ o2"]) (simp add: rx_run_append)
next
  case (3 c n now evs got)
  have same: "absorbed (CRead n now # evs) = absorbed evs" by (simp add: absorbed_def)
  show ?case
  proof (cases "cc_readBuf c = []")
    case True
    then have "fst (Conn_Read c n now) = c" and "\<nexists>b. snd (Conn_Read c n now) = ReadBytes b"
      by (auto simp: Conn_Read_def)
    with 3 show ?thesis unfolding same
      by (cases "Conn_Read c n now"; cases "snd (Conn_Read c n now)") auto
  next
    case False
    then have "Conn_Read c n now =
        (c\<lparr>cc_readBuf := drop n (cc_readBuf c)\<rparr>, ReadBytes (take n (cc_readBuf c)))"
      by (simp add: Conn_Read_def)
    moreover have split: "take n b @ drop n b @ x = b @ x" for b x :: bytes
      by (metis append_assoc append_take_drop_id)
    ultimately show ?thesis using 3 unfolding same by (auto simp: split)
  qed
qed

lemma NewWithKeyID_fresh:
  assumes "NewWithKeyID lsid rsid kid = Some c"
  shows "New_reliable 12 = Some (cc_recvRel c) \<and> New_reliable 6 = Some (cc_sendRel c) \<and>
    cc_readBuf c = [] \<and> cc_acks c = [] \<and> cc_localSID c = lsid \<and> cc_keyID c = kid"
  using assms by (auto simp: NewWithKeyID_def govpn_consts split: option.splits)

lemma fresh_stream:
  assumes "NewWithKeyID lsid rsid kid = Some c" and "events_agree f evs"
    and "conn_run c evs [] = (c', got)"
  shows "\<exists>n. got @ cc_readBuf c' = concat (map (\<lambda>k. f (of_nat k)) [0..<n]) \<and>
    r_packetID (cc_recvRel c') = of_nat n \<and>
    (\<forall>k<n. \<exists>cp\<in>absorbed evs. cp_opcode cp \<noteq> OpAckV1 \<and> cp_packetID cp = of_nat k)"
proof -
  note fresh = NewWithKeyID_fresh [OF assms(1)]
  from conn_run_rx [OF assms(3)] fresh obtain rxs out where
    rx: "rx_run Put Get (cc_recvRel c) rxs = (cc_recvRel c', out)"
    and stored: "puts_from (absorbed evs) rxs" and buf: "got @ cc_readBuf c' = concat out"
    by auto
  have agree: "puts_agree f rxs"
    using stored assms(2) unfolding puts_from_def puts_agree_def events_agree_def by blast
  note new = New_reliable_rec_ok [of 12 "cc_recvRel c"]
  have "out = map (\<lambda>k. f (of_nat k)) [0..<length out]"
    and "r_packetID (cc_recvRel c') = of_nat (length out)"
    using rx.rx_in_order [OF _ _ agree rx] new fresh by auto
  moreover have "\<exists>p. RxPut (of_nat k) p \<in> set rxs" if "k < length out" for k
    using rx.rx_delivers_stored [OF _ rx that] new fresh by auto
  ultimately show ?thesis using buf stored unfolding puts_from_def by metis
qed

text \<open>
  A fresh connection turns arriving control packets into one ordered byte stream: however
  packets are repeated, reordered or missing, and however reads are interleaved, the bytes
  read so far followed by those waiting are the payloads of packets 0, 1, 2, \<dots>, concatenated
  without gap or repetition, up to some packet.
\<close>

theorem conn_stream_in_order:
  assumes "NewWithKeyID lsid rsid kid = Some c" and "events_agree f evs"
    and "conn_run c evs [] = (c', got)"
  shows "\<exists>n. got @ cc_readBuf c' = concat (map (\<lambda>k. f (of_nat k)) [0..<n]) \<and>
    r_packetID (cc_recvRel c') = of_nat n"
  using fresh_stream [OF assms] by blast

definition demo_data :: "u32 \<Rightarrow> bytes \<Rightarrow> control_packet" where
  "demo_data pid p = \<lparr>cp_opcode = OpControlV1, cp_keyID = 0, cp_sessionID = replicate 8 1,
     cp_acks = [], cp_remoteSessionID = replicate 8 0, cp_packetID = pid, cp_payload = p\<rparr>"

definition demo_conn :: ctrl_conn where
  "demo_conn = the (NewWithKeyID (replicate 8 2) (replicate 8 1) 0)"

lemma demo_conn_new: "NewWithKeyID (replicate 8 2) (replicate 8 1) 0 = Some demo_conn"
  by (simp add: demo_conn_def NewWithKeyID_def New_reliable_def govpn_consts)

theorem conn_stream_in_order_witness:
  "\<exists>n. snd (conn_run demo_conn
      [CAbsorb (demo_data 1 [20]), CRead 5 0, CAbsorb (demo_data 0 [10, 11]), CRead 2 0] []) @
     cc_readBuf (fst (conn_run demo_conn
      [CAbsorb (demo_data 1 [20]), CRead 5 0, CAbsorb (demo_data 0 [10, 11]), CRead 2 0] [])) =
     concat (map (\<lambda>k. if (of_nat k :: u32) = 0 then [10, 11] else [20]) [0..<n])"
proof -
  let ?f = "\<lambda>k :: u32. if k = 0 then [10, 11] else [20]"
  let ?evs = "[CAbsorb (demo_data 1 [20]), CRead 5 0, CAbsorb (demo_data 0 [10, 11]), CRead 2 0]"
  have "events_agree ?f ?evs" by (auto simp: events_agree_def absorbed_def demo_data_def)
  from conn_stream_in_order [OF demo_conn_new this surjective_pairing] show ?thesis by blast
qed

section \<open>What a connection sends\<close>

text \<open>
  The datagram that carries packet \<open>pid\<close> with the given opcode and payload for the
  connection \<open>c\<close>.
\<close>

definition carries ::
  "hash_fn \<Rightarrow> ctr_fn \<Rightarrow> tls_wrapper \<Rightarrow> ctrl_conn \<Rightarrow> u8 \<Rightarrow> u32 \<Rightarrow> bytes \<Rightarrow> bytes \<Rightarrow> bool" where
  "carries sha256 aes_ctr w c opcode pid payload b \<longleftrightarrow>
     (\<exists>seq ts acks. length acks \<le> 8 \<and>
        b = tls_packet sha256 aes_ctr w seq
          (AppendHeaderByte [] opcode (cc_keyID c) @ cc_localSID c, ts,
           AppendPlaintext \<lparr>cp_opcode = opcode, cp_keyID = cc_keyID c,
             cp_sessionID = cc_localSID c, cp_acks = acks, cp_remoteSessionID = cc_remoteSID c,
             cp_packetID = pid, cp_payload = payload\<rparr> []))"

definition same_peer :: "tls_wrapper \<Rightarrow> ctrl_conn \<Rightarrow> tls_wrapper \<Rightarrow> ctrl_conn \<Rightarrow> bool" where
  "same_peer w c w' c' \<longleftrightarrow> tw_encrypt w' = tw_encrypt w \<and> cc_keyID c' = cc_keyID c \<and>
     cc_localSID c' = cc_localSID c \<and> cc_remoteSID c' = cc_remoteSID c"

lemma carries_genuine:
  assumes "carries sha256 aes_ctr w c op pid p b" and "length (cc_localSID c) = 8"
  shows "\<exists>q h ts t. tls_genuine (h, ts, t) \<and> b = tls_packet sha256 aes_ctr w q (h, ts, t)"
proof -
  have "length (AppendHeaderByte [] op (cc_keyID c) @ cc_localSID c) = 9"
    using assms(2) by (simp add: AppendHeaderByte_def)
  then show ?thesis
    using assms(1) unfolding carries_def tls_genuine_def by (metis fst_conv)
qed

lemma carries_cong:
  "same_peer w c w' c' \<Longrightarrow>
   carries sha256 aes_ctr w' c' op pid p b \<longleftrightarrow> carries sha256 aes_ctr w c op pid p b"
  unfolding carries_def same_peer_def
  by (metis (no_types, lifting) tls_packet_cong)

lemma Wrap_packet:
  assumes "Wrap sha256 aes_ctr w [] h p now now' = (w', Inr b)"
  shows "tw_encrypt w' = tw_encrypt w \<and> (\<exists>seq ts. b = tls_packet sha256 aes_ctr w seq (h, ts, p))"
  using assms
  by (auto simp: Wrap_def next_wrap_pid_def Let_def tls_packet_def wrapWithPID_def
      split: if_splits prod.splits sum.splits)

lemma Wrap_encrypt: "tw_encrypt (fst (Wrap sha256 aes_ctr w [] h p now now')) = tw_encrypt w"
  by (auto simp: Wrap_def next_wrap_pid_def Let_def split: if_splits prod.splits sum.splits)

lemma buildControlPacket_carries:
  assumes "buildControlPacket sha256 aes_ctr clk w c op pid p = (w', c', res)"
  shows "same_peer w c w' c' \<and> cc_sendRel c' = cc_sendRel c \<and>
    (\<forall>b. res = Inr b \<longrightarrow> carries sha256 aes_ctr w c op pid p b)"
proof -
  obtain acks' drained where d: "ack_drain (cc_acks c) = (acks', drained)"
    by (cases "ack_drain (cc_acks c)")
  have "length drained \<le> 8"
    using acks.drain_batch [of "cc_acks c"] d by simp
  let ?h = "AppendHeaderByte [] op (cc_keyID c) @ cc_localSID c"
  let ?t = "AppendPlaintext \<lparr>cp_opcode = op, cp_keyID = cc_keyID c, cp_sessionID = cc_localSID c,
      cp_acks = drained, cp_remoteSessionID = cc_remoteSID c, cp_packetID = pid,
      cp_payload = p\<rparr> []"
  have w: "Wrap sha256 aes_ctr w [] ?h ?t (fst clk) (snd clk) = (w', res)"
    and c': "c' = c\<lparr>cc_acks := acks'\<rparr>"
    using assms d by (auto simp: buildControlPacket_def Let_def split: prod.splits)
  have "tw_encrypt w' = tw_encrypt w"
    using Wrap_encrypt [of sha256 aes_ctr w ?h ?t "fst clk" "snd clk"] w by simp
  moreover have "carries sha256 aes_ctr w c op pid p b" if "res = Inr b" for b
    using Wrap_packet [of sha256 aes_ctr w ?h ?t "fst clk" "snd clk" w' b] w that
      \<open>length drained \<le> 8\<close> unfolding carries_def by blast
  ultimately show ?thesis using c' by (simp add: same_peer_def)
qed

lemma buildControlPacket_ok:
  assumes "length (cc_localSID c) = 8" and "tw_sendSeq w \<noteq> 0xFFFFFFFF"
  shows "\<exists>b. snd (snd (buildControlPacket sha256 aes_ctr clk w c op pid p)) = Inr b"
proof -
  let ?h = "AppendHeaderByte [] op (cc_keyID c) @ cc_localSID c"
  have "length ?h = 9" using assms(1) by (simp add: AppendHeaderByte_def)
  from Wrap_counts [OF this assms(2)] show ?thesis
    by (auto simp: buildControlPacket_def Let_def split_def) (metis snd_conv)
qed

text \<open>
  \<open>sends\<close>: from one state to another a connection handed datagrams to the transport that
  carry the given chunks under consecutive packet ids.
\<close>

definition sends ::
  "hash_fn \<Rightarrow> ctr_fn \<Rightarrow> tls_wrapper \<Rightarrow> ctrl_conn \<Rightarrow> tls_wrapper \<Rightarrow> ctrl_conn \<Rightarrow> bytes list
   \<Rightarrow> bytes list \<Rightarrow> bool" where
  "sends sha256 aes_ctr w c w' c' bs chunks \<longleftrightarrow>
     same_peer w c w' c' \<and> length bs = length chunks \<and>
     r_packetID (cc_sendRel c') = r_packetID (cc_sendRel c) + of_nat (length chunks) \<and>
     (\<forall>i<length bs. carries sha256 aes_ctr w c OpControlV1
        (r_packetID (cc_sendRel c) + of_nat i) (chunks ! i) (bs ! i))"

lemma sends_refl: "same_peer w c w' c' \<Longrightarrow> r_packetID (cc_sendRel c') = r_packetID (cc_sendRel c) \<Longrightarrow>
  sends sha256 aes_ctr w c w' c' [] []"
  by (simp add: sends_def)

lemma sends_trans:
  assumes "sends sha256 aes_ctr w c w1 c1 bs ch" and "sends sha256 aes_ctr w1 c1 w2 c2 bs' ch'"
  shows "sends sha256 aes_ctr w c w2 c2 (bs @ bs') (ch @ ch')"
proof -
  have peer: "same_peer w c w1 c1" and len: "length bs = length ch"
    and pid: "r_packetID (cc_sendRel c1) = r_packetID (cc_sendRel c) + of_nat (length ch)"
    using assms(1) by (simp_all add: sends_def)
  have "carries sha256 aes_ctr w c OpControlV1 (r_packetID (cc_sendRel c) + of_nat i)
      ((ch @ ch') ! i) ((bs @ bs') ! i)" if "i < length (bs @ bs')" for i
  proof (cases "i < length bs")
    case True
    with assms(1) len show ?thesis by (simp add: sends_def nth_append)
  next
    case False
    define k where "k = i - length bs"
    have i: "i = length bs + k" using False by (simp add: k_def)
    with that have "k < length bs'" by simp
    with assms(2) have "carries sha256 aes_ctr w1 c1 OpControlV1
        (r_packetID (cc_sendRel c1) + of_nat k) (ch' ! k) (bs' ! k)"
      by (simp add: sends_def)
    with carries_cong [OF peer] pid len i show ?thesis
      by (simp add: nth_append algebra_simps)
  qed
  with assms show ?thesis
    by (auto simp: sends_def same_peer_def algebra_simps)
qed

lemma MarkActive_fields:
  "MarkActive r idx = (r', pid) \<Longrightarrow> pid = r_packetID r \<and> r_packetID r' = r_packetID r + 1"
  by (auto simp: MarkActive_def Let_def)

lemma SetPayload_packetID [simp]: "r_packetID (SetPayload r idx b) = r_packetID r"
  by (simp add: SetPayload_def)

lemma writeChunk_sends:
  assumes "writeChunk sha256 aes_ctr clk now tx_ok w c OpControlV1 p = (w', c', bs, res)"
    and "res = Sent () \<or> res = SendBlocked \<or> res = SendFailed ConnTransport \<or>
         res = SendFailed ConnClosedPipe \<or> res = SendFailed ConnTimeout"
  shows "sends sha256 aes_ctr w c w' c' bs (map (\<lambda>_. p) bs) \<and>
    (res = Sent () \<longrightarrow> length bs = 1) \<and> (res = SendBlocked \<longrightarrow> bs = []) \<and> length bs \<le> 1"
proof (cases "waitForSendSlot c now")
  case (SlotFree idx)
  obtain rel pid where m: "MarkActive (cc_sendRel c) idx = (rel, pid)"
    by (cases "MarkActive (cc_sendRel c) idx")
  obtain w1 c1 r1 where b: "buildControlPacket sha256 aes_ctr clk w (c\<lparr>cc_sendRel := rel\<rparr>)
      OpControlV1 pid p = (w1, c1, r1)"
    by (cases "buildControlPacket sha256 aes_ctr clk w (c\<lparr>cc_sendRel := rel\<rparr>) OpControlV1 pid p")
  note f = buildControlPacket_carries [OF b] MarkActive_fields [OF m]
  obtain x where x: "r1 = Inr x"
    using assms SlotFree m b by (cases r1) (auto simp: writeChunk_def)
  then have "w' = w1" "bs = [x]" "res \<noteq> SendBlocked"
    "c' = c1\<lparr>cc_sendRel := SetPayload (cc_sendRel c1) idx x\<rparr>"
    using assms SlotFree m b by (auto simp: writeChunk_def split: if_splits)
  moreover have "carries sha256 aes_ctr w c OpControlV1 pid p x"
    using f x by (simp add: carries_def)
  ultimately show ?thesis
    using f by (auto simp: sends_def same_peer_def)
qed (use assms in \<open>auto simp: writeChunk_def sends_refl same_peer_def\<close>)

text \<open>
  \<^verbatim>\<open>Write\<close> cuts its argument into chunks of \<open>MaxPayload\<close> bytes, the last one possibly
  shorter, and sends them in order.
\<close>

lemma Conn_Write_chunk:
  assumes "p \<noteq> []" and "env k = (clk, now, tx_ok)"
    and "writeChunk sha256 aes_ctr clk now tx_ok w c OpControlV1 (take MaxPayload p)
         = (w1, c1, bs1, r1)"
  shows "Conn_Write sha256 aes_ctr env k w c p written out =
    (case r1 of
       Sent _ \<Rightarrow> Conn_Write sha256 aes_ctr env (Suc k) w1 c1 (drop MaxPayload p)
                   (written + length (take MaxPayload p)) (out @ bs1)
     | r \<Rightarrow> (w1, c1, out @ bs1, written, r))"
proof -
  define ch where "ch = take MaxPayload p"
  have chunk: "(if length p > MaxPayload then take MaxPayload p else p) = ch"
    by (simp add: ch_def)
  have more: "drop MaxPayload p = drop (length ch) p"
    by (simp add: ch_def min_def)
  show ?thesis
    using assms unfolding ch_def [symmetric] more
    by (subst Conn_Write.simps) (simp add: chunk Let_def split: send_result.split)
qed

text \<open>What a call of \<^verbatim>\<open>Write\<close> achieved.\<close>

definition wrote :: "bytes \<Rightarrow> nat \<Rightarrow> nat \<Rightarrow> bytes list \<Rightarrow> unit send_result \<Rightarrow> bool" where
  "wrote p written written' chunks res \<longleftrightarrow>
     concat chunks = take (MaxPayload * length chunks) p \<and>
     (\<forall>x\<in>set chunks. length x \<le> MaxPayload) \<and>
     (res = Sent () \<longrightarrow> concat chunks = p \<and> written' = written + length p) \<and>
     (res = SendBlocked \<longrightarrow> written' = written + length (concat chunks))"

lemma wrote_Cons:
  assumes "wrote (drop MaxPayload p) (written + length (take MaxPayload p)) written' chunks res"
  shows "wrote p written written' (take MaxPayload p # chunks) res"
  using assms by (auto simp: wrote_def take_add min_def)

lemma Conn_Write_sends:
  assumes "Conn_Write sha256 aes_ctr env k w c p written out = (w', c', out', written', res)"
    and "\<forall>e. res \<noteq> SendFailed (ConnWrap e)"
  shows "\<exists>bs chunks. out' = out @ bs \<and> sends sha256 aes_ctr w c w' c' bs chunks \<and>
    wrote p written written' chunks res"
  using assms
proof (induction "length p" arbitrary: k w c p written out rule: less_induct)
  case less
  show ?case
  proof (cases "p = []")
    case True
    with less.prems(1) show ?thesis
      by (intro exI [of _ "[]"])
        (auto simp: sends_refl same_peer_def wrote_def Conn_Write.simps)
  next
    case False
    obtain clk now tx_ok where env: "env k = (clk, now, tx_ok)" by (cases "env k")
    obtain w1 c1 bs1 r1 where wc: "writeChunk sha256 aes_ctr clk now tx_ok w c OpControlV1
        (take MaxPayload p) = (w1, c1, bs1, r1)"
      by (cases "writeChunk sha256 aes_ctr clk now tx_ok w c OpControlV1 (take MaxPayload p)")
    note step = Conn_Write_chunk [where env = env and k = k, OF False env wc]
    show ?thesis
    proof (cases "r1 = Sent ()")
      case True
      with writeChunk_sends [OF wc] obtain b where b: "bs1 = [b]"
        "sends sha256 aes_ctr w c w1 c1 [b] [take MaxPayload p]"
        by (auto simp: length_Suc_conv)
      have shorter: "length (drop MaxPayload p) < length p"
        using False by (simp add: govpn_consts)
      have "Conn_Write sha256 aes_ctr env (Suc k) w1 c1 (drop MaxPayload p)
          (written + length (take MaxPayload p)) (out @ [b]) = (w', c', out', written', res)"
        using less.prems(1) step [of written out] True b(1) by simp
      from less.hyps [OF shorter this less.prems(2)] obtain bs chunks where
        IH: "out' = (out @ [b]) @ bs" "sends sha256 aes_ctr w1 c1 w' c' bs chunks"
        "wrote (drop MaxPayload p) (written + length (take MaxPayload p)) written' chunks res"
        by blast
      with sends_trans [OF b(2) IH(2)] wrote_Cons [OF IH(3)] show ?thesis
        by (intro exI [of _ "b # bs"] exI [of _ "take MaxPayload p # chunks"]) simp
    next
      case other: False
      then have fin: "w' = w1" "c' = c1" "out' = out @ bs1" "written' = written" "res = r1"
        using less.prems(1) unfolding step by (cases r1; auto)+
      then have s: "sends sha256 aes_ctr w c w' c' bs1 (map (\<lambda>_. take MaxPayload p) bs1)"
        "res = SendBlocked \<longrightarrow> bs1 = []" "length bs1 \<le> 1"
        using writeChunk_sends [OF wc] less.prems(2) other
        by (cases r1; cases "case r1 of SendFailed e \<Rightarrow> e"; auto)+
      then have "wrote p written written' (map (\<lambda>_. take MaxPayload p) bs1) res"
        using other fin by (cases bs1) (auto simp: wrote_def)
      with s(1) fin show ?thesis by blast
    qed
  qed
qed

section \<open>Lost acknowledgements\<close>

text \<open>
  C37. A lost acknowledgement is not repeated: a retransmission of a packet that was already
  delivered, with no other acknowledgement pending, is dropped without any answer. The
  acknowledgements it carries are taken, nothing is sent and nothing is queued, whenever and
  however often it arrives.
\<close>

theorem delivered_packet_not_reacknowledged:
  assumes "cp_opcode cp \<noteq> OpAckV1" and "pidMin (cp_packetID cp) (r_packetID (cc_recvRel c))"
    and "cc_acks c = []"
  shows "Deliver sha256 aes_ctr clk w c cp =
    (w, c\<lparr>cc_sendRel := Ack (cc_sendRel c) (cp_acks cp)\<rparr>, [])"
  using assms by (simp add: Deliver_def absorb_def Let_def Put_def flushAckOnly_def ack_peek_def)

definition demo_tls :: tls_wrapper where
  "demo_tls = projr (Tls_NewWrapper (replicate 256 7) True)"

theorem delivered_packet_not_reacknowledged_witness:
  "\<exists>w' c' b. Deliver (sum_hash 32) sum_ctr (100, 100) demo_tls demo_conn (demo_data 0 [10]) = (w', c', [b]) \<and>
     Deliver (sum_hash 32) sum_ctr (101, 101) w' c' (demo_data 0 [10]) = (w', c', [])"
proof -
  let ?c = "absorb demo_conn (demo_data 0 [10])"
  have acks: "cc_acks ?c = [0]" and pos: "r_packetID (cc_recvRel ?c) = 1"
    by code_simp+
  have sid: "length (cc_localSID ?c) = 8"
    by (auto simp: absorb_def Let_def demo_conn_def NewWithKeyID_def New_reliable_def govpn_consts
        split: prod.split put_result.split)
  obtain w' c' res where b: "buildControlPacket (sum_hash 32) sum_ctr (100, 100) demo_tls ?c OpAckV1 0 []
      = (w', c', res)"
    by (cases "buildControlPacket (sum_hash 32) sum_ctr (100, 100) demo_tls ?c OpAckV1 0 []")
  have c': "c' = ?c\<lparr>cc_acks := []\<rparr>"
    using b acks by (auto simp: buildControlPacket_def Let_def ack_drain_def govpn_consts
        split: prod.splits)
  obtain x where x: "res = Inr x"
    using buildControlPacket_ok [OF sid, of demo_tls "sum_hash 32" sum_ctr "(100, 100)" OpAckV1 0 "[]"] b
    by (auto simp: demo_tls_def Tls_NewWrapper_def)
  have "Deliver (sum_hash 32) sum_ctr (100, 100) demo_tls demo_conn (demo_data 0 [10]) = (w', c', [x])"
    using b x acks by (simp add: Deliver_def flushAckOnly_def ack_peek_def)
  moreover have "Deliver (sum_hash 32) sum_ctr (101, 101) w' c' (demo_data 0 [10]) =
      (w', c'\<lparr>cc_sendRel := Ack (cc_sendRel c') (cp_acks (demo_data 0 [10]))\<rparr>, [])"
  proof (rule delivered_packet_not_reacknowledged)
    show "pidMin (cp_packetID (demo_data 0 [10])) (r_packetID (cc_recvRel c'))"
      using pos by (simp add: c') (simp add: demo_data_def pidMin_def pidInRange1_def subtractPID_def)
  qed (simp_all add: c' demo_data_def)
  moreover have "c'\<lparr>cc_sendRel := Ack (cc_sendRel c') (cp_acks (demo_data 0 [10]))\<rparr> = c'"
    by (simp add: demo_data_def Ack_def)
  ultimately show ?thesis by metis
qed

lemma writeChunk_keeps:
  assumes "rel_wf (cc_sendRel c)"
    and "writeChunk sha256 aes_ctr clk now True w c opcode payload = (w', c', [b], Sent ())"
  shows "carries sha256 aes_ctr w c opcode (r_packetID (cc_sendRel c)) payload b \<and>
    (\<exists>e\<in>set (window (cc_sendRel c')). e_active e \<and>
       e_packetID e = r_packetID (cc_sendRel c) \<and> e_payload e = b)"
proof -
  obtain idx where slot: "Next (cc_sendRel c) = Some idx"
    and free: "waitForSendSlot c now = SlotFree idx"
    using assms(2) by (cases "Next (cc_sendRel c)")
      (auto simp: writeChunk_def waitForSendSlot_def split: if_splits)
  obtain rel pid where m: "MarkActive (cc_sendRel c) idx = (rel, pid)"
    by (cases "MarkActive (cc_sendRel c) idx")
  obtain w1 c1 r1 where bc: "buildControlPacket sha256 aes_ctr clk w (c\<lparr>cc_sendRel := rel\<rparr>)
      opcode pid payload = (w1, c1, r1)"
    by (cases "buildControlPacket sha256 aes_ctr clk w (c\<lparr>cc_sendRel := rel\<rparr>) opcode pid payload")
  have r1: "r1 = Inr b" and c': "c' = c1\<lparr>cc_sendRel := SetPayload (cc_sendRel c1) idx b\<rparr>"
    using assms(2) free m bc by (cases r1; auto simp: writeChunk_def)+
  note f = buildControlPacket_carries [OF bc] MarkActive_fields [OF m]
  have idx: "idx < r_size (cc_sendRel c)"
    using slot find_window [OF assms(1)]
    by (auto simp: Next_def split: option.splits if_splits)
  let ?e = "(r_entries rel ! idx)\<lparr>e_payload := b\<rparr>"
  have "window (cc_sendRel c') = (window rel)[idx := ?e]" and "idx < length (window rel)"
    and "e_active ?e" and "e_packetID ?e = r_packetID (cc_sendRel c)"
    using f c' idx m assms(1)
    by (auto simp: SetPayload_def MarkActive_def Let_def length_window set_entry_def rel_wf_def
        window_def take_update_swap)
  then have "?e \<in> set (window (cc_sendRel c'))" by (simp add: set_update_memI)
  moreover have "carries sha256 aes_ctr w c opcode pid payload b"
    using f r1 carries_cong [of w c w "c\<lparr>cc_sendRel := rel\<rparr>"] by (simp add: same_peer_def)
  ultimately show ?thesis
    using f \<open>e_active ?e\<close> \<open>e_packetID ?e = r_packetID (cc_sendRel c)\<close>
    by (intro conjI bexI [of _ ?e]) simp_all
qed


lemma demo_writeChunk:
  "\<exists>w' c' b. writeChunk (sum_hash 32) sum_ctr (100, 100) 0 True demo_tls demo_conn OpControlV1
     [1, 2, 3] = (w', c', [b], Sent ())"
proof -
  have sid: "length (cc_localSID demo_conn) = 8"
    using NewWithKeyID_fresh [OF demo_conn_new] by simp
  have "Next (cc_sendRel demo_conn) = Some 0" by code_simp
  then have slot: "waitForSendSlot demo_conn 0 = SlotFree 0" by (simp add: waitForSendSlot_def)
  obtain rel pid where m: "MarkActive (cc_sendRel demo_conn) 0 = (rel, pid)"
    by (cases "MarkActive (cc_sendRel demo_conn) 0")
  obtain w1 c1 b where bc: "buildControlPacket (sum_hash 32) sum_ctr (100, 100) demo_tls
      (demo_conn\<lparr>cc_sendRel := rel\<rparr>) OpControlV1 pid [1, 2, 3] = (w1, c1, Inr b)"
    using buildControlPacket_ok [of "demo_conn\<lparr>cc_sendRel := rel\<rparr>" demo_tls "sum_hash 32" sum_ctr
        "(100, 100)" OpControlV1 pid "[1, 2, 3]"] sid
    by (cases "buildControlPacket (sum_hash 32) sum_ctr (100, 100) demo_tls
        (demo_conn\<lparr>cc_sendRel := rel\<rparr>) OpControlV1 pid [1, 2, 3]")
      (auto simp: demo_tls_def Tls_NewWrapper_def)
  show ?thesis
    using slot m bc by (simp add: writeChunk_def)
qed


end
