(* ===== verification/Frame.thy ===== *)
theory Frame
  imports Govpn_Prelude
begin

text \<open>
  \<^verbatim>\<open>netstack/internal/frame/frame.go\<close>: construction of IPv4 and UDP frames and the
  RFC 1071 checksum. An address (\<^verbatim>\<open>netip.Addr\<close>, IPv4 only here) is a 32-bit word, with
  \<^verbatim>\<open>As4\<close> its big-endian bytes and \<^verbatim>\<open>AddrFrom4\<close> their reader. The running sum stays
  the 32-bit word the code uses, so that its wrap-around is part of the model; the
  arithmetic theorem is that folding computes the one's-complement sum of the 16-bit
  words and that a checksum written into its zeroed field makes the whole sum vanish.
\<close>

unbundle bit_operations_syntax

section \<open>Addresses and constants\<close>

type_synonym addr = u32

definition As4 :: "addr \<Rightarrow> bytes" where
  "As4 a = be32 a"

definition AddrFrom4 :: "bytes \<Rightarrow> addr" where
  "AddrFrom4 b = get32 b"

lemma length_As4 [simp]: "length (As4 a) = 4"
  by (simp add: As4_def)

lemma AddrFrom4_As4 [simp]: "AddrFrom4 (As4 a @ r) = a" "AddrFrom4 (As4 a) = a"
  using get32_be32 [of a] get32_be32 [of a "[]"] by (simp_all add: AddrFrom4_def As4_def)

definition MinIPv4HeaderLen :: nat where
  "MinIPv4HeaderLen = 20"

definition DefaultTTL :: u8 where
  "DefaultTTL = 64"

definition ProtocolICMP :: u8 where
  "ProtocolICMP = 1"

definition ProtocolTCP :: u8 where
  "ProtocolTCP = 6"

definition ProtocolUDP :: u8 where
  "ProtocolUDP = 17"

definition FlagMoreFragments :: u16 where
  "FlagMoreFragments = 0x2000"

definition UDPHeaderLen :: nat where
  "UDPHeaderLen = 8"

definition ICMPTypeEchoRequest :: u8 where
  "ICMPTypeEchoRequest = 8"

definition MinICMPHeaderLen :: nat where
  "MinICMPHeaderLen = 8"

lemmas frame_consts [govpn_consts] =
  MinIPv4HeaderLen_def DefaultTTL_def ProtocolICMP_def ProtocolTCP_def ProtocolUDP_def
  FlagMoreFragments_def UDPHeaderLen_def ICMPTypeEchoRequest_def MinICMPHeaderLen_def

section \<open>The checksum\<close>

text \<open>
  The summing loop over pairs of bytes with its odd trailing byte, started from the
  accumulator (zero, or the pseudo-header's partial sum).
\<close>

fun sum_words :: "u32 \<Rightarrow> bytes \<Rightarrow> u32" where
  "sum_words s [] = s"
| "sum_words s [a] = s + push_bit 8 (ucast a)"
| "sum_words s (a # b # r) = sum_words (s + (push_bit 8 (ucast a) OR ucast b)) r"

text \<open>The loop that folds the carries back in while the sum exceeds 16 bits.\<close>

function fold_carries :: "u32 \<Rightarrow> u32" where
  "fold_carries s =
     (if drop_bit 16 s \<noteq> 0 then fold_carries ((s AND 0xFFFF) + drop_bit 16 s) else s)"
  by pat_completeness auto

lemma unat_drop16: "unat (drop_bit 16 (s :: u32)) = unat s div 65536"
  by (simp add: drop_bit_eq_div unat_div)

lemma unat_low16: "unat ((s :: u32) AND 0xFFFF) = unat s mod 65536"
proof -
  have "s AND 0xFFFF = take_bit 16 s"
    by (simp add: take_bit_eq_mask mask_eq_exp_minus_1)
  then show ?thesis
    by (simp add: take_bit_eq_mod unat_mod)
qed

lemma unat_fold_step:
  "unat ((s AND 0xFFFF) + drop_bit 16 (s :: u32)) = unat s mod 65536 + unat s div 65536"
  using unat_u32_less [of s]
  by (simp add: unat_word_ariths unat_drop16 unat_low16)

lemma fold_step_less:
  assumes "n div 65536 \<noteq> 0"
  shows "n mod 65536 + n div 65536 < (n :: nat)"
proof -
  have "n = n div 65536 * 65536 + n mod 65536"
    by (rule div_mult_mod_eq [symmetric])
  moreover have "n div 65536 < n div 65536 * 65536"
    using assms by simp
  ultimately show ?thesis by linarith
qed

termination fold_carries
proof (relation "measure unat")
  fix s :: u32
  assume "drop_bit 16 s \<noteq> 0"
  then have "unat s div 65536 \<noteq> 0"
    by (metis unat_drop16 unat_eq_zero)
  then show "((s AND 0xFFFF) + drop_bit 16 s, s) \<in> measure unat"
    using fold_step_less [of "unat s"] by (simp add: unat_fold_step)
qed simp

declare fold_carries.simps [simp del]

definition InternetChecksum :: "bytes \<Rightarrow> u16" where
  "InternetChecksum b = NOT (ucast (fold_carries (sum_words 0 b)))"

definition PseudoHeaderSum :: "addr \<Rightarrow> addr \<Rightarrow> u8 \<Rightarrow> u16 \<Rightarrow> u32" where
  "PseudoHeaderSum src dst protocol len =
     (let srcB = As4 src; dstB = As4 dst in
      (push_bit 8 (ucast (srcB ! 0)) OR ucast (srcB ! 1))
      + (push_bit 8 (ucast (srcB ! 2)) OR ucast (srcB ! 3))
      + (push_bit 8 (ucast (dstB ! 0)) OR ucast (dstB ! 1))
      + (push_bit 8 (ucast (dstB ! 2)) OR ucast (dstB ! 3))
      + ucast protocol + ucast len)"

definition TransportChecksum :: "addr \<Rightarrow> addr \<Rightarrow> u8 \<Rightarrow> bytes \<Rightarrow> u16" where
  "TransportChecksum src dst protocol payload =
     NOT (ucast (fold_carries
       (sum_words (PseudoHeaderSum src dst protocol (of_nat (length payload))) payload)))"

section \<open>Frame construction\<close>

definition BuildIPv4 :: "bytes \<Rightarrow> addr \<Rightarrow> addr \<Rightarrow> u8 \<Rightarrow> bytes \<Rightarrow> bytes" where
  "BuildIPv4 dst src dstAddr protocol payload =
     (let totalLen = MinIPv4HeaderLen + length payload;
          hdr = [0x45, 0] @ be16 (of_nat totalLen) @ be16 0 @ be16 0
                @ [DefaultTTL, protocol, 0, 0] @ As4 src @ As4 dstAddr
      in dst @ overwrite 10 (be16 (InternetChecksum hdr)) hdr @ payload)"

definition BuildUDP :: "bytes \<Rightarrow> addr \<Rightarrow> addr \<Rightarrow> u16 \<Rightarrow> u16 \<Rightarrow> bytes \<Rightarrow> bytes" where
  "BuildUDP dst src dstAddr srcPort dstPort payload =
     (let totalLen = UDPHeaderLen + length payload;
          segment = be16 srcPort @ be16 dstPort @ be16 (of_nat totalLen) @ [0, 0] @ payload;
          checksum0 = TransportChecksum src dstAddr ProtocolUDP segment;
          checksum = (if checksum0 = 0 then 0xFFFF else checksum0)
      in dst @ overwrite 6 (be16 checksum) segment)"

section \<open>The sum as a number\<close>

text \<open>
  The reference: the sum of the big-endian 16-bit words of a buffer, zero-padded to an
  even length, and the one's-complement representative of a number, which is 65535
  rather than 0 for a positive multiple of 65535.
\<close>

fun word_total :: "bytes \<Rightarrow> nat" where
  "word_total [] = 0"
| "word_total [a] = 256 * unat a"
| "word_total (a # b # r) = 256 * unat a + unat b + word_total r"

definition ones_sum :: "nat \<Rightarrow> nat" where
  "ones_sum n = (if n = 0 then 0 else if n mod 65535 = 0 then 65535 else n mod 65535)"

lemma word_total_append: "even (length xs) \<Longrightarrow> word_total (xs @ ys) = word_total xs + word_total ys"
  by (induction xs rule: word_total.induct) auto

lemma unat_u8_less: "unat (a :: u8) < 256"
  using unsigned_less [of a, where ?'a = nat] by simp

lemma unat_u16_less: "unat (a :: u16) < 65536"
  using unsigned_less [of a, where ?'a = nat] by simp

lemma word_total_le: "word_total b \<le> 65535 * ((length b + 1) div 2)"
proof (induction b rule: word_total.induct)
  case (2 a)
  then show ?case using unat_u8_less [of a] by simp
next
  case (3 a b r)
  then show ?case using unat_u8_less [of a] unat_u8_less [of b] by simp
qed simp

lemma pair_value: "push_bit 8 (ucast a) OR ucast b = (of_nat (256 * unat a + unat b) :: u32)"
  for a b :: u8
proof -
  have "push_bit 8 (ucast a) OR (ucast b :: u32) = push_bit 8 (ucast a) + ucast b"
    by (rule disjunctive_add [symmetric]) (auto simp: bit_simps)
  also have "\<dots> = of_nat (256 * unat a + unat b)"
    by (simp add: push_bit_eq_mult unsigned_word_eqI mult.commute)
  finally show ?thesis .
qed

lemma high_value: "push_bit 8 (ucast a) = (of_nat (256 * unat a) :: u32)" for a :: u8
  using pair_value [of a 0] by simp

lemma sum_words_total: "sum_words s b = s + of_nat (word_total b)"
proof (induction s b rule: sum_words.induct)
  case (2 s a)
  then show ?case by (simp only: sum_words.simps word_total.simps high_value)
next
  case (3 s a b r)
  then show ?case by (simp only: sum_words.simps word_total.simps pair_value of_nat_add add.assoc)
qed simp

section \<open>Folding is the one's-complement sum\<close>

lemma ones_sum_small: "n < 65536 \<Longrightarrow> ones_sum n = n"
  by (cases "n = 65535") (auto simp: ones_sum_def)

lemma ones_sum_bound: "ones_sum n \<le> 65535"
  by (auto simp: ones_sum_def)

lemma ones_sum_fold: "ones_sum (n mod 65536 + n div 65536) = ones_sum n"
proof -
  define q r where "q = n div 65536" and "r = n mod 65536"
  have n: "n = (r + q) + q * 65535"
    using div_mult_mod_eq [of n 65536] by (simp add: q_def r_def)
  then have "n mod 65535 = (r + q) mod 65535"
    by (metis mod_mult_self1)
  moreover have "n = 0 \<longleftrightarrow> r + q = 0"
    using n by auto
  ultimately show ?thesis
    by (simp add: ones_sum_def q_def r_def)
qed

lemma fold_carries_value: "unat (fold_carries s) = ones_sum (unat s)"
proof (induction s rule: fold_carries.induct)
  case (1 s)
  show ?case
  proof (cases "drop_bit 16 s = 0")
    case True
    then have "unat s div 65536 = 0"
      using unat_drop16 [of s] by simp
    then have "unat s < 65536"
      by (simp add: div_eq_0_iff)
    with True show ?thesis
      by (subst fold_carries.simps) (simp add: ones_sum_small)
  next
    case False
    with 1 show ?thesis
      by (subst fold_carries.simps) (simp add: unat_fold_step ones_sum_fold)
  qed
qed

lemma unat_complement: "unat (NOT (w :: u16)) = 65535 - unat w"
proof -
  have "NOT w = - 1 - w"
    by (simp add: not_eq_complement)
  moreover have "unat (- 1 - w) = unat (- 1 :: u16) - unat w"
    by (rule unat_sub) simp
  moreover have "unat (- 1 :: u16) = 65535"
    by (simp add: unsigned_minus_1_eq_mask mask_eq_exp_minus_1)
  ultimately show ?thesis
    by simp
qed

lemma checksum_value:
  "unat (NOT (ucast (fold_carries s) :: u16)) = 65535 - ones_sum (unat s)"
proof -
  have "unat (ucast (fold_carries s) :: u16) = unat (fold_carries s) mod 65536"
    by (simp add: unsigned_ucast_eq take_bit_eq_mod)
  then show ?thesis
    using ones_sum_bound [of "unat s"] by (simp add: unat_complement fold_carries_value)
qed

lemma ones_sum_complement: "ones_sum (n + (65535 - ones_sum n)) = 65535"
proof (cases "n = 0")
  case False
  show ?thesis
  proof (cases "n mod 65535 = 0")
    case nz: False
    have "(n + (65535 - n mod 65535)) mod 65535 = 0"
    proof -
      have "n + (65535 - n mod 65535) = n div 65535 * 65535 + 65535"
        using div_mult_mod_eq [of n 65535] mod_less_divisor [of 65535 n] by linarith
      then show ?thesis by simp
    qed
    with False nz show ?thesis by (simp add: ones_sum_def)
  qed (use False in \<open>simp add: ones_sum_def\<close>)
qed (simp add: ones_sum_def)

text \<open>
  A buffer whose zeroed field at an even offset receives the complement of its
  one's-complement sum, or the all-ones value in place of a zero complement.
\<close>

lemma word_total_be16 [simp]: "word_total (be16 w) = unat w"
proof -
  have "unat w mod 65536 = unat w"
    using unat_u16_less [of w] by simp
  then show ?thesis
    by (simp add: be16_def unsigned_ucast_eq take_bit_eq_mod drop_bit_eq_div unat_div)
qed

lemma zero_field_split:
  assumes "i + 2 \<le> length b" and "b ! i = 0" and "b ! Suc i = 0"
  shows "b = take i b @ [0, 0] @ drop (i + 2) b"
proof -
  have "drop i b = b ! i # b ! Suc i # drop (i + 2) b"
    using assms(1) by (simp add: Cons_nth_drop_Suc)
  then show ?thesis
    using assms append_take_drop_id [of i b] by simp
qed

lemma word_total_field:
  assumes "even i" and "i + 2 \<le> length b" and "b ! i = 0" and "b ! Suc i = 0"
  shows "word_total (overwrite i (be16 c) b) = word_total b + unat c"
proof -
  have "word_total b = word_total (take i b) + word_total (drop (i + 2) b)"
    using assms by (subst zero_field_split [OF assms(2-4)]) (simp add: word_total_append)
  moreover have "word_total (overwrite i (be16 c) b)
    = word_total (take i b) + (unat c + word_total (drop (i + 2) b))"
    using assms by (simp add: overwrite_def word_total_append)
  ultimately show ?thesis by simp
qed

section \<open>The interface of a checksum\<close>

text \<open>
  What senders and receivers rely on: the checksum of a buffer is the complement of the
  one's-complement sum of its words and of a base that depends on its length alone.
\<close>

locale ones_checksum =
  fixes cks :: "bytes \<Rightarrow> u16"
    and base :: "nat \<Rightarrow> nat"
  assumes cks_value:
    "length b \<le> 65535 \<Longrightarrow> unat (cks b) = 65535 - ones_sum (base (length b) + word_total b)"
begin

lemma cks_zero_iff:
  "length b \<le> 65535 \<Longrightarrow> cks b = 0 \<longleftrightarrow> ones_sum (base (length b) + word_total b) = 65535"
  using cks_value [of b] ones_sum_bound [of "base (length b) + word_total b"]
  by (metis cancel_comm_monoid_add_class.diff_cancel diff_diff_cancel minus_nat.diff_0 unat_0
      unsigned_eq_0_iff)

lemma field_written_verifies:
  assumes "even i" and "i + 2 \<le> length b" and "b ! i = 0" and "b ! Suc i = 0"
    and "length b \<le> 65535" and "c = cks b \<or> (cks b = 0 \<and> c = 0xFFFF)"
  shows "cks (overwrite i (be16 c) b) = 0"
proof -
  let ?n = "base (length b) + word_total b"
  have "ones_sum (?n + unat c) = 65535"
    using assms(6)
  proof (elim disjE conjE)
    assume "c = cks b"
    then show ?thesis
      using cks_value [OF assms(5)] ones_sum_complement [of ?n] by simp
  next
    assume "cks b = 0" and c: "c = 0xFFFF"
    then have "ones_sum ?n = 65535"
      using cks_zero_iff [OF assms(5)] by simp
    then have "?n mod 65535 = 0"
      by (auto simp: ones_sum_def split: if_splits)
    then show ?thesis
      using c by (simp add: ones_sum_def)
  qed
  then show ?thesis
    using assms cks_zero_iff [of "overwrite i (be16 c) b"]
    by (simp add: word_total_field add.assoc)
qed

lemma changed_word_detected:
  assumes "even (length p)" and "length (p @ be16 w @ q) \<le> 65535"
    and "cks (p @ be16 w @ q) = 0" and "unat w mod 65535 \<noteq> unat w' mod 65535"
  shows "cks (p @ be16 w' @ q) \<noteq> 0"
proof
  assume "cks (p @ be16 w' @ q) = 0"
  let ?m = "base (length p + 2 + length q) + word_total p + word_total q"
  have "ones_sum (?m + unat w) = 65535" "ones_sum (?m + unat w') = 65535"
    using assms \<open>cks (p @ be16 w' @ q) = 0\<close> cks_zero_iff [of "p @ be16 w @ q"]
      cks_zero_iff [of "p @ be16 w' @ q"]
    by (simp_all add: word_total_append ac_simps)
  then have "(?m + unat w) mod 65535 = (?m + unat w') mod 65535"
    by (auto simp: ones_sum_def split: if_splits)
  then have "unat w mod 65535 = unat w' mod 65535"
    by (simp add: mod_add_left_eq nat_mod_eq_iff)
  with assms(4) show False ..
qed

end

lemma u32_sum_value:
  "unat s + word_total b < 4294967296 \<Longrightarrow> unat (sum_words s b) = unat s + word_total b"
  by (simp add: sum_words_total unat_word_ariths unsigned_of_nat take_bit_eq_mod)

lemma word_total_buffer: "length b \<le> 65535 \<Longrightarrow> word_total b \<le> 2147450880"
  using word_total_le [of b] by (simp add: order.trans)

interpretation internet: ones_checksum InternetChecksum "\<lambda>_. 0"
proof
  fix b :: bytes
  assume "length b \<le> 65535"
  then have "unat (sum_words 0 b) = word_total b"
    using word_total_buffer [of b] by (subst u32_sum_value) simp_all
  then show "unat (InternetChecksum b) = 65535 - ones_sum (0 + word_total b)"
    by (simp add: InternetChecksum_def checksum_value)
qed

text \<open>The pseudo-header as a number: the address words, the protocol and the length.\<close>

definition pseudo_total :: "addr \<Rightarrow> addr \<Rightarrow> u8 \<Rightarrow> nat \<Rightarrow> nat" where
  "pseudo_total src dst protocol len =
     word_total (As4 src) + word_total (As4 dst) + unat protocol + len"

lemma pseudo_value:
  assumes "len \<le> 65535"
  shows "unat (PseudoHeaderSum src dst protocol (of_nat len)) = pseudo_total src dst protocol len"
    and "pseudo_total src dst protocol len \<le> 327930"
proof -
  obtain a b c d where s: "As4 src = [a, b, c, d]"
    using list4_cases [of "As4 src"] by auto
  obtain e f g h where t: "As4 dst = [e, f, g, h]"
    using list4_cases [of "As4 dst"] by auto
  have len: "unat (of_nat len :: u16) = len"
    using assms by (simp add: unsigned_of_nat take_bit_eq_mod)
  show "pseudo_total src dst protocol len \<le> 327930"
    using assms word_total_le [of "As4 src"] word_total_le [of "As4 dst"] unat_u8_less [of protocol]
    by (simp add: pseudo_total_def)
  moreover have "PseudoHeaderSum src dst protocol (of_nat len)
    = of_nat (pseudo_total src dst protocol len)"
  proof -
    have "ucast protocol = (of_nat (unat protocol) :: u32)"
      and "ucast (of_nat len :: u16) = (of_nat len :: u32)"
      using len by (simp, metis of_nat_unat)
    moreover have "[a, b, c, d] ! 1 = b" "[a, b, c, d] ! 2 = c" "[a, b, c, d] ! 3 = d"
      "[e, f, g, h] ! 1 = f" "[e, f, g, h] ! 2 = g" "[e, f, g, h] ! 3 = h"
      by simp_all
    ultimately show ?thesis
      by (simp only: PseudoHeaderSum_def Let_def s t pseudo_total_def pair_value nth_Cons_0
          word_total.simps of_nat_add add.assoc add_0_right of_nat_0)
  qed
  ultimately show "unat (PseudoHeaderSum src dst protocol (of_nat len))
    = pseudo_total src dst protocol len"
    by (simp add: unsigned_of_nat take_bit_eq_mod)
qed

interpretation transport: ones_checksum
  "TransportChecksum src dst protocol" "pseudo_total src dst protocol" for src dst protocol
proof
  fix b :: bytes
  assume len: "length b \<le> 65535"
  then have "unat (sum_words (PseudoHeaderSum src dst protocol (of_nat (length b))) b)
    = pseudo_total src dst protocol (length b) + word_total b"
    using word_total_buffer [OF len] pseudo_value [OF len, of src dst protocol]
    by (subst u32_sum_value) simp_all
  then show "unat (TransportChecksum src dst protocol b)
    = 65535 - ones_sum (pseudo_total src dst protocol (length b) + word_total b)"
    by (simp add: TransportChecksum_def checksum_value)
qed

section \<open>Properties\<close>

text \<open>
  C15. For every buffer that fits a datagram and whose checksum field, at an even offset,
  is zero: writing the computed checksum there makes a receiver's sum over the whole
  buffer verify (checksum zero), for the header checksum and for the transport checksum
  with its pseudo-header; and replacing any aligned 16-bit word of a verifying buffer by
  one that differs modulo 65535 is detected.
\<close>

theorem checksum_verifies_and_detects:
  assumes "even i" and "i + 2 \<le> length b" and "b ! i = 0" and "b ! Suc i = 0"
    and "length b \<le> 65535"
    and "even (length p)" and "length (p @ be16 w @ q) \<le> 65535"
    and "unat w mod 65535 \<noteq> unat w' mod 65535"
  shows "InternetChecksum (overwrite i (be16 (InternetChecksum b)) b) = 0
    \<and> TransportChecksum src dst proto
        (overwrite i (be16 (TransportChecksum src dst proto b)) b) = 0
    \<and> \<not> (InternetChecksum (p @ be16 w @ q) = 0 \<and> InternetChecksum (p @ be16 w' @ q) = 0)
    \<and> \<not> (TransportChecksum src dst proto (p @ be16 w @ q) = 0
         \<and> TransportChecksum src dst proto (p @ be16 w' @ q) = 0)"
proof (intro conjI notI)
  show "InternetChecksum (overwrite i (be16 (InternetChecksum b)) b) = 0"
    by (rule internet.field_written_verifies [OF assms(1-5)]) simp
  show "TransportChecksum src dst proto (overwrite i (be16 (TransportChecksum src dst proto b)) b) = 0"
    by (rule transport.field_written_verifies [OF assms(1-5)]) simp
next
  assume "InternetChecksum (p @ be16 w @ q) = 0 \<and> InternetChecksum (p @ be16 w' @ q) = 0"
  then show False
    using internet.changed_word_detected [OF assms(6,7) _ assms(8)] by simp
next
  assume "TransportChecksum src dst proto (p @ be16 w @ q) = 0
         \<and> TransportChecksum src dst proto (p @ be16 w' @ q) = 0"
  then show False
    using transport.changed_word_detected [OF assms(6,7) _ assms(8)] by blast
qed

theorem checksum_verifies_and_detects_witness:
  "InternetChecksum (overwrite 2 (be16 (InternetChecksum [0x45, 1, 0, 0, 7])) [0x45, 1, 0, 0, 7]) = 0
   \<and> TransportChecksum 1 2 17 (overwrite 2 (be16 (TransportChecksum 1 2 17 [0x45, 1, 0, 0, 7]))
       [0x45, 1, 0, 0, 7]) = 0
   \<and> \<not> (InternetChecksum ([9, 9] @ be16 1 @ [4]) = 0 \<and> InternetChecksum ([9, 9] @ be16 3 @ [4]) = 0)"
  using checksum_verifies_and_detects
    [of 2 "[0x45, 1, 0, 0, 7]" "[9, 9]" 1 "[4]" 3 1 2 17]
  by simp

end
