(* ===== verification/Ipv4.thy ===== *)
theory Ipv4
  imports Frame
begin

text \<open>
  \<^verbatim>\<open>netstack/ipv4.go\<close>: the parser of IPv4 headers with its order of checks, the
  options-free builder and the fragmenter. A parse error is the left side of a sum. The
  lengths of the parsed header are the code's non-negative \<^verbatim>\<open>int\<close> values and are
  natural numbers; the header fields keep their width.
\<close>

unbundle bit_operations_syntax

section \<open>Constants, errors and the parsed header\<close>

definition minIPv4HeaderLen :: nat where
  "minIPv4HeaderLen = MinIPv4HeaderLen"

definition maxIPv4HeaderLen :: nat where
  "maxIPv4HeaderLen = 60"

definition protocolICMP :: u8 where
  "protocolICMP = ProtocolICMP"

definition protocolTCP :: u8 where
  "protocolTCP = ProtocolTCP"

definition protocolUDP :: u8 where
  "protocolUDP = ProtocolUDP"

definition flagMoreFragments :: u16 where
  "flagMoreFragments = FlagMoreFragments"

definition fragOffsetMask :: u16 where
  "fragOffsetMask = 0x1FFF"

definition flagDontFragment :: u16 where
  "flagDontFragment = 0x4000"

definition maxIPv4Datagram :: nat where
  "maxIPv4Datagram = 65535"

lemmas ipv4_consts [govpn_consts] =
  minIPv4HeaderLen_def maxIPv4HeaderLen_def protocolICMP_def protocolTCP_def protocolUDP_def
  flagMoreFragments_def fragOffsetMask_def flagDontFragment_def maxIPv4Datagram_def

datatype ipv4_error = errTooShort | errNotIPv4 | errBadIHL | errBadTotalLength | errBadFragment

record ipv4Header =
  ih_ihl :: nat
  ih_totalLen :: nat
  ih_protocol :: u8
  ih_src :: addr
  ih_dst :: addr
  ih_payloadOff :: nat
  ih_id :: u16
  ih_moreFragments :: bool
  ih_fragOffset :: nat

definition isFragment :: "ipv4Header \<Rightarrow> bool" where
  "isFragment h \<longleftrightarrow> ih_moreFragments h \<or> ih_fragOffset h \<noteq> 0"

text \<open>The payload slice \<^verbatim>\<open>pkt[hdr.payloadOff:hdr.totalLen]\<close> that every caller takes.\<close>

definition ip_payload :: "ipv4Header \<Rightarrow> bytes \<Rightarrow> bytes" where
  "ip_payload hdr pkt = slice (ih_payloadOff hdr) (ih_totalLen hdr) pkt"

section \<open>Operations\<close>

definition parseIPv4 :: "bytes \<Rightarrow> ipv4_error + ipv4Header" where
  "parseIPv4 pkt =
     (if length pkt < minIPv4HeaderLen then Inl errTooShort
      else if drop_bit 4 (pkt ! 0) \<noteq> 4 then Inl errNotIPv4
      else
        let ihl = unat (pkt ! 0 AND 0x0F) * 4 in
        if ihl < minIPv4HeaderLen \<or> ihl > length pkt then Inl errBadIHL
        else
          let totalLen = unat (get16 (slice 2 4 pkt)) in
          if totalLen < ihl \<or> totalLen > length pkt then Inl errBadTotalLength
          else
            let ident = get16 (slice 4 6 pkt);
                flagsFragOffset = get16 (slice 6 8 pkt);
                moreFragments = (flagsFragOffset AND flagMoreFragments \<noteq> 0);
                fragOffset = unat (flagsFragOffset AND fragOffsetMask) * 8;
                payloadLen = totalLen - ihl in
            if (moreFragments \<or> fragOffset \<noteq> 0)
               \<and> (payloadLen = 0 \<or> moreFragments \<and> payloadLen mod 8 \<noteq> 0
                  \<or> fragOffset + payloadLen > maxIPv4Datagram)
            then Inl errBadFragment
            else Inr \<lparr> ih_ihl = ihl, ih_totalLen = totalLen, ih_protocol = pkt ! 9,
                        ih_src = AddrFrom4 (slice 12 16 pkt), ih_dst = AddrFrom4 (slice 16 20 pkt),
                        ih_payloadOff = ihl, ih_id = ident, ih_moreFragments = moreFragments,
                        ih_fragOffset = fragOffset \<rparr>)"

definition buildIPv4 :: "bytes \<Rightarrow> addr \<Rightarrow> addr \<Rightarrow> u8 \<Rightarrow> bytes \<Rightarrow> bytes" where
  "buildIPv4 dst src dstAddr protocol payload = BuildIPv4 dst src dstAddr protocol payload"

definition internetChecksum :: "bytes \<Rightarrow> u16" where
  "internetChecksum b = InternetChecksum b"

definition pseudoHeaderSum :: "addr \<Rightarrow> addr \<Rightarrow> u8 \<Rightarrow> u16 \<Rightarrow> u32" where
  "pseudoHeaderSum src dst protocol len = PseudoHeaderSum src dst protocol len"

definition transportChecksum :: "addr \<Rightarrow> addr \<Rightarrow> u8 \<Rightarrow> bytes \<Rightarrow> u16" where
  "transportChecksum src dst protocol payload = TransportChecksum src dst protocol payload"

text \<open>One iteration of the fragmenting loop: the fragment that starts at \<open>off\<close>.\<close>

definition fragment_at :: "ipv4Header \<Rightarrow> bytes \<Rightarrow> bytes \<Rightarrow> nat \<Rightarrow> u16 \<Rightarrow> nat \<Rightarrow> bytes" where
  "fragment_at hdr pkt payload maxData ident off =
     (let end = min (off + maxData) (length payload);
          chunk = slice off end payload;
          frag0 = take (ih_ihl hdr) pkt @ chunk;
          frag1 = overwrite 2 (be16 (of_nat (ih_ihl hdr + length chunk))) frag0;
          frag2 = overwrite 4 (be16 ident) frag1;
          off0 = of_nat (off div 8);
          flagsFragOffset = (if end < length payload then off0 OR flagMoreFragments else off0);
          frag3 = overwrite 6 (be16 flagsFragOffset) frag2;
          frag4 = overwrite 10 [0, 0] frag3
      in overwrite 10 (be16 (internetChecksum (take (ih_ihl hdr) frag4))) frag4)"

text \<open>
  The loop itself; its guard repeats \<open>0 < maxData\<close>, which the caller has established, so
  that the recursion is seen to end.
\<close>

function fragment_loop :: "ipv4Header \<Rightarrow> bytes \<Rightarrow> bytes \<Rightarrow> nat \<Rightarrow> u16 \<Rightarrow> nat \<Rightarrow> bytes list" where
  "fragment_loop hdr pkt payload maxData ident off =
     (if off < length payload \<and> 0 < maxData
      then fragment_at hdr pkt payload maxData ident off
           # fragment_loop hdr pkt payload maxData ident (off + maxData)
      else [])"
  by pat_completeness auto

termination fragment_loop
  by (relation "measure (\<lambda>(hdr, pkt, payload, maxData, ident, off). length payload - off)") auto

declare fragment_loop.simps [simp del]

definition fragmentIPv4 :: "ipv4Header \<Rightarrow> bytes \<Rightarrow> nat \<Rightarrow> u16 \<Rightarrow> bytes list" where
  "fragmentIPv4 hdr pkt mtu ident =
     (let maxData = (mtu - ih_ihl hdr) div 8 * 8 in
      if maxData = 0 then []
      else fragment_loop hdr pkt (ip_payload hdr pkt) maxData ident 0)"

section \<open>Header fields\<close>

lemma overwrite_overwrite:
  "i + length ys \<le> length xs \<Longrightarrow> length zs = length ys \<Longrightarrow>
   overwrite i zs (overwrite i ys xs) = overwrite i zs xs"
  by (rule nth_equalityI) (auto simp: overwrite_nth)

lemma overwrite_nth_0: "0 < i \<Longrightarrow> i \<le> length xs \<Longrightarrow> overwrite i ys xs ! 0 = xs ! 0"
  by (simp add: overwrite_def nth_append)

lemma take_overwrite:
  "i + length ys \<le> k \<Longrightarrow> k \<le> length xs \<Longrightarrow>
   take k (overwrite i ys xs) = overwrite i ys (take k xs)"
  by (rule nth_equalityI) (auto simp: overwrite_nth)

lemma drop_overwrite:
  "i + length ys \<le> k \<Longrightarrow> k \<le> length xs \<Longrightarrow> drop k (overwrite i ys xs) = drop k xs"
  by (rule nth_equalityI) (auto simp: overwrite_nth)

lemma slice_take: "j \<le> k \<Longrightarrow> slice i j (take k xs) = slice i j xs"
  by (simp add: slice_def drop_take min_def)

lemma slice_append_left: "j \<le> length xs \<Longrightarrow> slice i j (xs @ ys) = slice i j xs"
  by (simp add: slice_def)

lemma unat_of_nat_u16: "n < 65536 \<Longrightarrow> unat (of_nat n :: u16) = n"
  by (simp add: unsigned_of_nat take_bit_eq_mod)

text \<open>
  The 16-bit flags word: an offset below 8192 units and the more-fragments bit do not
  disturb each other.
\<close>

lemma offset_field:
  assumes "n < 8192"
  shows "(of_nat n :: u16) AND fragOffsetMask = of_nat n"
    and "((of_nat n :: u16) OR flagMoreFragments) AND fragOffsetMask = of_nat n"
    and "(of_nat n :: u16) AND flagMoreFragments = 0"
    and "((of_nat n :: u16) OR flagMoreFragments) AND flagMoreFragments = flagMoreFragments"
proof -
  have fm: "fragOffsetMask = mask 13" and mf: "flagMoreFragments = push_bit 13 1"
    by (simp_all add: govpn_consts mask_eq_exp_minus_1)
  have n: "(of_nat n :: u16) = take_bit 13 (of_nat n)"
  proof (rule unsigned_word_eqI [where ?'a = nat])
    show "unat (of_nat n :: u16) = unat (take_bit 13 (of_nat n :: u16))"
      unfolding unsigned_take_bit_eq using assms
      by (simp only: unat_of_nat_u16 take_bit_eq_mod) simp
  qed
  have top: "\<not> bit (of_nat n :: u16) k" if "13 \<le> k" for k
    by (subst n) (use that in \<open>simp add: bit_take_bit_iff\<close>)
  show "(of_nat n :: u16) AND fragOffsetMask = of_nat n"
    using n by (simp add: fm take_bit_eq_mask)
  show "((of_nat n :: u16) OR flagMoreFragments) AND fragOffsetMask = of_nat n"
    using n by (simp add: bit.conj_disj_distrib2 fm take_bit_eq_mask) (simp add: mf mask_eq_exp_minus_1)
  have "fragOffsetMask AND flagMoreFragments = 0"
    by (simp add: govpn_consts)
  then show "(of_nat n :: u16) AND flagMoreFragments = 0"
    using n by (metis fm take_bit_eq_mask and.assoc and_zero_eq)
  show "((of_nat n :: u16) OR flagMoreFragments) AND flagMoreFragments = flagMoreFragments"
    by (rule bit_word_eqI) (auto simp: mf bit_simps)
qed

lemma ihl_le: "unat ((x :: u8) AND 0x0F) * 4 \<le> 60"
proof -
  have "unat (x AND 0x0F) \<le> 15"
    using word_and_le1 [of x "0x0F"] by (simp add: word_le_nat_alt)
  then show ?thesis by simp
qed

section \<open>What a successful parse says\<close>

lemma parse_inv:
  assumes "parseIPv4 pkt = Inr hdr"
  shows "20 \<le> ih_ihl hdr" and "ih_ihl hdr \<le> 60" and "ih_ihl hdr \<le> ih_totalLen hdr"
    and "ih_totalLen hdr \<le> length pkt" and "ih_totalLen hdr \<le> 65535"
    and "ih_payloadOff hdr = ih_ihl hdr" and "even (ih_ihl hdr)"
    and "drop_bit 4 (pkt ! 0) = 4" and "unat (pkt ! 0 AND 0x0F) * 4 = ih_ihl hdr"
    and "pkt ! 9 = ih_protocol hdr" and "AddrFrom4 (slice 12 16 pkt) = ih_src hdr"
    and "AddrFrom4 (slice 16 20 pkt) = ih_dst hdr"
    and "isFragment hdr \<Longrightarrow> ih_ihl hdr < ih_totalLen hdr"
    and "ih_moreFragments hdr \<Longrightarrow> 8 dvd ih_totalLen hdr - ih_ihl hdr"
    and "isFragment hdr \<Longrightarrow> ih_fragOffset hdr + (ih_totalLen hdr - ih_ihl hdr) \<le> 65535"
    and "8 dvd ih_fragOffset hdr"
  using assms ihl_le [of "pkt ! 0"] unat_u16_less [of "get16 (slice 2 4 pkt)"]
  by (auto simp: parseIPv4_def Let_def govpn_consts isFragment_def split: if_splits)

lemma parse_eqI:
  assumes "parseIPv4 pkt = Inr hdr" and "20 \<le> length p"
    and "p ! 0 = pkt ! 0" and "p ! 9 = pkt ! 9"
    and "slice 12 16 p = slice 12 16 pkt" and "slice 16 20 p = slice 16 20 pkt"
    and "slice 2 4 p = be16 (of_nat tot)" and "ih_ihl hdr \<le> tot" and "tot \<le> length p" and "tot \<le> 65535"
    and "slice 4 6 p = be16 ident" and "slice 6 8 p = be16 ff"
    and "mf \<longleftrightarrow> ff AND flagMoreFragments \<noteq> 0" and "fo = unat (ff AND fragOffsetMask) * 8"
    and "mf \<or> fo \<noteq> 0 \<Longrightarrow> ih_ihl hdr < tot" and "mf \<Longrightarrow> 8 dvd tot - ih_ihl hdr"
    and "mf \<or> fo \<noteq> 0 \<Longrightarrow> fo + (tot - ih_ihl hdr) \<le> 65535"
  shows "parseIPv4 p = Inr (hdr\<lparr>ih_totalLen := tot, ih_id := ident, ih_moreFragments := mf,
    ih_fragOffset := fo\<rparr>)"
proof -
  note inv = parse_inv [OF assms(1)]
  have "get16 (slice 2 4 p) = of_nat tot" "get16 (slice 4 6 p) = ident" "get16 (slice 6 8 p) = ff"
    using assms(7,11,12) u16c.dec_enc_Nil by simp_all
  moreover have "unat (of_nat tot :: u16) = tot"
    using assms(10) by (simp add: unat_of_nat_u16)
  moreover have "ih_ihl hdr \<le> length p"
    using assms(8,9) by simp
  moreover have geometry: "\<not> ((mf \<or> fo \<noteq> 0) \<and> (tot - ih_ihl hdr = 0
    \<or> mf \<and> (tot - ih_ihl hdr) mod 8 \<noteq> 0 \<or> fo + (tot - ih_ihl hdr) > 65535))"
  proof (cases "mf \<or> fo \<noteq> 0")
    case True
    then show ?thesis
      using assms(15) [OF True] assms(16) assms(17) [OF True] by (auto simp: dvd_eq_mod_eq_0)
  qed simp
  ultimately show ?thesis
    using assms(2-6,8-10,13-14) inv(1-12) geometry
    by (cases hdr) (simp add: parseIPv4_def Let_def minIPv4HeaderLen_def MinIPv4HeaderLen_def
        maxIPv4Datagram_def not_less)
qed

section \<open>Rewriting a header in place\<close>

text \<open>
  What the fragmenter and the reassembler do to a copied header: four two-byte fields are
  overwritten and everything else of it stays.
\<close>

definition patched :: "bytes \<Rightarrow> bytes \<Rightarrow> bytes \<Rightarrow> bytes \<Rightarrow> bytes \<Rightarrow> bytes" where
  "patched len ident ff cks b =
     overwrite 10 cks (overwrite 6 ff (overwrite 4 ident (overwrite 2 len b)))"

lemma patched_fields:
  assumes "20 \<le> length b" and "length len = 2" and "length ident = 2" and "length ff = 2"
    and "length cks = 2"
  shows "length (patched len ident ff cks b) = length b"
    and "patched len ident ff cks b ! 0 = b ! 0" and "patched len ident ff cks b ! 9 = b ! 9"
    and "slice 12 16 (patched len ident ff cks b) = slice 12 16 b"
    and "slice 16 20 (patched len ident ff cks b) = slice 16 20 b"
    and "slice 2 4 (patched len ident ff cks b) = len"
    and "slice 4 6 (patched len ident ff cks b) = ident"
    and "slice 6 8 (patched len ident ff cks b) = ff"
    and "20 \<le> k \<Longrightarrow> k \<le> length b \<Longrightarrow> drop k (patched len ident ff cks b) = drop k b"
  using assms by (simp_all add: patched_def overwrite_nth overwrite_nth_0 govpn_slices drop_overwrite)

lemma patched_verifies:
  assumes "even k" and "20 \<le> k" and "k \<le> length b" and "k \<le> 65535"
    and "length len = 2" and "length ident = 2" and "length ff = 2"
    and "h = take k (patched len ident ff [0, 0] b)"
  shows "internetChecksum (take k (patched len ident ff (be16 (internetChecksum h)) b)) = 0"
proof -
  let ?b = "overwrite 6 ff (overwrite 4 ident (overwrite 2 len b))"
  have len: "length ?b = length b"
    using assms by simp
  have h: "h = overwrite 10 [0, 0] (take k ?b)"
    using assms len by (simp add: patched_def take_overwrite)
  have "take k (patched len ident ff (be16 (internetChecksum h)) b)
    = overwrite 10 (be16 (internetChecksum h)) (take k ?b)"
    using assms len by (simp add: patched_def take_overwrite)
  also have "\<dots> = overwrite 10 (be16 (InternetChecksum h)) h"
    using assms(2,3) len unfolding h by (simp add: overwrite_overwrite internetChecksum_def)
  finally have eq: "take k (patched len ident ff (be16 (internetChecksum h)) b)
    = overwrite 10 (be16 (InternetChecksum h)) h" .
  have "InternetChecksum (overwrite 10 (be16 (InternetChecksum h)) h) = 0"
    by (rule internet.field_written_verifies)
      (use assms(2-4) len in \<open>simp_all add: h overwrite_nth\<close>)
  then show ?thesis
    unfolding eq by (simp add: internetChecksum_def)
qed

section \<open>The builder and the parser\<close>

lemma BuildIPv4_shape:
  "\<exists>c. BuildIPv4 [] src dst proto payload =
     [0x45, 0] @ be16 (of_nat (20 + length payload)) @ [0, 0, 0, 0, 64, proto] @ be16 c
     @ As4 src @ As4 dst @ payload"
  by (intro exI) (simp add: BuildIPv4_def Let_def govpn_consts overwrite_def be16_def; fail)

lemma buildIPv4_checksum:
  "internetChecksum (take 20 (buildIPv4 [] src dst proto payload)) = 0"
  using internet.field_written_verifies [of 10 "[0x45, 0] @ be16 (of_nat (20 + length payload))
      @ be16 0 @ be16 0 @ [64, proto, 0, 0] @ As4 src @ As4 dst"]
  by (simp add: buildIPv4_def BuildIPv4_def Let_def govpn_consts internetChecksum_def nth_append
      be16_def)

definition built_header :: "addr \<Rightarrow> addr \<Rightarrow> u8 \<Rightarrow> nat \<Rightarrow> ipv4Header" where
  "built_header src dst proto n =
     \<lparr> ih_ihl = 20, ih_totalLen = 20 + n, ih_protocol = proto, ih_src = src, ih_dst = dst,
       ih_payloadOff = 20, ih_id = 0, ih_moreFragments = False, ih_fragOffset = 0 \<rparr>"

lemma parse_buildIPv4:
  assumes "length payload \<le> 65515"
  shows "parseIPv4 (buildIPv4 [] src dst proto payload)
    = Inr (built_header src dst proto (length payload))"
proof -
  obtain c where pkt: "buildIPv4 [] src dst proto payload =
    [0x45, 0] @ be16 (of_nat (20 + length payload)) @ [0, 0, 0, 0, 64, proto] @ be16 c
    @ As4 src @ As4 dst @ payload" (is "_ = ?p")
    using BuildIPv4_shape unfolding buildIPv4_def by blast
  have "slice 2 4 ?p = be16 (of_nat (20 + length payload))" "slice 4 6 ?p = be16 0"
    "slice 6 8 ?p = be16 0" "slice 12 16 ?p = As4 src" "slice 16 20 ?p = As4 dst"
    "?p ! 9 = proto" "?p ! 0 = 0x45"
    by (simp_all add: slice_def be16_def numeral_eq_Suc As4_def be32_def)
  then show ?thesis
    unfolding pkt using assms
    by (simp add: parseIPv4_def Let_def govpn_consts u16c.dec_enc_Nil built_header_def
        unat_of_nat_u16 del: of_nat_add append_Cons)
qed

lemma payload_buildIPv4:
  "ip_payload (built_header src dst proto (length payload)) (buildIPv4 [] src dst proto payload)
   = payload"
  by (simp add: ip_payload_def built_header_def slice_def buildIPv4_def BuildIPv4_def Let_def
      govpn_consts)

section \<open>Fragments\<close>

text \<open>The header a receiver parses from the fragment at \<open>off\<close>.\<close>

definition fragment_header :: "ipv4Header \<Rightarrow> nat \<Rightarrow> nat \<Rightarrow> u16 \<Rightarrow> nat \<Rightarrow> ipv4Header" where
  "fragment_header hdr plen maxData ident off =
     hdr\<lparr>ih_totalLen := ih_ihl hdr + (min (off + maxData) plen - off), ih_id := ident,
         ih_moreFragments := off + maxData < plen, ih_fragOffset := off\<rparr>"

lemma length_ip_payload:
  "parseIPv4 pkt = Inr hdr \<Longrightarrow> length (ip_payload hdr pkt) = ih_totalLen hdr - ih_ihl hdr"
  using parse_inv [of pkt hdr] by (simp add: ip_payload_def)

lemma fragment_at_patched:
  assumes "parseIPv4 pkt = Inr hdr" and "payload = ip_payload hdr pkt"
  obtains ff h where "fragment_at hdr pkt payload maxData ident off =
      patched (be16 (of_nat (ih_ihl hdr + (min (off + maxData) (length payload) - off)))) (be16 ident)
        (be16 ff) (be16 (internetChecksum h))
        (take (ih_ihl hdr) pkt @ slice off (min (off + maxData) (length payload)) payload)"
    and "h = take (ih_ihl hdr) (patched
        (be16 (of_nat (ih_ihl hdr + (min (off + maxData) (length payload) - off)))) (be16 ident)
        (be16 ff) [0, 0]
        (take (ih_ihl hdr) pkt @ slice off (min (off + maxData) (length payload)) payload))"
    and "ff = (if off + maxData < length payload then of_nat (off div 8) OR flagMoreFragments
               else of_nat (off div 8))"
proof -
  have ihl: "20 \<le> ih_ihl hdr" "ih_ihl hdr \<le> length pkt"
    using parse_inv [OF assms(1)] by simp_all
  have clen: "length (slice off (min (off + maxData) (length payload)) payload)
    = min (off + maxData) (length payload) - off"
    by simp
  have last: "min (off + maxData) (length payload) < length payload
    \<longleftrightarrow> off + maxData < length payload"
    by auto
  show ?thesis
    by (rule that [OF _ refl refl], unfold fragment_at_def Let_def clen last)
      (use ihl in \<open>simp add: patched_def overwrite_overwrite del: of_nat_add\<close>)
qed

lemma fragment_at_correct:
  assumes hdr: "parseIPv4 pkt = Inr hdr" and p: "payload = ip_payload hdr pkt"
    and off: "off < length payload" "8 dvd off" and md: "0 < maxData" "8 dvd maxData"
    and f_def: "f = fragment_at hdr pkt payload maxData ident off"
    and h'_def: "h' = fragment_header hdr (length payload) maxData ident off"
  shows "parseIPv4 f = Inr h'" and "length f \<le> ih_ihl hdr + maxData"
    and "ip_payload h' f = take maxData (drop off payload)"
    and "internetChecksum (take (ih_ihl hdr) f) = 0"
    and "length f = ih_totalLen h'"
proof -
  note inv = parse_inv [OF hdr]
  have plen: "ih_ihl hdr + length payload \<le> 65535"
    using inv p length_ip_payload [OF hdr] by simp
  let ?n = "min (off + maxData) (length payload) - off"
  let ?b = "take (ih_ihl hdr) pkt @ slice off (min (off + maxData) (length payload)) payload"
  obtain ff h where f: "f = patched (be16 (of_nat (ih_ihl hdr + ?n))) (be16 ident) (be16 ff)
      (be16 (internetChecksum h)) ?b"
    and h: "h = take (ih_ihl hdr) (patched (be16 (of_nat (ih_ihl hdr + ?n))) (be16 ident)
        (be16 ff) [0, 0] ?b)"
    and ff: "ff = (if off + maxData < length payload then of_nat (off div 8) OR flagMoreFragments
               else of_nat (off div 8))"
    unfolding f_def
    by (rule fragment_at_patched [OF hdr p, where maxData = maxData and ident = ident and off = off])
  have b: "length ?b = ih_ihl hdr + ?n" "20 \<le> length ?b"
    using inv by simp_all
  note fields = patched_fields [OF b(2) length_be16 length_be16 length_be16 length_be16]
  have base: "?b ! 0 = pkt ! 0" "?b ! 9 = pkt ! 9" "slice 12 16 ?b = slice 12 16 pkt"
    "slice 16 20 ?b = slice 16 20 pkt"
    using inv(1,3,4) by (auto simp: nth_append slice_append_left slice_take)
  have o8: "off div 8 < 8192" "off div 8 * 8 = off"
    using plen off inv(1) by auto
  have mf: "off + maxData < length payload \<longleftrightarrow> ff AND flagMoreFragments \<noteq> 0"
    and fo: "off = unat (ff AND fragOffsetMask) * 8"
    using o8 offset_field [OF o8(1)] by (auto simp: ff unat_of_nat_u16 flagMoreFragments_def
        FlagMoreFragments_def)
  show "parseIPv4 f = Inr h'"
    unfolding h'_def fragment_header_def
  proof (rule parse_eqI [OF hdr, where ff = ff])
    show "20 \<le> length f" "ih_ihl hdr + ?n \<le> length f"
      using fields(1) b unfolding f by simp_all
    show "f ! 0 = pkt ! 0" "f ! 9 = pkt ! 9" "slice 12 16 f = slice 12 16 pkt"
      "slice 16 20 f = slice 16 20 pkt"
      unfolding f fields(2-5) by (rule base)+
    show "slice 2 4 f = be16 (of_nat (ih_ihl hdr + ?n))" "slice 4 6 f = be16 ident"
      "slice 6 8 f = be16 ff"
      unfolding f by (rule fields(6-8))+
    show "8 dvd ih_ihl hdr + ?n - ih_ihl hdr" if "off + maxData < length payload"
      using that md off by simp
    show "off + maxData < length payload \<longleftrightarrow> ff AND flagMoreFragments \<noteq> 0"
      "off = unat (ff AND fragOffsetMask) * 8"
      by (rule mf fo)+
  qed (use plen off md in auto)
  show "length f = ih_totalLen h'" "length f \<le> ih_ihl hdr + maxData"
    using fields(1) b(1) by (simp_all add: f h'_def fragment_header_def)
  have "drop (ih_ihl hdr) f = slice off (min (off + maxData) (length payload)) payload"
    using fields(9) inv(1,3,4) b(1) by (simp add: f)
  then show "ip_payload h' f = take maxData (drop off payload)"
    using inv(6) by (auto simp: ip_payload_def slice_def h'_def fragment_header_def min_def)
  show "internetChecksum (take (ih_ihl hdr) f) = 0"
    unfolding f
    by (rule patched_verifies [OF inv(7) inv(1) _ _ length_be16 length_be16 length_be16 h])
      (use inv(2-4) in simp_all)
qed

lemma chunk_in_range: "0 < m \<Longrightarrow> i * m < n \<longleftrightarrow> i < (n + m - 1) div m" for i m n :: nat
  using div_less_iff_less_mult [of m "n + m - 1" "Suc i"]
  by (auto simp: not_less [symmetric] less_Suc_eq_le)

text \<open>
  The loop: one fragment per multiple of \<open>maxData\<close> below the payload's length, whose
  payloads put together are the payload from \<open>off\<close> on.
\<close>

lemma fragment_loop_map:
  assumes "0 < maxData"
  shows "fragment_loop hdr pkt payload maxData ident (k * maxData)
    = map (\<lambda>i. fragment_at hdr pkt payload maxData ident (i * maxData))
        [k..<(length payload + maxData - 1) div maxData]"
proof (induction "length payload - k * maxData" arbitrary: k rule: less_induct)
  case less
  have lt: "k * maxData < length payload \<longleftrightarrow> k < (length payload + maxData - 1) div maxData"
    using assms by (rule chunk_in_range)
  show ?case
  proof (cases "k * maxData < length payload")
    case True
    then have "fragment_loop hdr pkt payload maxData ident (k * maxData + maxData)
      = map (\<lambda>i. fragment_at hdr pkt payload maxData ident (i * maxData))
        [Suc k..<(length payload + maxData - 1) div maxData]"
      using less [of "Suc k"] assms by (simp add: add.commute)
    with True assms lt show ?thesis
      by (subst fragment_loop.simps) (simp add: upt_conv_Cons)
  next
    case False
    with lt show ?thesis
      by (subst fragment_loop.simps) simp
  qed
qed

lemma concat_chunks:
  assumes "0 < m" and "n \<le> (length xs + m - 1) div m"
  shows "concat (map (\<lambda>i. take m (drop (i * m) xs)) [0..<n]) = take (n * m) xs"
  using assms(2)
proof (induction n)
  case (Suc n)
  then show ?case
    by (simp add: take_add [symmetric] add.commute)
qed simp

lemma fragmentIPv4_map:
  assumes "m = (mtu - ih_ihl hdr) div 8 * 8" and "0 < m"
  shows "fragmentIPv4 hdr pkt mtu ident
    = map (\<lambda>i. fragment_at hdr pkt (ip_payload hdr pkt) m ident (i * m))
        [0..<(length (ip_payload hdr pkt) + m - 1) div m]"
  using fragment_loop_map [OF assms(2), of hdr pkt "ip_payload hdr pkt" ident 0] assms
  by (simp add: fragmentIPv4_def Let_def)

lemma fragment_payloads:
  assumes "parseIPv4 pkt = Inr hdr" and "m = (mtu - ih_ihl hdr) div 8 * 8" and "0 < m"
  shows "concat (map (drop (ih_ihl hdr)) (fragmentIPv4 hdr pkt mtu ident)) = ip_payload hdr pkt"
proof -
  let ?p = "ip_payload hdr pkt" and ?n = "(length (ip_payload hdr pkt) + m - 1) div m"
  let ?f = "\<lambda>i. fragment_at hdr pkt ?p m ident (i * m)"
  have m: "8 dvd m"
    using assms(2) by simp
  have "drop (ih_ihl hdr) (?f i) = take m (drop (i * m) ?p)" if "i < ?n" for i
    using fragment_at_correct(3,5) [OF assms(1) refl _ dvd_mult [OF m] assms(3) m refl refl, of i]
      that chunk_in_range [OF assms(3), of i "length ?p"] parse_inv(6) [OF assms(1)]
    by (simp add: ip_payload_def slice_def fragment_header_def)
  then have "concat (map (drop (ih_ihl hdr)) (fragmentIPv4 hdr pkt mtu ident))
    = concat (map (\<lambda>i. take m (drop (i * m) ?p)) [0..<?n])"
    unfolding fragmentIPv4_map [OF assms(2,3)] by (intro arg_cong [where f = concat]) simp
  also have "\<dots> = ?p"
    using concat_chunks [OF assms(3) order_refl, of ?p]
      chunk_in_range [OF assms(3), of ?n "length ?p"] by simp
  finally show ?thesis .
qed

lemma fragment_list:
  assumes "parseIPv4 pkt = Inr hdr" and "ih_ihl hdr + 8 \<le> mtu"
    and m_def: "m = (mtu - ih_ihl hdr) div 8 * 8"
    and "i < length (fragmentIPv4 hdr pkt mtu ident)"
  shows "length (fragmentIPv4 hdr pkt mtu ident ! i) \<le> mtu"
    and "internetChecksum (take (ih_ihl hdr) (fragmentIPv4 hdr pkt mtu ident ! i)) = 0"
    and "parseIPv4 (fragmentIPv4 hdr pkt mtu ident ! i) =
      Inr (hdr\<lparr>ih_totalLen := length (fragmentIPv4 hdr pkt mtu ident ! i), ih_id := ident,
        ih_moreFragments := Suc i < length (fragmentIPv4 hdr pkt mtu ident), ih_fragOffset := i * m\<rparr>)"
proof -
  let ?p = "ip_payload hdr pkt" and ?frags = "fragmentIPv4 hdr pkt mtu ident"
  have m: "0 < m" "8 dvd m" "ih_ihl hdr + m \<le> mtu"
    using assms(2,3) by (auto simp: div_greater_zero_iff)
  note frags = fragmentIPv4_map [OF m_def m(1), of pkt ident]
  have i: "i * m < length ?p" and n: "length ?frags = (length ?p + m - 1) div m"
    and fi: "?frags ! i = fragment_at hdr pkt ?p m ident (i * m)"
    using assms(4) chunk_in_range [OF m(1)] by (simp_all add: frags)
  note c = fragment_at_correct [OF assms(1) refl i dvd_mult [OF m(2)] m(1,2) refl refl, of ident]
  show "length (?frags ! i) \<le> mtu" "internetChecksum (take (ih_ihl hdr) (?frags ! i)) = 0"
    using c(2,4) m(3) fi by simp_all
  show "parseIPv4 (?frags ! i) = Inr (hdr\<lparr>ih_totalLen := length (?frags ! i), ih_id := ident,
        ih_moreFragments := Suc i < length ?frags, ih_fragOffset := i * m\<rparr>)"
    using c(1,5) fi chunk_in_range [OF m(1), of "Suc i" "length ?p"]
    by (simp add: fragment_header_def n add.commute)
qed

section \<open>Properties\<close>

text \<open>
  Any payload that fits a datagram is recovered from the packet \<^verbatim>\<open>buildIPv4\<close>
  makes of it: the packet parses to an unfragmented header with the given addresses and
  protocol, its payload slice is the payload, and its header checksum verifies.
\<close>

theorem ipv4_build_parse_roundtrip:
  assumes "length payload \<le> 65515"
  shows "\<exists>h. parseIPv4 (buildIPv4 [] src dst proto payload) = Inr h
    \<and> ih_src h = src \<and> ih_dst h = dst \<and> ih_protocol h = proto \<and> \<not> isFragment h
    \<and> ip_payload h (buildIPv4 [] src dst proto payload) = payload
    \<and> internetChecksum (take (ih_ihl h) (buildIPv4 [] src dst proto payload)) = 0"
  using parse_buildIPv4 [OF assms, of src dst proto] payload_buildIPv4 [of src dst proto payload]
    buildIPv4_checksum [of src dst proto payload]
  by (intro exI [of _ "built_header src dst proto (length payload)"])
    (simp add: built_header_def isFragment_def)

theorem ipv4_build_parse_roundtrip_witness:
  "\<exists>h. parseIPv4 (buildIPv4 [] 0x0A080001 0x0A080002 17 [1, 2, 3]) = Inr h
    \<and> ih_src h = 0x0A080001 \<and> ih_dst h = 0x0A080002 \<and> ih_protocol h = 17 \<and> \<not> isFragment h
    \<and> ip_payload h (buildIPv4 [] 0x0A080001 0x0A080002 17 [1, 2, 3]) = [1, 2, 3]
    \<and> internetChecksum (take (ih_ihl h) (buildIPv4 [] 0x0A080001 0x0A080002 17 [1, 2, 3])) = 0"
  by (rule ipv4_build_parse_roundtrip) simp

text \<open>
  C14. For every well-formed packet and every MTU that leaves room for eight bytes of
  payload: each fragment fits the MTU, its header checksum verifies, it parses to the
  original addresses, protocol and header length with the given identification, the
  offset its position dictates and the more-fragments bit on all but the last; and the
  fragments' payloads put together in order are the packet's payload.
\<close>

theorem fragments_fit_and_partition:
  assumes "parseIPv4 pkt = Inr hdr" and "ih_ihl hdr + 8 \<le> mtu"
    and "frags = fragmentIPv4 hdr pkt mtu ident" and "m = (mtu - ih_ihl hdr) div 8 * 8"
  shows "(\<forall>i<length frags. length (frags ! i) \<le> mtu
      \<and> internetChecksum (take (ih_ihl hdr) (frags ! i)) = 0
      \<and> parseIPv4 (frags ! i) = Inr (hdr\<lparr>ih_totalLen := length (frags ! i), ih_id := ident,
          ih_moreFragments := Suc i < length frags, ih_fragOffset := i * m\<rparr>))
    \<and> concat (map (drop (ih_ihl hdr)) frags) = ip_payload hdr pkt"
proof (intro conjI allI impI)
  fix i
  assume "i < length frags"
  note f = fragment_list [OF assms(1,2,4), of i ident, folded assms(3), OF this]
  show "length (frags ! i) \<le> mtu" "internetChecksum (take (ih_ihl hdr) (frags ! i)) = 0"
    "parseIPv4 (frags ! i) = Inr (hdr\<lparr>ih_totalLen := length (frags ! i), ih_id := ident,
       ih_moreFragments := Suc i < length frags, ih_fragOffset := i * m\<rparr>)"
    by (rule f)+
next
  have "0 < m"
    using assms(2,4) by (auto simp: div_greater_zero_iff)
  then show "concat (map (drop (ih_ihl hdr)) frags) = ip_payload hdr pkt"
    using fragment_payloads [OF assms(1,4)] assms(3) by simp
qed

theorem fragments_fit_and_partition_witness:
  "(let pkt = buildIPv4 [] 0x0A080001 0x0A080002 17 [1, 2, 3, 4, 5, 6, 7, 8, 9, 10];
        hdr = built_header 0x0A080001 0x0A080002 17 10;
        frags = fragmentIPv4 hdr pkt 30 7
    in length frags = 2 \<and> length (frags ! 1) \<le> 30
       \<and> parseIPv4 (frags ! 1) = Inr (hdr\<lparr>ih_totalLen := length (frags ! 1), ih_id := 7,
            ih_moreFragments := False, ih_fragOffset := 8\<rparr>)
       \<and> concat (map (drop 20) frags) = [1, 2, 3, 4, 5, 6, 7, 8, 9, 10])"
proof -
  let ?q = "[1, 2, 3, 4, 5, 6, 7, 8, 9, 10] :: bytes"
  let ?pkt = "buildIPv4 [] 0x0A080001 0x0A080002 17 ?q"
  let ?hdr = "built_header 0x0A080001 0x0A080002 17 10"
  have hdr: "parseIPv4 ?pkt = Inr ?hdr" "ip_payload ?hdr ?pkt = ?q" "ih_ihl ?hdr = 20"
    using parse_buildIPv4 [of ?q] payload_buildIPv4 [of _ _ _ ?q]
    by (simp_all add: built_header_def)
  have "length (fragmentIPv4 ?hdr ?pkt 30 7) = 2"
    by (subst fragmentIPv4_map [OF refl]) (simp_all add: hdr)
  with hdr fragments_fit_and_partition [OF hdr(1) _ refl refl, of 30 7] show ?thesis
    by (simp add: Let_def numeral_2_eq_2)
qed

end
