(* ===== verification/Reassembly.thy ===== *)
theory Reassembly
  imports Ipv4
begin

text \<open>
  \<^verbatim>\<open>netstack/reassembly.go\<close>: the reassembly of IPv4 fragments of one attached session,
  by the RFC 815 list of holes. The Go map of buffers is an association list with distinct
  keys: iteration order plays no part, and its length is the number of buffers. The
  payload length that is \<open>-1\<close> until the final fragment reveals it is an option, and so is
  the header that is nil until the first fragment arrives. The mutex makes each call one
  atomic step.
\<close>

unbundle bit_operations_syntax

section \<open>State\<close>

definition maxReassemblyBuffersPerSession :: nat where
  "maxReassemblyBuffersPerSession = 16"

definition maxReassemblyBytesPerSession :: nat where
  "maxReassemblyBytesPerSession = 256 * 1024"

definition reassemblyTimeout :: duration where
  "reassemblyTimeout = 30 * 1000000000"

definition holeOpenEnd :: nat where
  "holeOpenEnd = maxIPv4Datagram - 1"

lemmas reassembly_consts [govpn_consts] =
  maxReassemblyBuffersPerSession_def maxReassemblyBytesPerSession_def reassemblyTimeout_def
  holeOpenEnd_def

record reassemblyKey =
  rk_src :: addr
  rk_dst :: addr
  rk_protocol :: u8
  rk_id :: u16

record hole =
  h_first :: nat
  h_last :: nat

record reassemblyBuffer =
  rb_header :: "bytes option"
  rb_data :: bytes
  rb_holes :: "hole list"
  rb_totalLen :: "nat option"
  rb_expires :: instant

record reassembler =
  ra_bufs :: "(reassemblyKey \<times> reassemblyBuffer) list"
  ra_bytes :: int
  ra_closed :: bool
  ra_maxBufs :: nat
  ra_maxBytes :: nat
  ra_timeout :: duration

definition resolveLimits :: "reassembler \<Rightarrow> nat \<times> nat \<times> duration" where
  "resolveLimits r =
     (if ra_maxBufs r = 0 then maxReassemblyBuffersPerSession else ra_maxBufs r,
      if ra_maxBytes r = 0 then maxReassemblyBytesPerSession else ra_maxBytes r,
      if ra_timeout r = 0 then reassemblyTimeout else ra_timeout r)"

datatype reasmOutcome =
  reasmBuffered | reasmComplete | reasmDuplicate | reasmConflict | reasmBoundExceeded | reasmClosed

section \<open>Operations\<close>

text \<open>Reading, deleting and storing an entry of the map of buffers.\<close>

definition buf_lookup :: "reassemblyKey \<Rightarrow> reassembler \<Rightarrow> reassemblyBuffer option" where
  "buf_lookup key r = map_of (ra_bufs r) key"

definition buf_delete :: "reassemblyKey \<Rightarrow> (reassemblyKey \<times> 'b) list \<Rightarrow> (reassemblyKey \<times> 'b) list" where
  "buf_delete key bufs = filter (\<lambda>kb. fst kb \<noteq> key) bufs"

definition buf_store :: "reassemblyKey \<Rightarrow> reassemblyBuffer \<Rightarrow> reassembler \<Rightarrow> reassembler" where
  "buf_store key b r = r\<lparr>ra_bufs := (key, b) # buf_delete key (ra_bufs r)\<rparr>"

definition dropLocked :: "reassemblyKey \<Rightarrow> reassemblyBuffer \<Rightarrow> reassembler \<Rightarrow> reassembler" where
  "dropLocked key b r =
     r\<lparr>ra_bytes := ra_bytes r - int (length (rb_data b)), ra_bufs := buf_delete key (ra_bufs r)\<rparr>"

definition discardAll :: "reassembler \<Rightarrow> reassembler" where
  "discardAll r = r\<lparr>ra_closed := True, ra_bufs := [], ra_bytes := 0\<rparr>"

text \<open>The expiry sweep: every buffer whose deadline is not after \<open>now\<close> is dropped.\<close>

fun sweep_loop ::
  "instant \<Rightarrow> (reassemblyKey \<times> reassemblyBuffer) list \<Rightarrow> reassembler \<Rightarrow> nat \<Rightarrow> reassembler \<times> nat" where
  "sweep_loop now [] r expired = (r, expired)"
| "sweep_loop now ((k, b) # kbs) r expired =
     (if \<not> now < rb_expires b then sweep_loop now kbs (dropLocked k b r) (expired + 1)
      else sweep_loop now kbs r expired)"

definition sweep :: "instant \<Rightarrow> reassembler \<Rightarrow> reassembler \<times> nat" where
  "sweep now r = sweep_loop now (ra_bufs r) r 0"

definition fragment_key :: "ipv4Header \<Rightarrow> reassemblyKey" where
  "fragment_key hdr = \<lparr> rk_src = ih_src hdr, rk_dst = ih_dst hdr, rk_protocol = ih_protocol hdr,
     rk_id = ih_id hdr \<rparr>"

definition new_buffer :: "instant \<Rightarrow> duration \<Rightarrow> reassemblyBuffer" where
  "new_buffer now timeout =
     \<lparr> rb_header = None, rb_data = [], rb_holes = [\<lparr> h_first = 0, h_last = holeOpenEnd \<rparr>],
       rb_totalLen = None, rb_expires = add_duration now timeout \<rparr>"

text \<open>
  The hole loop of RFC 815: what is left of one hole, and whether the fragment covered a
  part of it.
\<close>

definition cut_hole :: "nat \<Rightarrow> nat \<Rightarrow> bool \<Rightarrow> hole \<Rightarrow> hole list \<times> bool" where
  "cut_hole first lastb mf h =
     (if \<not> mf \<and> h_first h > lastb then ([], False)
      else if lastb < h_first h \<or> first > h_last h then ([h], False)
      else ((if first > h_first h then [\<lparr> h_first = h_first h, h_last = first - 1 \<rparr>] else [])
            @ (if lastb < h_last h \<and> mf then [\<lparr> h_first = lastb + 1, h_last = h_last h \<rparr>] else []),
            True))"

fun cut_holes :: "nat \<Rightarrow> nat \<Rightarrow> bool \<Rightarrow> hole list \<Rightarrow> hole list \<times> bool" where
  "cut_holes first lastb mf [] = ([], False)"
| "cut_holes first lastb mf (h # hs) =
     (let (l, i) = cut_hole first lastb mf h; (ls, is) = cut_holes first lastb mf hs
      in (l @ ls, i \<or> is))"

text \<open>Growing the data to reach \<open>lastb\<close>, then the unconditional copy: newer bytes win.\<close>

definition store_payload :: "nat \<Rightarrow> nat \<Rightarrow> bytes \<Rightarrow> bytes \<Rightarrow> bytes" where
  "store_payload first lastb payload data =
     overwrite first payload
       (if lastb + 1 > length data then data @ replicate (lastb + 1 - length data) 0 else data)"

definition finish_datagram :: "bytes \<Rightarrow> bytes \<Rightarrow> bytes" where
  "finish_datagram header data =
     (let out0 = header @ data;
          out1 = overwrite 2 (be16 (of_nat (length out0))) out0;
          out2 = overwrite 6 (be16 0) out1;
          out3 = overwrite 10 [0, 0] out2
      in overwrite 10 (be16 (internetChecksum (take (length header) out3))) out3)"

text \<open>The offset of a fragment's last payload byte, \<^verbatim>\<open>first + len(payload) - 1\<close>.\<close>

definition frag_last :: "ipv4Header \<Rightarrow> bytes \<Rightarrow> nat" where
  "frag_last hdr pkt = ih_fragOffset hdr + length (ip_payload hdr pkt) - 1"

text \<open>
  Consistency: data beyond an end that is already known, or a second final fragment that
  declares another end.
\<close>

definition contradicts :: "ipv4Header \<Rightarrow> bytes \<Rightarrow> reassemblyBuffer \<Rightarrow> bool" where
  "contradicts hdr pkt b \<longleftrightarrow>
     (case rb_totalLen b of None \<Rightarrow> False
      | Some t \<Rightarrow> t \<le> frag_last hdr pkt \<or> \<not> ih_moreFragments hdr \<and> t \<noteq> frag_last hdr pkt + 1)"

text \<open>A final fragment reveals the length; this happens before the byte cap is checked.\<close>

definition reveal_end :: "ipv4Header \<Rightarrow> bytes \<Rightarrow> reassemblyBuffer \<Rightarrow> reassemblyBuffer" where
  "reveal_end hdr pkt b =
     (if ih_moreFragments hdr then b else b\<lparr>rb_totalLen := Some (frag_last hdr pkt + 1)\<rparr>)"

text \<open>How far the fragment extends the data that is charged against the byte budget.\<close>

definition growth :: "ipv4Header \<Rightarrow> bytes \<Rightarrow> reassemblyBuffer \<Rightarrow> nat" where
  "growth hdr pkt b = frag_last hdr pkt + 1 - length (rb_data b)"

definition covers_missing :: "ipv4Header \<Rightarrow> bytes \<Rightarrow> reassemblyBuffer \<Rightarrow> bool" where
  "covers_missing hdr pkt b \<longleftrightarrow>
     snd (cut_holes (ih_fragOffset hdr) (frag_last hdr pkt) (ih_moreFragments hdr) (rb_holes b))"

text \<open>The buffer with its holes, its data and, for the first fragment, its header updated.\<close>

definition fill :: "ipv4Header \<Rightarrow> bytes \<Rightarrow> reassemblyBuffer \<Rightarrow> reassemblyBuffer" where
  "fill hdr pkt b =
     b\<lparr>rb_holes := fst (cut_holes (ih_fragOffset hdr) (frag_last hdr pkt) (ih_moreFragments hdr)
                         (rb_holes b)),
       rb_data := store_payload (ih_fragOffset hdr) (frag_last hdr pkt) (ip_payload hdr pkt)
                    (rb_data b),
       rb_header := (if ih_fragOffset hdr = 0 then Some (take (ih_ihl hdr) pkt) else rb_header b)\<rparr>"

text \<open>The completion test: no hole, the length known and reached, the header present.\<close>

definition complete_buffer :: "reassemblyBuffer \<Rightarrow> (bytes \<times> nat) option" where
  "complete_buffer b = (case (rb_totalLen b, rb_header b) of
       (Some t, Some h) \<Rightarrow> if rb_holes b = [] \<and> t \<le> length (rb_data b) then Some (h, t) else None
     | _ \<Rightarrow> None)"

text \<open>
  The part of \<^verbatim>\<open>add\<close> that follows the lookup, on the buffer found or created. Every
  branch gives the reassembler with the buffer as the code leaves it.
\<close>

definition add_to_buffer ::
  "nat \<Rightarrow> reassemblyKey \<Rightarrow> ipv4Header \<Rightarrow> bytes \<Rightarrow> reassemblyBuffer \<Rightarrow> reassembler
   \<Rightarrow> reassembler \<times> bytes option \<times> reasmOutcome" where
  "add_to_buffer maxBytes key hdr pkt b r =
     (if contradicts hdr pkt b then (dropLocked key b r, None, reasmConflict)
      else
        let b1 = reveal_end hdr pkt b; grow = growth hdr pkt b1 in
        if ra_bytes r + int grow > int maxBytes then (buf_store key b1 r, None, reasmBoundExceeded)
        else
          let b2 = fill hdr pkt b1;
              r2 = buf_store key b2 (r\<lparr>ra_bytes := ra_bytes r + int grow\<rparr>) in
          if \<not> covers_missing hdr pkt b1 then (r2, None, reasmDuplicate)
          else (case complete_buffer b2 of
                  None \<Rightarrow> (r2, None, reasmBuffered)
                | Some (h, t) \<Rightarrow>
                    if length h + t > maxIPv4Datagram
                    then (dropLocked key b2 r2, None, reasmConflict)
                    else (dropLocked key b2 r2, Some (finish_datagram h (take t (rb_data b2))),
                          reasmComplete)))"

definition add :: "instant \<Rightarrow> ipv4Header \<Rightarrow> bytes \<Rightarrow> reassembler
   \<Rightarrow> reassembler \<times> bytes option \<times> reasmOutcome \<times> nat" where
  "add now hdr pkt r =
     (if ra_closed r then (r, None, reasmClosed, 0)
      else
        let (maxBufs, maxBytes, timeout) = resolveLimits r;
            (r1, expired) = sweep now r;
            key = fragment_key hdr in
        (case buf_lookup key r1 of
           None \<Rightarrow>
             if length (ra_bufs r1) \<ge> maxBufs then (r1, None, reasmBoundExceeded, expired)
             else
               let b = new_buffer now timeout;
                   (r2, d, out) = add_to_buffer maxBytes key hdr pkt b (buf_store key b r1)
               in (r2, d, out, expired)
         | Some b \<Rightarrow>
             let (r2, d, out) = add_to_buffer maxBytes key hdr pkt b r1
             in (r2, d, out, expired)))"

section \<open>The holes as a set of missing offsets\<close>

definition hole_set :: "hole \<Rightarrow> nat set" where
  "hole_set h = {h_first h..h_last h}"

definition missing :: "hole list \<Rightarrow> nat set" where
  "missing hs = (\<Union>h\<in>set hs. hole_set h)"

definition holes_ok :: "hole list \<Rightarrow> bool" where
  "holes_ok hs \<longleftrightarrow> list_all (\<lambda>h. h_first h \<le> h_last h) hs"

lemma missing_simps [simp]:
  "missing [] = {}" "missing (h # hs) = hole_set h \<union> missing hs"
  "missing (hs @ hs') = missing hs \<union> missing hs'"
  by (auto simp: missing_def)

lemma holes_ok_simps [simp]:
  "holes_ok []" "holes_ok (h # hs) \<longleftrightarrow> h_first h \<le> h_last h \<and> holes_ok hs"
  "holes_ok (hs @ hs') \<longleftrightarrow> holes_ok hs \<and> holes_ok hs'"
  by (auto simp: holes_ok_def)

lemma missing_empty: "holes_ok hs \<Longrightarrow> missing hs = {} \<longleftrightarrow> hs = []"
  by (cases hs) (auto simp: hole_set_def)

text \<open>The offsets a fragment settles: its own, and all beyond it when it is the final one.\<close>

definition settled :: "nat \<Rightarrow> nat \<Rightarrow> bool \<Rightarrow> nat set" where
  "settled first lastb mf = (if mf then {first..lastb} else {first..})"

lemma cut_hole_correct:
  assumes "first \<le> lastb" and "h_first h \<le> h_last h" and "cut_hole first lastb mf h = (l, i)"
  shows "missing l = hole_set h - settled first lastb mf" and "holes_ok l"
    and "i \<longleftrightarrow> hole_set h \<inter> {first..lastb} \<noteq> {}"
proof -
  consider "\<not> mf \<and> h_first h > lastb" | "mf \<or> h_first h \<le> lastb" "lastb < h_first h \<or> first > h_last h"
    | "h_first h \<le> lastb" "first \<le> h_last h"
    by linarith
  then have "missing l = hole_set h - settled first lastb mf \<and> holes_ok l
    \<and> (i \<longleftrightarrow> hole_set h \<inter> {first..lastb} \<noteq> {})"
  proof cases
    case 3
    then have "max first (h_first h) \<in> hole_set h \<inter> {first..lastb}"
      using assms(1,2) by (auto simp: hole_set_def)
    with 3 assms show ?thesis
      by (auto simp: cut_hole_def settled_def hole_set_def split: if_splits)
  qed (use assms in \<open>auto simp: cut_hole_def settled_def hole_set_def split: if_splits\<close>)
  then show "missing l = hole_set h - settled first lastb mf" and "holes_ok l"
    and "i \<longleftrightarrow> hole_set h \<inter> {first..lastb} \<noteq> {}"
    by simp_all
qed

lemma cut_holes_correct:
  assumes "first \<le> lastb" and "holes_ok hs" and "cut_holes first lastb mf hs = (ls, i)"
  shows "missing ls = missing hs - settled first lastb mf \<and> holes_ok ls
    \<and> (i \<longleftrightarrow> missing hs \<inter> {first..lastb} \<noteq> {})"
  using assms(2,3)
proof (induction hs arbitrary: ls i)
  case (Cons h hs)
  obtain l i1 ls2 i2 where c: "cut_hole first lastb mf h = (l, i1)"
    and cs: "cut_holes first lastb mf hs = (ls2, i2)" and eq: "ls = l @ ls2" "i \<longleftrightarrow> i1 \<or> i2"
    using Cons.prems(2) by (auto split: prod.splits)
  have h: "h_first h \<le> h_last h" "holes_ok hs"
    using Cons.prems(1) by simp_all
  show ?case
    using cut_hole_correct [OF assms(1) h(1) c] Cons.IH [OF h(2) cs] eq by auto
qed auto

section \<open>The accounting invariant\<close>

definition bufs_bytes :: "(reassemblyKey \<times> reassemblyBuffer) list \<Rightarrow> int" where
  "bufs_bytes bufs = (\<Sum>kb\<leftarrow>bufs. int (length (rb_data (snd kb))))"

lemma bufs_bytes_simps [simp]:
  "bufs_bytes [] = 0"
  "bufs_bytes ((k, b) # kbs) = int (length (rb_data b)) + bufs_bytes kbs"
  by (simp_all add: bufs_bytes_def)

lemma bufs_bytes_nonneg: "0 \<le> bufs_bytes kbs"
  by (induction kbs) auto

lemma buf_delete_simps [simp]:
  "buf_delete k [] = []"
  "buf_delete k ((k1, b1) # kbs) = (if k1 = k then buf_delete k kbs else (k1, b1) # buf_delete k kbs)"
  by (simp_all add: buf_delete_def)

lemma map_of_buf_delete [simp]: "map_of (buf_delete k kbs) k' = (if k' = k then None else map_of kbs k')"
  by (induction kbs) (auto simp: buf_delete_def)

lemma buf_delete_absent: "map_of kbs k = None \<Longrightarrow> buf_delete k kbs = kbs"
  by (induction kbs) (auto simp: buf_delete_def split: if_splits)

lemma set_buf_delete: "set (buf_delete k kbs) = {kb \<in> set kbs. fst kb \<noteq> k}"
  by (simp add: buf_delete_def)

lemma distinct_buf_delete: "distinct (map fst kbs) \<Longrightarrow> distinct (map fst (buf_delete k kbs))"
  by (simp add: buf_delete_def distinct_map_filter)

lemma bufs_bytes_delete:
  assumes "distinct (map fst kbs)" and "map_of kbs k = Some b"
  shows "bufs_bytes (buf_delete k kbs) = bufs_bytes kbs - int (length (rb_data b))"
    and "length (buf_delete k kbs) + 1 = length kbs"
  using assms
  by (induction kbs) (auto simp: buf_delete_absent map_of_eq_None_iff split: if_splits)

text \<open>
  What holds of a buffer: its holes are proper ranges, its data and the announced end fit
  a datagram, and the header it has copied is that of a packet with the buffer's key.
\<close>

definition header_for :: "reassemblyKey \<Rightarrow> bytes \<Rightarrow> bool" where
  "header_for key h \<longleftrightarrow> 20 \<le> length h \<and> length h \<le> 60 \<and> drop_bit 4 (h ! 0) = 4
     \<and> unat (h ! 0 AND 0x0F) * 4 = length h \<and> h ! 9 = rk_protocol key
     \<and> AddrFrom4 (slice 12 16 h) = rk_src key \<and> AddrFrom4 (slice 16 20 h) = rk_dst key"

definition buffer_ok :: "reassemblyKey \<Rightarrow> reassemblyBuffer \<Rightarrow> bool" where
  "buffer_ok key b \<longleftrightarrow> holes_ok (rb_holes b) \<and> length (rb_data b) \<le> 65535
     \<and> (case rb_header b of None \<Rightarrow> True | Some h \<Rightarrow> header_for key h)"

definition max_bufs :: "reassembler \<Rightarrow> nat" where
  "max_bufs r = fst (resolveLimits r)"

definition max_bytes :: "reassembler \<Rightarrow> nat" where
  "max_bytes r = fst (snd (resolveLimits r))"

definition reasm_inv :: "reassembler \<Rightarrow> bool" where
  "reasm_inv r \<longleftrightarrow> distinct (map fst (ra_bufs r)) \<and> ra_bytes r = bufs_bytes (ra_bufs r)
     \<and> length (ra_bufs r) \<le> max_bufs r \<and> ra_bytes r \<le> int (max_bytes r)
     \<and> list_all (\<lambda>kb. buffer_ok (fst kb) (snd kb)) (ra_bufs r)"

text \<open>The limits are those of the configuration and never change.\<close>

definition same_limits :: "reassembler \<Rightarrow> reassembler \<Rightarrow> bool" where
  "same_limits r r' \<longleftrightarrow> ra_closed r' = ra_closed r \<and> ra_maxBufs r' = ra_maxBufs r
     \<and> ra_maxBytes r' = ra_maxBytes r \<and> ra_timeout r' = ra_timeout r"

lemma same_limits_resolve:
  "same_limits r r' \<Longrightarrow> resolveLimits r' = resolveLimits r \<and> max_bufs r' = max_bufs r
     \<and> max_bytes r' = max_bytes r"
  by (simp add: same_limits_def resolveLimits_def max_bufs_def max_bytes_def)

lemma same_limits_ops [simp]:
  "same_limits r r" "same_limits r (dropLocked k b r') = same_limits r r'"
  "same_limits r (buf_store k b r') = same_limits r r'"
  "same_limits r (r'\<lparr>ra_bytes := n\<rparr>) = same_limits r r'"
  by (simp_all add: same_limits_def dropLocked_def buf_store_def)

lemma sweep_loop_filter:
  assumes "distinct (map fst (ra_bufs r))" and "set kbs \<subseteq> set (ra_bufs r)" and "distinct (map fst kbs)"
    and "sweep_loop now kbs r e = (r', e')"
  shows "ra_bufs r' = filter (\<lambda>kb. kb \<notin> set kbs \<or> now < rb_expires (snd kb)) (ra_bufs r)
    \<and> ra_bytes r' - bufs_bytes (ra_bufs r') = ra_bytes r - bufs_bytes (ra_bufs r)
    \<and> same_limits r r' \<and> e' = e + length (filter (\<lambda>kb. \<not> now < rb_expires (snd kb)) kbs)"
  using assms
proof (induction now kbs r e rule: sweep_loop.induct)
  case (1 now r e)
  then show ?case by simp
next
  case (2 now k b kbs r e)
  show ?case
  proof (cases "now < rb_expires b")
    case True
    have "ra_bufs r' = filter (\<lambda>kb. kb \<notin> set kbs \<or> now < rb_expires (snd kb)) (ra_bufs r)
      \<and> ra_bytes r' - bufs_bytes (ra_bufs r') = ra_bytes r - bufs_bytes (ra_bufs r)
      \<and> same_limits r r' \<and> e' = e + length (filter (\<lambda>kb. \<not> now < rb_expires (snd kb)) kbs)"
      by (rule 2(2)) (use True 2(3-6) in simp_all)
    moreover have "filter (\<lambda>kb. kb \<notin> set ((k, b) # kbs) \<or> now < rb_expires (snd kb)) (ra_bufs r)
      = filter (\<lambda>kb. kb \<notin> set kbs \<or> now < rb_expires (snd kb)) (ra_bufs r)"
      using True by (auto intro!: filter_cong)
    ultimately show ?thesis
      using True by (elim conjE) (simp only: filter.simps snd_conv not_True_eq_False if_False simp_thms)
  next
    case False
    let ?r = "dropLocked k b r"
    have mem: "map_of (ra_bufs r) k = Some b"
      using 2(3,4) by auto
    have keys: "(k, b') \<in> set (ra_bufs r) \<Longrightarrow> b' = b" for b'
      using 2(3) mem by (metis map_of_is_SomeI option.inject)
    have sub: "set kbs \<subseteq> set (ra_bufs ?r)"
      using 2(4,5) by (force simp: dropLocked_def set_buf_delete image_iff)
    have dist: "distinct (map fst (ra_bufs ?r))"
      using 2(3) by (simp add: dropLocked_def distinct_buf_delete)
    have bytes: "ra_bytes ?r - bufs_bytes (ra_bufs ?r) = ra_bytes r - bufs_bytes (ra_bufs r)"
      using bufs_bytes_delete(1) [OF 2(3) mem] by (simp add: dropLocked_def)
    have loop: "sweep_loop now kbs ?r (e + 1) = (r', e')" and dk: "distinct (map fst kbs)"
      using 2(5,6) False by simp_all
    note ih = 2(1) [OF False dist sub dk loop]
    have "filter (\<lambda>kb. kb \<notin> set kbs \<or> now < rb_expires (snd kb)) (ra_bufs ?r)
      = filter (\<lambda>kb. (kb \<notin> set kbs \<or> now < rb_expires (snd kb)) \<and> fst kb \<noteq> k) (ra_bufs r)"
      by (simp add: dropLocked_def buf_delete_def conj_commute)
    also have "\<dots> = filter (\<lambda>kb. kb \<notin> set ((k, b) # kbs) \<or> now < rb_expires (snd kb)) (ra_bufs r)"
    proof (rule filter_cong [OF refl])
      fix kb
      assume "kb \<in> set (ra_bufs r)"
      then have "kb = (k, b)" if "fst kb = k"
        using keys [of "snd kb"] that by (metis prod.collapse)
      then show "((kb \<notin> set kbs \<or> now < rb_expires (snd kb)) \<and> fst kb \<noteq> k)
        = (kb \<notin> set ((k, b) # kbs) \<or> now < rb_expires (snd kb))"
        using False by (cases "fst kb = k") auto
    qed
    finally have bufs: "ra_bufs r'
      = filter (\<lambda>kb. kb \<notin> set ((k, b) # kbs) \<or> now < rb_expires (snd kb)) (ra_bufs r)"
      using ih by (elim conjE) (simp only:)
    have "same_limits r r'" "e' = e + 1 + length (filter (\<lambda>kb. \<not> now < rb_expires (snd kb)) kbs)"
      using ih by (simp_all add: same_limits_def dropLocked_def)
    moreover have "ra_bytes r' - bufs_bytes (ra_bufs r') = ra_bytes r - bufs_bytes (ra_bufs r)"
      using conjunct1 [OF conjunct2 [OF ih]] bytes by (rule trans)
    ultimately show ?thesis
      using False by (intro conjI bufs) simp_all
  qed
qed

lemma sweep_inv:
  assumes "reasm_inv r" and "sweep now r = (r', e)"
  shows "reasm_inv r'" and "ra_bufs r' = filter (\<lambda>kb. now < rb_expires (snd kb)) (ra_bufs r)"
    and "same_limits r r'"
    and "e = length (filter (\<lambda>kb. \<not> now < rb_expires (snd kb)) (ra_bufs r))"
proof -
  have inv: "distinct (map fst (ra_bufs r))" "ra_bytes r = bufs_bytes (ra_bufs r)"
    "length (ra_bufs r) \<le> max_bufs r" "ra_bytes r \<le> int (max_bytes r)"
    "list_all (\<lambda>kb. buffer_ok (fst kb) (snd kb)) (ra_bufs r)"
    using assms(1) by (simp_all add: reasm_inv_def)
  note s = sweep_loop_filter [OF inv(1) order_refl inv(1) assms(2) [unfolded sweep_def]]
  show bufs: "ra_bufs r' = filter (\<lambda>kb. now < rb_expires (snd kb)) (ra_bufs r)"
    using s by (auto intro: filter_cong)
  show lim: "same_limits r r'"
    and "e = length (filter (\<lambda>kb. \<not> now < rb_expires (snd kb)) (ra_bufs r))"
    using s by simp_all
  have le: "bufs_bytes (filter P kbs) \<le> bufs_bytes kbs" for P kbs
    by (induction kbs) auto
  have "ra_bytes r' = bufs_bytes (ra_bufs r')"
    using s inv(2) by simp
  moreover have "bufs_bytes (ra_bufs r') \<le> int (max_bytes r')"
    using le [of _ "ra_bufs r"] inv(2,4) same_limits_resolve [OF lim] bufs by (metis order.trans)
  moreover have "length (ra_bufs r') \<le> max_bufs r'"
    using inv(3) same_limits_resolve [OF lim] bufs by (metis length_filter_le order.trans)
  ultimately show "reasm_inv r'"
    using inv(1,5) bufs by (simp add: reasm_inv_def distinct_map_filter list_all_iff)
qed

section \<open>The datagram that is handed on\<close>

definition whole_header :: "reassemblyKey \<Rightarrow> bytes \<Rightarrow> nat \<Rightarrow> ipv4Header" where
  "whole_header key h n =
     \<lparr> ih_ihl = length h, ih_totalLen = length h + n, ih_protocol = rk_protocol key,
       ih_src = rk_src key, ih_dst = rk_dst key, ih_payloadOff = length h,
       ih_id = get16 (slice 4 6 h), ih_moreFragments = False, ih_fragOffset = 0 \<rparr>"

lemma overwrite_slice_self: "i \<le> j \<Longrightarrow> j \<le> length b \<Longrightarrow> overwrite i (slice i j b) b = b"
  by (rule nth_equalityI) (auto simp: overwrite_nth)

lemma finish_datagram_patched:
  assumes "20 \<le> length h" and "b = h @ data"
  defines "lenf \<equiv> be16 (of_nat (length h + length data))"
  shows "finish_datagram h data = patched lenf (slice 4 6 h) (be16 0)
    (be16 (internetChecksum (take (length h) (patched lenf (slice 4 6 h) (be16 0) [0, 0] b)))) b"
proof -
  have "overwrite 4 (slice 4 6 h) (overwrite 2 lenf b) = overwrite 2 lenf b"
    using assms overwrite_slice_self [of 4 6 "overwrite 2 lenf b"]
    by (simp add: govpn_slices slice_append_left)
  then show ?thesis
    using assms by (simp add: finish_datagram_def Let_def patched_def overwrite_overwrite)
qed

lemma finish_datagram_correct:
  assumes "header_for key h" and "length h + length data \<le> 65535"
  shows "parseIPv4 (finish_datagram h data) = Inr (whole_header key h (length data))"
    and "ip_payload (whole_header key h (length data)) (finish_datagram h data) = data"
    and "length (finish_datagram h data) = length h + length data"
    and "internetChecksum (take (length h) (finish_datagram h data)) = 0"
proof -
  have "length h = unat (h ! 0 AND 0x0F) * 4"
    using assms(1) by (simp add: header_for_def)
  then have h: "20 \<le> length h" "even (length h)" "length h \<le> length (h @ data)"
    using assms(1) by (simp_all add: header_for_def)
  let ?b = "h @ data" and ?l = "be16 (of_nat (length h + length data))"
  obtain c where f: "finish_datagram h data = patched ?l (slice 4 6 h) (be16 0) (be16 c) ?b"
    and c: "c = internetChecksum (take (length h) (patched ?l (slice 4 6 h) (be16 0) [0, 0] ?b))"
    using finish_datagram_patched [OF h(1) refl, of data] by blast
  have b: "20 \<le> length ?b" and id2: "length (slice 4 6 h) = 2"
    using h by simp_all
  note fields = patched_fields [where b = ?b and len = ?l and ident = "slice 4 6 h"
      and ff = "be16 0" and cks = "be16 c", OF b length_be16 id2 length_be16 length_be16, folded f]
  have base: "?b ! 0 = h ! 0" "?b ! 9 = h ! 9" "slice 12 16 ?b = slice 12 16 h"
    "slice 16 20 ?b = slice 16 20 h"
    using h by (auto simp: nth_append slice_append_left)
  show len: "length (finish_datagram h data) = length h + length data"
    using fields(1) by simp
  have "unat (of_nat (length h + length data) :: u16) = length h + length data"
    using assms(2) by (intro unat_of_nat_u16) simp
  then show "parseIPv4 (finish_datagram h data) = Inr (whole_header key h (length data))"
    using assms(1) h(1)
    by (simp add: parseIPv4_def Let_def govpn_consts len fields base u16c.dec_enc_Nil
        whole_header_def header_for_def del: of_nat_add)
  show "ip_payload (whole_header key h (length data)) (finish_datagram h data) = data"
    using fields(9) [of "length h"] h(1)
    by (simp add: ip_payload_def slice_def whole_header_def)
  show "internetChecksum (take (length h) (finish_datagram h data)) = 0"
    unfolding f c
    by (rule patched_verifies [OF h(2,1,3) _ length_be16 id2 length_be16 refl])
      (use assms(2) in simp)
qed

lemma header_for_fragment:
  assumes "parseIPv4 pkt = Inr hdr"
  shows "header_for (fragment_key hdr) (take (ih_ihl hdr) pkt)"
proof -
  note inv = parse_inv [OF assms]
  have "length (take (ih_ihl hdr) pkt) = ih_ihl hdr"
    using inv(3,4) by simp
  then show ?thesis
    using inv(1,2,8-12) by (simp add: header_for_def fragment_key_def slice_take)
qed

section \<open>Every step keeps the invariant\<close>

lemma dropLocked_inv:
  assumes "reasm_inv r" and "buf_lookup key r = Some b"
  shows "reasm_inv (dropLocked key b r)"
proof -
  have d: "distinct (map fst (ra_bufs r))" "map_of (ra_bufs r) key = Some b"
    using assms by (simp_all add: reasm_inv_def buf_lookup_def)
  have lim: "max_bufs (dropLocked key b r) = max_bufs r" "max_bytes (dropLocked key b r) = max_bytes r"
    using same_limits_resolve [of r "dropLocked key b r"] by simp_all
  show ?thesis
    using assms(1) bufs_bytes_delete [OF d] distinct_buf_delete [OF d(1)] lim
    unfolding reasm_inv_def
    by (simp add: dropLocked_def list_all_iff set_buf_delete)
qed

lemma buf_store_inv:
  assumes "reasm_inv r" and "buf_lookup key r = Some b" and "buffer_ok key b'"
    and "n = ra_bytes r + int (length (rb_data b')) - int (length (rb_data b))"
    and "n \<le> int (max_bytes r)"
  shows "reasm_inv (buf_store key b' (r\<lparr>ra_bytes := n\<rparr>))"
proof -
  have d: "distinct (map fst (ra_bufs r))" "map_of (ra_bufs r) key = Some b"
    using assms by (simp_all add: reasm_inv_def buf_lookup_def)
  let ?r = "buf_store key b' (r\<lparr>ra_bytes := n\<rparr>)"
  have lim: "max_bufs ?r = max_bufs r" "max_bytes ?r = max_bytes r"
    using same_limits_resolve [of r ?r] by simp_all
  have "key \<notin> set (map fst (buf_delete key (ra_bufs r)))"
    by (auto simp: set_buf_delete)
  then show ?thesis
    using assms bufs_bytes_delete [OF d] distinct_buf_delete [OF d(1)] lim
    unfolding reasm_inv_def
    by (simp add: buf_store_def list_all_iff set_buf_delete)
qed

lemma lookup_store [simp]:
  "buf_lookup k (buf_store key b r) = (if k = key then Some b else buf_lookup k r)"
  by (simp add: buf_lookup_def buf_store_def)

lemma buffer_ok_lookup: "reasm_inv r \<Longrightarrow> buf_lookup key r = Some b \<Longrightarrow> buffer_ok key b"
proof -
  assume "reasm_inv r" and "buf_lookup key r = Some b"
  then have "list_all (\<lambda>kb. buffer_ok (fst kb) (snd kb)) (ra_bufs r)" "(key, b) \<in> set (ra_bufs r)"
    by (simp_all add: reasm_inv_def buf_lookup_def)
  then have "buffer_ok (fst (key, b)) (snd (key, b))"
    unfolding list_all_iff by (rule bspec)
  then show "buffer_ok key b"
    by simp
qed

lemma length_store_payload:
  "first + length payload = lastb + 1 \<Longrightarrow>
   length (store_payload first lastb payload data) = max (length data) (lastb + 1)"
  by (auto simp: store_payload_def)

text \<open>The extent of a fragment that \<^verbatim>\<open>parseIPv4\<close> has accepted.\<close>

lemma fragment_extent:
  assumes "parseIPv4 pkt = Inr hdr" and "isFragment hdr"
  shows "ih_fragOffset hdr + length (ip_payload hdr pkt) = frag_last hdr pkt + 1"
    and "ih_fragOffset hdr \<le> frag_last hdr pkt" and "frag_last hdr pkt < 65535"
  using parse_inv(13,15) [OF assms(1,2)] length_ip_payload [OF assms(1)]
  by (auto simp: frag_last_def)

lemma reveal_end_simps [simp]:
  "rb_data (reveal_end hdr pkt b) = rb_data b" "rb_holes (reveal_end hdr pkt b) = rb_holes b"
  "rb_header (reveal_end hdr pkt b) = rb_header b" "rb_expires (reveal_end hdr pkt b) = rb_expires b"
  "growth hdr pkt (reveal_end hdr pkt b) = growth hdr pkt b"
  "covers_missing hdr pkt (reveal_end hdr pkt b) = covers_missing hdr pkt b"
  "buffer_ok key (reveal_end hdr pkt b) = buffer_ok key b"
  by (simp_all add: reveal_end_def growth_def covers_missing_def buffer_ok_def)

lemma fill_ok:
  assumes "parseIPv4 pkt = Inr hdr" and "isFragment hdr" and "buffer_ok (fragment_key hdr) b"
  shows "buffer_ok (fragment_key hdr) (fill hdr pkt b)"
    and "length (rb_data (fill hdr pkt b)) = length (rb_data b) + growth hdr pkt b"
proof -
  note ext = fragment_extent [OF assms(1,2)]
  obtain ls i where
    cut: "cut_holes (ih_fragOffset hdr) (frag_last hdr pkt) (ih_moreFragments hdr) (rb_holes b) = (ls, i)"
    by fastforce
  have "holes_ok ls"
    using cut_holes_correct [OF ext(2) _ cut] assms(3) by (simp add: buffer_ok_def)
  moreover have "length (store_payload (ih_fragOffset hdr) (frag_last hdr pkt) (ip_payload hdr pkt)
    (rb_data b)) = max (length (rb_data b)) (frag_last hdr pkt + 1)"
    by (rule length_store_payload [OF ext(1)])
  ultimately show "buffer_ok (fragment_key hdr) (fill hdr pkt b)"
    and "length (rb_data (fill hdr pkt b)) = length (rb_data b) + growth hdr pkt b"
    using assms(3) ext(3) header_for_fragment [OF assms(1)] cut
    by (simp_all add: buffer_ok_def fill_def growth_def)
qed

lemma complete_buffer_SomeD:
  "complete_buffer b = Some (h, t) \<Longrightarrow>
   rb_header b = Some h \<and> rb_totalLen b = Some t \<and> rb_holes b = [] \<and> t \<le> length (rb_data b)"
  by (auto simp: complete_buffer_def split: option.splits if_splits)

text \<open>A datagram that may be handed on: a header of the given key and data that fit.\<close>

definition rebuilt :: "reassemblyKey \<Rightarrow> bytes \<Rightarrow> bool" where
  "rebuilt key p \<longleftrightarrow> (\<exists>h data. p = finish_datagram h data \<and> header_for key h
     \<and> length h + length data \<le> 65535)"

lemma add_to_buffer_inv:
  assumes inv: "reasm_inv r" and lk: "buf_lookup key r = Some b"
    and frag: "parseIPv4 pkt = Inr hdr" "isFragment hdr" and key: "key = fragment_key hdr"
    and res: "add_to_buffer (max_bytes r) key hdr pkt b r = (r', d, out)"
  shows "reasm_inv r' \<and> same_limits r r' \<and> (out = reasmComplete \<longleftrightarrow> d \<noteq> None)
    \<and> (\<forall>p. d = Some p \<longrightarrow> rebuilt key p)"
proof -
  let ?b1 = "reveal_end hdr pkt b" and ?g = "int (growth hdr pkt b)"
  let ?b2 = "fill hdr pkt ?b1"
  let ?r2 = "buf_store key ?b2 (r\<lparr>ra_bytes := ra_bytes r + ?g\<rparr>)"
  have b: "buffer_ok key b"
    using inv lk by (rule buffer_ok_lookup)
  have b2: "buffer_ok key ?b2" "length (rb_data ?b2) = length (rb_data b) + growth hdr pkt b"
    using fill_ok [OF frag, of ?b1] b key by simp_all
  have capped: "reasm_inv (buf_store key ?b1 r)"
    using buf_store_inv [OF inv lk, of ?b1 "ra_bytes r"] b inv by (simp add: reasm_inv_def)
  have r2: "reasm_inv ?r2" if "ra_bytes r + ?g \<le> int (max_bytes r)"
    by (rule buf_store_inv [OF inv lk b2(1) _ that]) (simp add: b2(2))
  consider "contradicts hdr pkt b" | "\<not> contradicts hdr pkt b" "ra_bytes r + ?g > int (max_bytes r)"
    | "\<not> contradicts hdr pkt b" "ra_bytes r + ?g \<le> int (max_bytes r)"
    by linarith
  then show ?thesis
  proof cases
    case 1
    then show ?thesis
      using res dropLocked_inv [OF inv lk] by (auto simp: add_to_buffer_def)
  next
    case 2
    then show ?thesis
      using res capped by (auto simp: add_to_buffer_def Let_def)
  next
    case 3
    note r2 = r2 [OF 3(2)]
    have drop: "reasm_inv (dropLocked key ?b2 ?r2)"
      by (rule dropLocked_inv [OF r2]) simp
    have "rebuilt key (finish_datagram h (take t (rb_data ?b2)))"
      if "complete_buffer ?b2 = Some (h, t)" "length h + t \<le> maxIPv4Datagram" for h t
      unfolding rebuilt_def
      using complete_buffer_SomeD [OF that(1)] that(2) b2(1)
      by (intro exI [of _ h] exI [of _ "take t (rb_data ?b2)"])
        (auto simp: buffer_ok_def maxIPv4Datagram_def)
    with 3 res r2 drop show ?thesis
      by (auto simp: add_to_buffer_def Let_def not_less split: option.splits if_splits)
  qed
qed

lemma new_buffer_ok: "buffer_ok key (new_buffer now timeout)"
  by (simp add: buffer_ok_def new_buffer_def)

lemma new_buffer_inv:
  assumes "reasm_inv r" and "buf_lookup key r = None" and "length (ra_bufs r) < max_bufs r"
  shows "reasm_inv (buf_store key (new_buffer now timeout) r)"
proof -
  let ?r = "buf_store key (new_buffer now timeout) r"
  have del: "buf_delete key (ra_bufs r) = ra_bufs r"
    using assms(2) by (simp add: buf_lookup_def buf_delete_absent)
  have lim: "max_bufs ?r = max_bufs r" "max_bytes ?r = max_bytes r"
    using same_limits_resolve [of r ?r] by simp_all
  have "key \<notin> set (map fst (ra_bufs r))"
    using assms(2) by (simp add: buf_lookup_def map_of_eq_None_iff)
  then show ?thesis
    using assms(1,3) del lim new_buffer_ok [of key now timeout] unfolding reasm_inv_def
    by (simp add: buf_store_def) (simp add: new_buffer_def)
qed

text \<open>
  The outcome of \<^verbatim>\<open>add\<close> on an open reassembler, split by what the map holds after the
  sweep.
\<close>

lemma add_open:
  assumes "\<not> ra_closed r" and "sweep now r = (r1, e)" and "reasm_inv r"
  shows "add now hdr pkt r =
    (case buf_lookup (fragment_key hdr) r1 of
       None \<Rightarrow>
         if length (ra_bufs r1) \<ge> max_bufs r then (r1, None, reasmBoundExceeded, e)
         else let b = new_buffer now (snd (snd (resolveLimits r)));
                  (r2, d, out) = add_to_buffer (max_bytes r) (fragment_key hdr) hdr pkt b
                                   (buf_store (fragment_key hdr) b r1)
              in (r2, d, out, e)
     | Some b \<Rightarrow> let (r2, d, out) = add_to_buffer (max_bytes r) (fragment_key hdr) hdr pkt b r1
                 in (r2, d, out, e))"
proof -
  obtain mb my t where "resolveLimits r = (mb, my, t)"
    by (rule prod_cases3)
  then show ?thesis
    using assms(1,2) by (cases "buf_lookup (fragment_key hdr) r1")
      (simp_all add: add_def max_bufs_def max_bytes_def Let_def)
qed

lemma add_inv:
  assumes inv: "reasm_inv r" and frag: "parseIPv4 pkt = Inr hdr" "isFragment hdr"
    and res: "add now hdr pkt r = (r', d, out, e)"
  shows "reasm_inv r' \<and> same_limits r r' \<and> (out = reasmComplete \<longleftrightarrow> d \<noteq> None)
    \<and> (\<forall>p. d = Some p \<longrightarrow> rebuilt (fragment_key hdr) p)"
proof (cases "ra_closed r")
  case True
  then show ?thesis
    using res inv by (auto simp: add_def)
next
  case False
  obtain r1 e1 where sw: "sweep now r = (r1, e1)"
    by fastforce
  note s = sweep_inv [OF inv sw] and open_eq = add_open [OF False sw inv, of hdr pkt]
  have lim: "max_bytes r1 = max_bytes r" "max_bufs r1 = max_bufs r"
    using same_limits_resolve [OF s(3)] by simp_all
  have chain: "same_limits r r2" if "same_limits r1 r2" for r2
    using that s(3) by (simp add: same_limits_def)
  show ?thesis
  proof (cases "buf_lookup (fragment_key hdr) r1")
    case (Some b)
    obtain r2 d2 out2
      where a: "add_to_buffer (max_bytes r1) (fragment_key hdr) hdr pkt b r1 = (r2, d2, out2)"
      using prod_cases3 by blast
    show ?thesis
      using add_to_buffer_inv [OF s(1) Some frag refl a] chain res open_eq Some a lim by simp
  next
    case None
    let ?b = "new_buffer now (snd (snd (resolveLimits r)))"
    let ?r = "buf_store (fragment_key hdr) ?b r1"
    show ?thesis
    proof (cases "length (ra_bufs r1) \<ge> max_bufs r")
      case True
      then show ?thesis
        using res open_eq None s(1,3) by auto
    next
      case False
      have inv1: "reasm_inv ?r"
        by (rule new_buffer_inv [OF s(1) None]) (use False lim in simp)
      obtain r2 d2 out2
        where a: "add_to_buffer (max_bytes ?r) (fragment_key hdr) hdr pkt ?b ?r = (r2, d2, out2)"
        using prod_cases3 by blast
      have "max_bytes ?r = max_bytes r"
        using same_limits_resolve [of r1 ?r] lim by simp
      moreover have "same_limits r r2" if "same_limits ?r r2"
        using that chain [of r2] by (simp add: same_limits_def buf_store_def)
      ultimately show ?thesis
        using add_to_buffer_inv [OF inv1 _ frag refl a] res open_eq None a False by simp
    qed
  qed
qed

lemma discardAll_limits: "resolveLimits (discardAll r) = resolveLimits r"
  by (simp add: resolveLimits_def discardAll_def)

lemma discardAll_inv: "reasm_inv (discardAll r)"
  by (simp add: reasm_inv_def discardAll_def)

section \<open>The interface to the stack\<close>

text \<open>
  What \<^verbatim>\<open>Stack.deliver\<close> relies on when it hands a fragment over: the invariant of the
  state is kept, a datagram comes back exactly on completion, and that datagram parses,
  is not itself a fragment and carries the addresses and the protocol of the fragment
  that completed it, so that access checks made on the fragment hold of the datagram.
\<close>

locale fragment_store =
  fixes add_op :: "instant \<Rightarrow> ipv4Header \<Rightarrow> bytes \<Rightarrow> 's \<Rightarrow> 's \<times> bytes option \<times> reasmOutcome \<times> nat"
    and inv :: "'s \<Rightarrow> bool"
  assumes add_keeps:
    "inv s \<Longrightarrow> parseIPv4 pkt = Inr hdr \<Longrightarrow> isFragment hdr \<Longrightarrow>
     add_op now hdr pkt s = (s', d, out, e) \<Longrightarrow> inv s'"
    and complete_iff:
    "inv s \<Longrightarrow> parseIPv4 pkt = Inr hdr \<Longrightarrow> isFragment hdr \<Longrightarrow>
     add_op now hdr pkt s = (s', d, out, e) \<Longrightarrow> out = reasmComplete \<longleftrightarrow> d \<noteq> None"
    and complete_parses:
    "inv s \<Longrightarrow> parseIPv4 pkt = Inr hdr \<Longrightarrow> isFragment hdr \<Longrightarrow>
     add_op now hdr pkt s = (s', Some p, out, e) \<Longrightarrow>
     \<exists>h. parseIPv4 p = Inr h \<and> \<not> isFragment h \<and> ih_src h = ih_src hdr \<and> ih_dst h = ih_dst hdr
       \<and> ih_protocol h = ih_protocol hdr \<and> ih_totalLen h = length p"
begin

lemma checked_stays_checked:
  assumes "inv s" and "parseIPv4 pkt = Inr hdr" and "isFragment hdr" and "ih_src hdr = a"
    and "ih_dst hdr = srv" and "add_op now hdr pkt s = (s', d, reasmComplete, e)"
  obtains p h where "d = Some p" and "parseIPv4 p = Inr h" and "\<not> isFragment h"
    and "ih_src h = a" and "ih_dst h = srv" and "ih_protocol h = ih_protocol hdr"
proof -
  obtain p where p: "d = Some p"
    using complete_iff [OF assms(1-3,6)] by auto
  then show ?thesis
    using complete_parses [OF assms(1-3), of now s' p reasmComplete e] assms(4-6) that by blast
qed

lemma no_datagram_otherwise:
  "inv s \<Longrightarrow> parseIPv4 pkt = Inr hdr \<Longrightarrow> isFragment hdr \<Longrightarrow>
   add_op now hdr pkt s = (s', d, out, e) \<Longrightarrow> out \<noteq> reasmComplete \<Longrightarrow> d = None"
  using complete_iff by blast

end

lemma rebuilt_parses:
  assumes "rebuilt key p"
  shows "\<exists>h. parseIPv4 p = Inr h \<and> \<not> isFragment h \<and> ih_src h = rk_src key \<and> ih_dst h = rk_dst key
    \<and> ih_protocol h = rk_protocol key \<and> ih_totalLen h = length p \<and> length p \<le> 65535
    \<and> internetChecksum (take (ih_ihl h) p) = 0"
proof -
  obtain h data where p: "p = finish_datagram h data" "header_for key h" "length h + length data \<le> 65535"
    using assms by (auto simp: rebuilt_def)
  show ?thesis
    using finish_datagram_correct [OF p(2,3)] p
    by (intro exI [of _ "whole_header key h (length data)"]) (simp add: whole_header_def isFragment_def)
qed

interpretation reasm: fragment_store add reasm_inv
proof
  fix s pkt hdr now s' d out e
  assume a: "reasm_inv s" "parseIPv4 pkt = Inr hdr" "isFragment hdr" "add now hdr pkt s = (s', d, out, e)"
  note r = add_inv [OF a]
  show "reasm_inv s'" "out = reasmComplete \<longleftrightarrow> d \<noteq> None"
    using r by simp_all
next
  fix s pkt hdr now s' p out e
  assume a: "reasm_inv s" "parseIPv4 pkt = Inr hdr" "isFragment hdr"
    "add now hdr pkt s = (s', Some p, out, e)"
  have "rebuilt (fragment_key hdr) p"
    using add_inv [OF a] by simp
  from rebuilt_parses [OF this]
  show "\<exists>h. parseIPv4 p = Inr h \<and> \<not> isFragment h \<and> ih_src h = ih_src hdr \<and> ih_dst h = ih_dst hdr
       \<and> ih_protocol h = ih_protocol hdr \<and> ih_totalLen h = length p"
    by (auto simp: fragment_key_def)
qed

section \<open>Reachable reassemblers\<close>

definition new_reassembler :: "nat \<Rightarrow> nat \<Rightarrow> duration \<Rightarrow> reassembler" where
  "new_reassembler maxBufs maxBytes timeout =
     \<lparr> ra_bufs = [], ra_bytes = 0, ra_closed = False, ra_maxBufs = maxBufs,
       ra_maxBytes = maxBytes, ra_timeout = timeout \<rparr>"

abbreviation fresh_reassembler :: reassembler where
  "fresh_reassembler \<equiv> new_reassembler 0 0 0"

lemma new_inv: "reasm_inv (new_reassembler maxBufs maxBytes timeout)"
  by (simp add: reasm_inv_def new_reassembler_def)

text \<open>Whatever fragments arrive, at whatever times, and whenever the session is torn down.\<close>

inductive reasm_reach :: "reassembler \<Rightarrow> reassembler \<Rightarrow> bool" for r0 where
  reach_start: "reasm_reach r0 r0"
| reach_add: "reasm_reach r0 r \<Longrightarrow> parseIPv4 pkt = Inr hdr \<Longrightarrow> isFragment hdr \<Longrightarrow>
    add now hdr pkt r = (r', d, out, e) \<Longrightarrow> reasm_reach r0 r'"
| reach_discard: "reasm_reach r0 r \<Longrightarrow> reasm_reach r0 (discardAll r)"

lemma reach_inv:
  "reasm_reach r0 r \<Longrightarrow> reasm_inv r0 \<Longrightarrow>
   reasm_inv r \<and> max_bufs r = max_bufs r0 \<and> max_bytes r = max_bytes r0"
proof (induction rule: reasm_reach.induct)
  case (reach_add r pkt hdr now r' d out e)
  then show ?case
    using add_inv [of r pkt hdr now r' d out e] same_limits_resolve [of r r'] by simp
next
  case (reach_discard r)
  then show ?case
    by (simp add: discardAll_inv max_bufs_def max_bytes_def discardAll_limits)
qed simp

end
