(* ===== verification/Fragment_Order.thy ===== *)
theory Fragment_Order
  imports Reassembly
begin

text \<open>
  The fragmenter of \<^verbatim>\<open>ipv4.go\<close> against the reassembler of \<^verbatim>\<open>reassembly.go\<close>: the
  fragments of a datagram, in whatever order they arrive, put together to the datagram.
  The state of a buffer after the fragments with the indices of a set \<open>R\<close> have arrived is
  described exactly by \<open>arrived\<close>, whose first component is the set of offsets still missing.
\<close>

section \<open>The pieces of a payload\<close>

definition piece_range :: "nat \<Rightarrow> nat \<Rightarrow> nat \<Rightarrow> nat set" where
  "piece_range m n i = {i * m..<min (i * m + m) n}"

definition covered :: "nat \<Rightarrow> nat \<Rightarrow> nat set \<Rightarrow> nat set" where
  "covered m n R = (\<Union>i\<in>R. piece_range m n i)"

definition end_known :: "nat \<Rightarrow> nat \<Rightarrow> nat set \<Rightarrow> bool" where
  "end_known m n R \<longleftrightarrow> (\<exists>i\<in>R. n \<le> i * m + m)"

text \<open>Fragment \<open>i\<close> of a payload cut every \<open>m\<close> bytes, and the header of the first one.\<close>

definition piece ::
  "nat \<Rightarrow> bytes \<Rightarrow> bytes \<Rightarrow> reassemblyKey \<Rightarrow> nat \<Rightarrow> ipv4Header \<Rightarrow> bytes \<Rightarrow> bool" where
  "piece m P H key i hdr pkt \<longleftrightarrow> parseIPv4 pkt = Inr hdr \<and> isFragment hdr \<and> fragment_key hdr = key
     \<and> ih_fragOffset hdr = i * m \<and> (ih_moreFragments hdr \<longleftrightarrow> i * m + m < length P)
     \<and> ip_payload hdr pkt = take m (drop (i * m) P) \<and> i * m < length P
     \<and> (i = 0 \<longrightarrow> take (ih_ihl hdr) pkt = H)"

definition arrived :: "nat \<Rightarrow> bytes \<Rightarrow> bytes \<Rightarrow> nat set \<Rightarrow> reassemblyBuffer \<Rightarrow> bool" where
  "arrived m P H R b \<longleftrightarrow>
     missing (rb_holes b) = (if end_known m (length P) R then {..<length P} else {..<65535})
       - covered m (length P) R
     \<and> holes_ok (rb_holes b)
     \<and> rb_totalLen b = (if end_known m (length P) R then Some (length P) else None)
     \<and> rb_header b = (if 0 \<in> R then Some H else None)
     \<and> length (rb_data b) \<le> length P
     \<and> (\<forall>j\<in>covered m (length P) R. j < length (rb_data b) \<and> rb_data b ! j = P ! j)"

lemma piece_disjoint:
  fixes i j m :: nat
  assumes "i \<noteq> j"
  shows "i * m + m \<le> j * m \<or> j * m + m \<le> i * m"
proof -
  have "Suc i \<le> j \<or> Suc j \<le> i"
    using assms by linarith
  then have "Suc i * m \<le> j * m \<or> Suc j * m \<le> i * m"
    using mult_le_mono1 by blast
  then show ?thesis
    by (simp add: add.commute)
qed

lemma piece_range_disjoint: "i \<noteq> j \<Longrightarrow> piece_range m n i \<inter> piece_range m n j = {}"
  using piece_disjoint [of i j m] by (auto simp: piece_range_def)

lemma piece_extent:
  assumes "piece m P H key i hdr pkt" and "0 < m"
  shows "frag_last hdr pkt + 1 = min (i * m + m) (length P)"
    and "{ih_fragOffset hdr..frag_last hdr pkt} = piece_range m (length P) i"
    and "i * m \<in> piece_range m (length P) i"
    and "i * m \<le> frag_last hdr pkt"
  using assms by (auto simp: piece_def frag_last_def piece_range_def min_def)

lemma end_known_insert:
  assumes "i \<notin> R" and "i * m < n" and "\<forall>j\<in>R. j * m < n"
  shows "end_known m n (insert i R) \<longleftrightarrow> end_known m n R \<or> n \<le> i * m + m"
    and "n \<le> i * m + m \<Longrightarrow> \<not> end_known m n R"
proof -
  show "end_known m n (insert i R) \<longleftrightarrow> end_known m n R \<or> n \<le> i * m + m"
    by (auto simp: end_known_def)
  show "\<not> end_known m n R" if "n \<le> i * m + m"
  proof
    assume "end_known m n R"
    then obtain j where j: "j \<in> R" "n \<le> j * m + m"
      by (auto simp: end_known_def)
    then have "j * m < n" "i \<noteq> j"
      using assms by auto
    then show False
      using piece_disjoint [of i j m] j(2) that assms(2) by linarith
  qed
qed

section \<open>One more fragment\<close>

lemma store_payload_nth:
  assumes "first + length payload = lastb + 1" and "j < length (store_payload first lastb payload data)"
  shows "store_payload first lastb payload data ! j =
    (if first \<le> j \<and> j \<le> lastb then payload ! (j - first)
     else if j < length data then data ! j else 0)"
  using assms by (auto simp: store_payload_def overwrite_nth nth_append)

lemma arrived_missing:
  assumes p: "piece m P H key i hdr pkt" and m: "0 < m" and n: "length P \<le> 65535"
    and R: "i \<notin> R" "\<forall>j\<in>R. j * m < length P" and b: "arrived m P H R b"
  shows "missing (rb_holes (fill hdr pkt b)) =
      (if end_known m (length P) (insert i R) then {..<length P} else {..<65535})
       - covered m (length P) (insert i R)"
    and "holes_ok (rb_holes (fill hdr pkt b))" and "covers_missing hdr pkt b"
proof -
  note ext = piece_extent [OF p m]
  have off: "ih_fragOffset hdr = i * m" "i * m < length P"
    and mf: "ih_moreFragments hdr \<longleftrightarrow> i * m + m < length P"
    using p by (simp_all add: piece_def)
  obtain ls c where
    cut: "cut_holes (ih_fragOffset hdr) (frag_last hdr pkt) (ih_moreFragments hdr) (rb_holes b) = (ls, c)"
    by fastforce
  have hs: "holes_ok (rb_holes b)" and ms: "missing (rb_holes b) =
    (if end_known m (length P) R then {..<length P} else {..<65535}) - covered m (length P) R"
    using b by (simp_all add: arrived_def)
  have le: "ih_fragOffset hdr \<le> frag_last hdr pkt"
    using ext(4) off by simp
  note cc = cut_holes_correct [OF le hs cut]
  have disj: "piece_range m (length P) i \<inter> covered m (length P) R = {}"
  proof -
    have "piece_range m (length P) i \<inter> piece_range m (length P) j = {}" if "j \<in> R" for j
      using piece_range_disjoint [of i j] that R(1) by blast
    then show ?thesis
      unfolding covered_def by blast
  qed
  have "i * m \<in> missing (rb_holes b) \<inter> piece_range m (length P) i"
    using ms ext(3) disj off n by auto
  then have "missing (rb_holes b) \<inter> {ih_fragOffset hdr..frag_last hdr pkt} \<noteq> {}"
    unfolding ext(2) by blast
  with cc show "covers_missing hdr pkt b"
    by (simp add: covers_missing_def cut)
  show "holes_ok (rb_holes (fill hdr pkt b))"
    using cc cut by (simp add: fill_def)
  note ek = end_known_insert [OF R(1) off(2) R(2)]
  have cov: "covered m (length P) (insert i R) = piece_range m (length P) i \<union> covered m (length P) R"
    by (simp add: covered_def)
  have "missing ls = missing (rb_holes b) - settled (ih_fragOffset hdr) (frag_last hdr pkt) (ih_moreFragments hdr)"
    using cc by simp
  also have "\<dots> = (if end_known m (length P) (insert i R) then {..<length P} else {..<65535})
       - covered m (length P) (insert i R)"
  proof (cases "i * m + m < length P")
    case True
    then show ?thesis
      using mf ms cov ext(2) ek(1) by (auto simp: settled_def)
  next
    case False
    then have "end_known m (length P) (insert i R)" "\<not> end_known m (length P) R"
      using ek by auto
    moreover have "piece_range m (length P) i = {i * m..<length P}"
      using False by (auto simp: piece_range_def)
    ultimately show ?thesis
      using False mf ms cov off n by (auto simp: settled_def)
  qed
  finally show "missing (rb_holes (fill hdr pkt b)) =
      (if end_known m (length P) (insert i R) then {..<length P} else {..<65535})
       - covered m (length P) (insert i R)"
    using cut by (simp add: fill_def)
qed

lemma arrived_data:
  assumes p: "piece m P H key i hdr pkt" and m: "0 < m" and b: "arrived m P H R b"
  shows "length (rb_data (fill hdr pkt b)) = max (length (rb_data b)) (min (i * m + m) (length P))"
    and "j \<in> covered m (length P) (insert i R) \<Longrightarrow>
      j < length (rb_data (fill hdr pkt b)) \<and> rb_data (fill hdr pkt b) ! j = P ! j"
proof -
  note ext = piece_extent [OF p m]
  have off: "ih_fragOffset hdr = i * m" and load: "ip_payload hdr pkt = take m (drop (i * m) P)"
    and lt: "i * m < length P"
    using p by (simp_all add: piece_def)
  have len1: "ih_fragOffset hdr + length (ip_payload hdr pkt) = frag_last hdr pkt + 1"
    using ext(1) lt by (simp add: off load)
  show len: "length (rb_data (fill hdr pkt b)) = max (length (rb_data b)) (min (i * m + m) (length P))"
    using length_store_payload [OF len1] ext(1) by (simp add: fill_def)
  assume j: "j \<in> covered m (length P) (insert i R)"
  show "j < length (rb_data (fill hdr pkt b)) \<and> rb_data (fill hdr pkt b) ! j = P ! j"
  proof (cases "j \<in> piece_range m (length P) i")
    case True
    then have r: "ih_fragOffset hdr \<le> j" "j \<le> frag_last hdr pkt" "j - i * m < m" "i * m \<le> j"
      using ext(2) by (auto simp: piece_range_def)
    then have lj: "j < length (rb_data (fill hdr pkt b))"
      using len ext(1) by simp
    then show ?thesis
      using store_payload_nth [OF len1, of j "rb_data b"] r lt
      by (simp add: fill_def) (simp add: off load)
  next
    case False
    then have "j \<in> covered m (length P) R"
      using j by (auto simp: covered_def)
    then have old: "j < length (rb_data b)" "rb_data b ! j = P ! j"
      using b by (simp_all add: arrived_def)
    moreover have "\<not> (ih_fragOffset hdr \<le> j \<and> j \<le> frag_last hdr pkt)"
      using False ext(2) by (metis atLeastAtMost_iff)
    ultimately show ?thesis
      using store_payload_nth [OF len1, of j "rb_data b"] len
      by (simp add: fill_def less_max_iff_disj) blast
  qed
qed

lemma arrived_step:
  assumes p: "piece m P H key i hdr pkt" and m: "0 < m" and n: "length P \<le> 65535"
    and R: "i \<notin> R" "\<forall>j\<in>R. j * m < length P" and b: "arrived m P H R b"
  shows "arrived m P H (insert i R) (fill hdr pkt (reveal_end hdr pkt b))"
    and "\<not> contradicts hdr pkt b" and "covers_missing hdr pkt b"
proof -
  have off: "i * m < length P" "ih_fragOffset hdr = i * m"
    and mf: "ih_moreFragments hdr \<longleftrightarrow> i * m + m < length P"
    and hd: "i = 0 \<longrightarrow> take (ih_ihl hdr) pkt = H"
    using p by (simp_all add: piece_def)
  note ext = piece_extent [OF p m] and ek = end_known_insert [OF R(1) off(1) R(2)]
  have same: "rb_holes (fill hdr pkt (reveal_end hdr pkt b)) = rb_holes (fill hdr pkt b)"
    "rb_data (fill hdr pkt (reveal_end hdr pkt b)) = rb_data (fill hdr pkt b)"
    by (simp_all add: fill_def)
  note ms = arrived_missing [OF p m n R b] and dt = arrived_data [OF p m b]
  show "covers_missing hdr pkt b"
    by (rule ms(3))
  show "\<not> contradicts hdr pkt b"
    using b ext(1) mf ek(2) by (auto simp: contradicts_def arrived_def split: if_splits)
  have tl: "rb_totalLen (fill hdr pkt (reveal_end hdr pkt b))
    = (if end_known m (length P) (insert i R) then Some (length P) else None)"
  proof (cases "ih_moreFragments hdr")
    case True
    then show ?thesis
      using b ek(1) mf by (simp add: fill_def reveal_end_def arrived_def)
  next
    case False
    then have "frag_last hdr pkt + 1 = length P"
      using ext(1) mf by simp
    with False show ?thesis
      using ek(1) mf by (simp add: fill_def reveal_end_def)
  qed
  have hdr0: "rb_header (fill hdr pkt (reveal_end hdr pkt b)) = (if 0 \<in> insert i R then Some H else None)"
    using b hd m off(2) by (auto simp: fill_def arrived_def)
  have "length (rb_data (fill hdr pkt b)) \<le> length P"
    using dt(1) b by (simp add: arrived_def)
  with ms tl hdr0 dt(2) same show "arrived m P H (insert i R) (fill hdr pkt (reveal_end hdr pkt b))"
    unfolding arrived_def by simp
qed

section \<open>Completion\<close>

lemma all_covered:
  assumes "0 < m" and "0 < n"
  shows "covered m n {i. i * m < n} = {..<n}" and "end_known m n {i. i * m < n}"
proof -
  have "j \<in> piece_range m n (j div m)" if "j < n" for j
  proof -
    have "j div m * m \<le> j" "j < j div m * m + m"
      using assms(1) div_mult_mod_eq [of j m] mod_less_divisor [of m j] by linarith+
    with that show ?thesis
      by (simp add: piece_range_def)
  qed
  moreover have "j div m * m < n" if "j < n" for j
    using that div_times_less_eq_dividend [of j m] by linarith
  ultimately have "{..<n} \<subseteq> covered m n {i. i * m < n}"
    unfolding covered_def by blast
  moreover have "covered m n {i. i * m < n} \<subseteq> {..<n}"
    by (auto simp: covered_def piece_range_def)
  ultimately show "covered m n {i. i * m < n} = {..<n}"
    by simp
  have "n - 1 \<in> piece_range m n ((n - 1) div m)" "(n - 1) div m * m < n"
    using \<open>\<And>j. j < n \<Longrightarrow> j \<in> piece_range m n (j div m)\<close> [of "n - 1"]
      \<open>\<And>j. j < n \<Longrightarrow> j div m * m < n\<close> [of "n - 1"] assms(2) by simp_all
  then have "n \<le> (n - 1) div m * m + m"
    by (auto simp: piece_range_def)
  with \<open>(n - 1) div m * m < n\<close> show "end_known m n {i. i * m < n}"
    unfolding end_known_def by blast
qed

lemma arrived_all:
  assumes b: "arrived m P H {i. i * m < length P} b" and "0 < m" and "0 < length P"
  shows "complete_buffer b = Some (H, length P)" and "take (length P) (rb_data b) = P"
proof -
  note all = all_covered [OF assms(2,3)]
  have data: "\<forall>j<length P. j < length (rb_data b) \<and> rb_data b ! j = P ! j"
    and len: "length (rb_data b) \<le> length P"
    using b all by (simp_all add: arrived_def)
  then have "length (rb_data b) = length P"
    using assms(3) by (metis antisym_conv2 diff_less less_le_not_le not_le_imp_less zero_less_one)
  then show "take (length P) (rb_data b) = P"
    using data by (intro nth_equalityI) simp_all
  have "rb_holes b = []"
    using b all missing_empty [of "rb_holes b"] by (simp add: arrived_def)
  then show "complete_buffer b = Some (H, length P)"
    using b all assms(2,3) \<open>length (rb_data b) = length P\<close>
    by (simp add: complete_buffer_def arrived_def)
qed

lemma arrived_some:
  assumes b: "arrived m P H R b" and "k \<notin> R" and "k * m < length P" and "length P \<le> 65535"
    and "0 < m"
  shows "complete_buffer b = None"
proof -
  have "k * m \<notin> covered m (length P) R"
  proof -
    have "k * m \<in> piece_range m (length P) k"
      using assms(3,5) by (simp add: piece_range_def)
    then have "k * m \<notin> piece_range m (length P) i" if "i \<in> R" for i
      using piece_range_disjoint [of k i m "length P"] that assms(2) by blast
    then show ?thesis
      by (simp add: covered_def)
  qed
  then have "k * m \<in> missing (rb_holes b)"
    using b assms(3,4) by (simp add: arrived_def)
  then have "rb_holes b \<noteq> []"
    by auto
  then show ?thesis
    by (simp add: complete_buffer_def split: option.split)
qed

section \<open>The reassembler while the fragments arrive\<close>

definition holding ::
  "nat \<Rightarrow> bytes \<Rightarrow> bytes \<Rightarrow> reassemblyKey \<Rightarrow> instant \<Rightarrow> nat set \<Rightarrow> reassembler \<Rightarrow> bool" where
  "holding m P H key deadline R r \<longleftrightarrow> reasm_inv r \<and> \<not> ra_closed r
     \<and> (\<exists>b. buf_lookup key r = Some b \<and> arrived m P H R b \<and> rb_expires b = deadline
          \<and> ra_bytes r - int (length (rb_data b)) + int (length P) \<le> int (max_bytes r))"

definition room_for :: "bytes \<Rightarrow> reassemblyKey \<Rightarrow> reassembler \<Rightarrow> bool" where
  "room_for P key r \<longleftrightarrow> reasm_inv r \<and> \<not> ra_closed r \<and> buf_lookup key r = None
     \<and> length (ra_bufs r) < max_bufs r \<and> ra_bytes r + int (length P) \<le> int (max_bytes r)"

lemma map_of_filter_distinct:
  "distinct (map fst xs) \<Longrightarrow> map_of (filter Q xs) k =
     (case map_of xs k of None \<Rightarrow> None | Some v \<Rightarrow> if Q (k, v) then Some v else None)"
  by (induction xs) (auto simp: map_of_eq_None_iff split: option.splits)

lemma bufs_bytes_filter: "bufs_bytes (filter Q kbs) \<le> bufs_bytes kbs"
  by (induction kbs) auto

lemma sweep_keeps:
  assumes inv: "reasm_inv r" and sw: "sweep now r = (r1, e)"
  shows "buf_lookup key r1 = (case buf_lookup key r of None \<Rightarrow> None
      | Some b \<Rightarrow> if now < rb_expires b then Some b else None)"
    and "ra_bytes r1 \<le> ra_bytes r" and "length (ra_bufs r1) \<le> length (ra_bufs r)"
    and "max_bytes r1 = max_bytes r" and "max_bufs r1 = max_bufs r"
    and "ra_closed r1 = ra_closed r" and "resolveLimits r1 = resolveLimits r"
proof -
  note s = sweep_inv [OF inv sw]
  show "buf_lookup key r1 = (case buf_lookup key r of None \<Rightarrow> None
      | Some b \<Rightarrow> if now < rb_expires b then Some b else None)"
    using inv map_of_filter_distinct [of "ra_bufs r"] s(2)
    by (simp add: buf_lookup_def reasm_inv_def split: option.split)
  show "ra_bytes r1 \<le> ra_bytes r"
    using inv s(1,2) bufs_bytes_filter by (simp add: reasm_inv_def)
  show "length (ra_bufs r1) \<le> length (ra_bufs r)"
    using s(2) by simp
  show "max_bytes r1 = max_bytes r" "max_bufs r1 = max_bufs r" "ra_closed r1 = ra_closed r"
    "resolveLimits r1 = resolveLimits r"
    using same_limits_resolve [OF s(3)] s(3) by (simp_all add: same_limits_def)
qed

lemma add_to_buffer_step:
  assumes p: "piece m P H key i hdr pkt" and m: "0 < m" and n: "length H + length P \<le> 65535"
    and R: "i \<notin> R" "\<forall>j\<in>R. j * m < length P" and r: "holding m P H key deadline R r"
    and lk: "buf_lookup key r = Some b"
    and res: "add_to_buffer (max_bytes r) key hdr pkt b r = (r', d, out)"
  shows "if insert i R = {j. j * m < length P}
    then out = reasmComplete \<and> d = Some (finish_datagram H P)
    else out = reasmBuffered \<and> d = None \<and> holding m P H key deadline (insert i R) r'"
proof -
  have b: "arrived m P H R b" "rb_expires b = deadline"
    and room: "ra_bytes r - int (length (rb_data b)) + int (length P) \<le> int (max_bytes r)"
    and inv: "reasm_inv r" and op: "\<not> ra_closed r"
    using r lk by (auto simp: holding_def)
  have frag: "parseIPv4 pkt = Inr hdr" "isFragment hdr" "key = fragment_key hdr"
    and lt: "i * m < length P"
    using p by (auto simp: piece_def)
  let ?b2 = "fill hdr pkt (reveal_end hdr pkt b)"
  have n': "length P \<le> 65535" and nonempty: "P \<noteq> []"
    using n lt by auto
  note st = arrived_step [OF p m n' R b(1)]
  have grow: "length (rb_data b) + growth hdr pkt b \<le> length P"
  proof -
    have "length (rb_data b) \<le> length P"
      using b(1) by (simp add: arrived_def)
    moreover have "frag_last hdr pkt + 1 \<le> length P"
      using piece_extent(1) [OF p m] by simp
    ultimately show ?thesis
      by (simp add: growth_def)
  qed
  then have cap: "ra_bytes r + int (growth hdr pkt b) \<le> int (max_bytes r)"
    using room by linarith
  have rest: "(r', d, out) = (case complete_buffer ?b2 of
      None \<Rightarrow> (buf_store key ?b2 (r\<lparr>ra_bytes := ra_bytes r + int (growth hdr pkt b)\<rparr>), None, reasmBuffered)
    | Some (h, t) \<Rightarrow>
        if length h + t > maxIPv4Datagram
        then (dropLocked key ?b2 (buf_store key ?b2 (r\<lparr>ra_bytes := ra_bytes r + int (growth hdr pkt b)\<rparr>)),
              None, reasmConflict)
        else (dropLocked key ?b2 (buf_store key ?b2 (r\<lparr>ra_bytes := ra_bytes r + int (growth hdr pkt b)\<rparr>)),
              Some (finish_datagram h (take t (rb_data ?b2))), reasmComplete))"
    using res st(2,3) cap by (simp add: add_to_buffer_def Let_def)
  show ?thesis
  proof (cases "insert i R = {j. j * m < length P}")
    case True
    then have "complete_buffer ?b2 = Some (H, length P)" "take (length P) (rb_data ?b2) = P"
      using arrived_all [of m P H ?b2] st(1) m nonempty by simp_all
    with True rest n show ?thesis
      by (simp add: maxIPv4Datagram_def)
  next
    case False
    then obtain k where k: "k \<notin> insert i R" "k * m < length P"
      using R(2) lt by auto
    have none: "complete_buffer ?b2 = None"
      by (rule arrived_some [OF st(1) k n' m])
    have inv': "reasm_inv r'" "same_limits r r'"
      using add_to_buffer_inv [OF inv lk frag res] by simp_all
    have "length (rb_data ?b2) = length (rb_data b) + growth hdr pkt b"
      using fill_ok(2) [OF frag(1,2), of "reveal_end hdr pkt b"] buffer_ok_lookup [OF inv lk] frag(3)
      by simp
    then have "holding m P H key deadline (insert i R) r'"
      using st(1) inv' op rest none room same_limits_resolve [OF inv'(2)] b(2)
      unfolding holding_def by (simp add: same_limits_def) (simp add: buf_store_def fill_def)
    with False rest none show ?thesis
      by simp
  qed
qed

lemma arrived_new: "arrived m P H {} (new_buffer now timeout)"
  by (auto simp: arrived_def new_buffer_def covered_def end_known_def hole_set_def govpn_consts)

text \<open>The effective timeout of a reassembler.\<close>

definition reasm_timeout :: "reassembler \<Rightarrow> duration" where
  "reasm_timeout r = snd (snd (resolveLimits r))"

lemma store_fields:
  "ra_bytes (buf_store key b r) = ra_bytes r" "ra_closed (buf_store key b r) = ra_closed r"
  by (simp_all add: buf_store_def)

lemma new_buffer_fields:
  "rb_data (new_buffer now timeout) = []" "rb_expires (new_buffer now timeout) = add_duration now timeout"
  by (simp_all add: new_buffer_def)

lemma add_first:
  assumes p: "piece m P H key i hdr pkt" and m: "0 < m" and n: "length H + length P \<le> 65535"
    and r: "room_for P key r" and res: "add now hdr pkt r = (r', d, out, e)"
  shows "if {i} = {j. j * m < length P}
    then out = reasmComplete \<and> d = Some (finish_datagram H P)
    else out = reasmBuffered \<and> d = None
         \<and> holding m P H key (add_duration now (reasm_timeout r)) {i} r'"
proof -
  obtain r1 e1 where sw: "sweep now r = (r1, e1)"
    by fastforce
  have inv: "reasm_inv r" "\<not> ra_closed r" and lk: "buf_lookup key r = None"
    and room: "length (ra_bufs r) < max_bufs r" "ra_bytes r + int (length P) \<le> int (max_bytes r)"
    and key: "fragment_key hdr = key"
    using r p by (simp_all add: room_for_def piece_def)
  note s = sweep_keeps [OF inv(1) sw] and inv1 = sweep_inv(1) [OF inv(1) sw]
  let ?b = "new_buffer now (reasm_timeout r)"
  let ?r = "buf_store key ?b r1"
  have lk1: "buf_lookup key r1 = None"
    using s(1) [of key] lk by simp
  have lim: "max_bytes ?r = max_bytes r"
    using same_limits_resolve [of r1 ?r] s(4) by simp
  have "reasm_inv ?r"
    by (rule new_buffer_inv [OF inv1 lk1]) (use room s(3,5) in simp)
  then have "holding m P H key (add_duration now (reasm_timeout r)) {} ?r"
    using arrived_new [of m P H now "reasm_timeout r"] lim s(2,6) inv(2) room(2)
    unfolding holding_def by (simp add: store_fields new_buffer_fields)
  moreover have "add_to_buffer (max_bytes ?r) key hdr pkt ?b ?r = (r', d, out)"
    using res add_open [OF inv(2) sw inv(1), of hdr pkt] lk1 key room(1) s(3) lim
    by (simp add: reasm_timeout_def Let_def split: prod.splits)
  ultimately show ?thesis
    using add_to_buffer_step [OF p m n, of "{}" _ ?r ?b] by simp
qed

lemma add_next:
  assumes p: "piece m P H key i hdr pkt" and m: "0 < m" and n: "length H + length P \<le> 65535"
    and R: "i \<notin> R" "\<forall>j\<in>R. j * m < length P" and r: "holding m P H key deadline R r"
    and now: "now < deadline" and res: "add now hdr pkt r = (r', d, out, e)"
  shows "if insert i R = {j. j * m < length P}
    then out = reasmComplete \<and> d = Some (finish_datagram H P)
    else out = reasmBuffered \<and> d = None \<and> holding m P H key deadline (insert i R) r'"
proof -
  obtain r1 e1 where sw: "sweep now r = (r1, e1)"
    by fastforce
  obtain b where inv: "reasm_inv r" "\<not> ra_closed r" and lk: "buf_lookup key r = Some b"
    and b: "arrived m P H R b" "rb_expires b = deadline"
    and room: "ra_bytes r - int (length (rb_data b)) + int (length P) \<le> int (max_bytes r)"
    using r by (auto simp: holding_def)
  have key: "fragment_key hdr = key"
    using p by (simp add: piece_def)
  note s = sweep_keeps [OF inv(1) sw] and inv1 = sweep_inv(1) [OF inv(1) sw]
  have lk1: "buf_lookup key r1 = Some b"
    using s(1) [of key] lk b(2) now by simp
  have "holding m P H key deadline R r1"
    using inv1 inv(2) lk1 b s(2,4,6) room unfolding holding_def by simp
  moreover have "add_to_buffer (max_bytes r1) key hdr pkt b r1 = (r', d, out)"
    using res add_open [OF inv(2) sw inv(1), of hdr pkt] lk1 key s(4)
    by (simp split: prod.splits)
  ultimately show ?thesis
    using add_to_buffer_step [OF p m n R _ lk1] by simp
qed

section \<open>Any order of arrival\<close>

text \<open>
  Offering packets to the reassembler one after the other, each parsed first, as
  \<^verbatim>\<open>deliver\<close> does.
\<close>

fun offer_all :: "(instant \<times> bytes) list \<Rightarrow> reassembler \<Rightarrow> (bytes option \<times> reasmOutcome) list" where
  "offer_all [] r = []"
| "offer_all ((now, pkt) # ps) r =
     (case parseIPv4 pkt of
        Inl _ \<Rightarrow> offer_all ps r
      | Inr hdr \<Rightarrow> (case add now hdr pkt r of (r', d, out, _) \<Rightarrow> (d, out) # offer_all ps r'))"

lemma offer_rest:
  assumes m: "0 < m" and n: "length H + length P \<le> 65535"
    and pieces: "\<And>i. i * m < length P \<Longrightarrow> \<exists>hdr. piece m P H key i hdr (frags ! i)"
    and "holding m P H key deadline R r" and "\<forall>j\<in>R. j * m < length P"
    and "distinct is" and "is \<noteq> []" and "set is = {j. j * m < length P} - R"
    and "length ts = length is" and "list_all (\<lambda>t. t < deadline) ts"
  shows "offer_all (zip ts (map ((!) frags) is)) r
    = replicate (length is - 1) (None, reasmBuffered) @ [(Some (finish_datagram H P), reasmComplete)]"
  using assms(4-)
proof (induction "is" arbitrary: R r ts)
  case (Cons i "is")
  obtain t ts' where ts: "ts = t # ts'" "t < deadline" "length ts' = length is"
    "list_all (\<lambda>t. t < deadline) ts'"
    using Cons.prems(6,7) by (cases ts) auto
  have i: "i \<notin> R" "i * m < length P"
    using Cons.prems(5) by auto
  obtain hdr where p: "piece m P H key i hdr (frags ! i)"
    using pieces i(2) by blast
  obtain r' d out e where res: "add t hdr (frags ! i) r = (r', d, out, e)"
    by (rule prod_cases4)
  note step = add_next [OF p m n i(1) Cons.prems(2,1) ts(2) res]
  have parse: "parseIPv4 (frags ! i) = Inr hdr"
    using p by (simp add: piece_def)
  have rest: "set is = {j. j * m < length P} - insert i R" "distinct is"
    using Cons.prems(3,5) by auto
  show ?case
  proof (cases "is = []")
    case True
    then have "insert i R = {j. j * m < length P}"
      using Cons.prems(2,5) i(2) by auto
    with step True parse res ts(1) show ?thesis
      by simp
  next
    case False
    then have "insert i R \<noteq> {j. j * m < length P}"
      using rest(1) by auto
    with step have h: "out = reasmBuffered" "d = None" "holding m P H key deadline (insert i R) r'"
      by simp_all
    have "\<forall>j\<in>insert i R. j * m < length P"
      using Cons.prems(2) i(2) by simp
    from Cons.IH [OF h(3) this rest(2) False rest(1) ts(3,4)] False h parse res ts(1) show ?thesis
      by (cases "is") simp_all
  qed
qed simp

section \<open>Properties\<close>

lemma parse_id: "parseIPv4 p = Inr h \<Longrightarrow> ih_id h = get16 (slice 4 6 p)"
  by (auto simp: parseIPv4_def Let_def split: if_splits)

lemma fragment_pieces:
  assumes hdr: "parseIPv4 pkt = Inr hdr" and m: "m = (mtu - ih_ihl hdr) div 8 * 8" "0 < m"
    and big: "m < length P" and P: "P = ip_payload hdr pkt"
    and frags: "frags = fragmentIPv4 hdr pkt mtu ident"
    and key: "key = fragment_key (hdr\<lparr>ih_id := ident\<rparr>)" and i: "i * m < length P"
  shows "\<exists>h. piece m P (take (ih_ihl hdr) (frags ! 0)) key i h (frags ! i)"
proof -
  have m8: "8 dvd m"
    using m(1) by simp
  have "i < (length P + m - 1) div m"
    using i chunk_in_range [OF m(2)] by blast
  then have fi: "frags ! i = fragment_at hdr pkt P m ident (i * m)"
    using fragmentIPv4_map [OF m] frags P by simp
  note c = fragment_at_correct [OF hdr P i dvd_mult [OF m8] m(2) m8 refl refl, of ident]
  let ?h = "fragment_header hdr (length P) m ident (i * m)"
  have "isFragment ?h"
    using big by (cases "i = 0") (use m(2) in \<open>auto simp: isFragment_def fragment_header_def\<close>)
  then have "piece m P (take (ih_ihl hdr) (frags ! 0)) key i ?h (frags ! i)"
    using c(1,3) i unfolding piece_def fi [symmetric]
    by (auto simp: fragment_header_def fragment_key_def key)
  then show ?thesis ..
qed

lemma first_fragment_header:
  assumes hdr: "parseIPv4 pkt = Inr hdr" and m: "m = (mtu - ih_ihl hdr) div 8 * 8" "0 < m"
    and big: "m < length (ip_payload hdr pkt)" and frags: "frags = fragmentIPv4 hdr pkt mtu ident"
  shows "header_for (fragment_key (hdr\<lparr>ih_id := ident\<rparr>)) (take (ih_ihl hdr) (frags ! 0))"
    and "length (take (ih_ihl hdr) (frags ! 0)) = ih_ihl hdr"
    and "get16 (slice 4 6 (take (ih_ihl hdr) (frags ! 0))) = ident"
proof -
  let ?P = "ip_payload hdr pkt"
  have f0: "frags ! 0 = fragment_at hdr pkt ?P m ident 0"
    using fragmentIPv4_map [OF m, of pkt ident] frags chunk_in_range [OF m(2), of 0 "length ?P"] big
    by auto
  have m8: "8 dvd m" "0 < length ?P"
    using m(1) big by (simp, linarith)
  let ?h = "fragment_header hdr (length ?P) m ident 0"
  have parse: "parseIPv4 (frags ! 0) = Inr ?h"
    unfolding f0 by (rule fragment_at_correct(1) [OF hdr refl m8(2) _ m(2) m8(1) refl refl]) simp
  have "ih_ihl ?h = ih_ihl hdr" "ih_id ?h = ident"
    "fragment_key ?h = fragment_key (hdr\<lparr>ih_id := ident\<rparr>)"
    by (simp_all add: fragment_header_def fragment_key_def)
  then show "header_for (fragment_key (hdr\<lparr>ih_id := ident\<rparr>)) (take (ih_ihl hdr) (frags ! 0))"
    and "length (take (ih_ihl hdr) (frags ! 0)) = ih_ihl hdr"
    and "get16 (slice 4 6 (take (ih_ihl hdr) (frags ! 0))) = ident"
    using header_for_fragment [OF parse] parse_inv(1,3,4) [OF parse] parse_id [OF parse]
    by (simp_all add: slice_take)
qed

lemma order_indices:
  assumes "m = (mtu - ih_ihl hdr) div 8 * 8" "0 < m" and "m < length (ip_payload hdr pkt)"
    and "frags = fragmentIPv4 hdr pkt mtu ident"
    and "distinct order" and "set order = {..<length frags}"
  shows "set order = {j. j * m < length (ip_payload hdr pkt)}" and "order \<noteq> []"
    and "length frags = length order"
proof -
  have "length frags = (length (ip_payload hdr pkt) + m - 1) div m"
    using fragmentIPv4_map [OF assms(1,2), of pkt ident] assms(4) by simp
  then show set: "set order = {j. j * m < length (ip_payload hdr pkt)}"
    using chunk_in_range [OF assms(2)] assms(6) by auto
  have "0 \<in> set order"
    unfolding set using assms(3) by auto
  then show "order \<noteq> []"
    by auto
  show "length frags = length order"
    using distinct_card [OF assms(5)] assms(6) by simp
qed

lemma offer_any_order:
  assumes m: "0 < m" and n: "length H + length P \<le> 65535"
    and pieces: "\<And>i. i * m < length P \<Longrightarrow> \<exists>hdr. piece m P H key i hdr (frags ! i)"
    and room: "room_for P key r" and "distinct is" and "is \<noteq> []"
    and "set is = {j. j * m < length P}" and "length ts = length is"
    and "list_all (\<lambda>t. t < add_duration (hd ts) (reasm_timeout r)) ts"
  shows "offer_all (zip ts (map ((!) frags) is)) r
    = replicate (length is - 1) (None, reasmBuffered) @ [(Some (finish_datagram H P), reasmComplete)]"
proof -
  obtain i "is'" where is_eq: "is = i # is'"
    using assms(6) by (cases "is") auto
  obtain t ts' where ts: "ts = t # ts'" "length ts' = length is'"
    using assms(8) is_eq by (cases ts) auto
  have i: "i * m < length P"
    using assms(7) is_eq by auto
  obtain hdr where p: "piece m P H key i hdr (frags ! i)"
    using pieces i by blast
  obtain r' d out e where res: "add t hdr (frags ! i) r = (r', d, out, e)"
    by (rule prod_cases4)
  have parse: "parseIPv4 (frags ! i) = Inr hdr"
    using p by (simp add: piece_def)
  have rest: "set is' = {j. j * m < length P} - {i}" "distinct is'"
    using assms(5,7) is_eq by auto
  note step = add_first [OF p m n room res]
  show ?thesis
  proof (cases "is' = []")
    case True
    then have "{i} = {j. j * m < length P}"
      using assms(7) is_eq by simp
    with step True parse res ts(1) is_eq show ?thesis
      by simp
  next
    case False
    then have "{i} \<noteq> {j. j * m < length P}"
      using rest(1) by auto
    with step have h: "out = reasmBuffered" "d = None"
      "holding m P H key (add_duration t (reasm_timeout r)) {i} r'"
      by simp_all
    have "\<forall>j\<in>{i}. j * m < length P" "list_all (\<lambda>u. u < add_duration t (reasm_timeout r)) ts'"
      using i assms(9) ts(1) by simp_all
    from offer_rest [OF m n pieces h(3) this(1) rest(2) False rest(1) ts(2) this(2)]
    show ?thesis
      using False h parse res ts(1) is_eq by (cases is') simp_all
  qed
qed

lemma reassembled_any_order:
  assumes hdr: "parseIPv4 pkt = Inr hdr" "\<not> isFragment hdr"
    and mtu: "ih_ihl hdr + 8 \<le> mtu" "mtu < ih_totalLen hdr"
    and frags: "frags = fragmentIPv4 hdr pkt mtu ident"
    and room: "room_for (ip_payload hdr pkt) (fragment_key (hdr\<lparr>ih_id := ident\<rparr>)) r"
    and order: "distinct order" "set order = {..<length frags}"
    and times: "length ts = length order"
      "list_all (\<lambda>t. t < add_duration (hd ts) (reasm_timeout r)) ts"
  shows "\<exists>d. offer_all (zip ts (map ((!) frags) order)) r
      = replicate (length frags - 1) (None, reasmBuffered) @ [(Some d, reasmComplete)]
    \<and> parseIPv4 d = Inr (hdr\<lparr>ih_id := ident\<rparr>)
    \<and> ip_payload (hdr\<lparr>ih_id := ident\<rparr>) d = ip_payload hdr pkt
    \<and> internetChecksum (take (ih_ihl hdr) d) = 0"
proof -
  let ?P = "ip_payload hdr pkt" and ?H = "take (ih_ihl hdr) (frags ! 0)"
  let ?key = "fragment_key (hdr\<lparr>ih_id := ident\<rparr>)" and ?m = "(mtu - ih_ihl hdr) div 8 * 8"
  note inv = parse_inv [OF hdr(1)] and plen = length_ip_payload [OF hdr(1)]
  have m: "0 < ?m" "?m < length ?P"
    using mtu plen inv(3) by (auto simp: div_greater_zero_iff)
  note pieces = fragment_pieces [OF hdr(1) refl m refl frags refl]
  have H: "header_for ?key ?H" "length ?H = ih_ihl hdr" "get16 (slice 4 6 ?H) = ident"
    using first_fragment_header [OF hdr(1) refl m frags] inv(1) by simp_all
  have n: "length ?H + length ?P \<le> 65535"
    using H(2) plen inv(3,5) by simp
  have idx: "set order = {j. j * ?m < length ?P}" "order \<noteq> []" "length frags = length order"
    using order_indices [OF refl m frags order] by simp_all
  have whole: "whole_header ?key ?H (length ?P) = hdr\<lparr>ih_id := ident\<rparr>"
    using H(2,3) plen inv(3,6) hdr(2)
    by (cases hdr) (simp add: whole_header_def fragment_key_def isFragment_def)
  show ?thesis
    using offer_any_order [OF m(1) n pieces room order(1) idx(2,1) times] idx(3)
      finish_datagram_correct [OF H(1) n] whole H(2)
    by (intro exI [of _ "finish_datagram ?H ?P"]) simp
qed

text \<open>
  C3. Fragmentation and reassembly compose to the identity. Let a well-formed,
  unfragmented packet exceed the MTU, let the receiving reassembler have room for it and
  hold nothing under its key. Then the fragments \<^verbatim>\<open>fragmentIPv4\<close> makes, arriving in
  any order whatsoever within the reassembly timeout of the first arrival, are all
  buffered except the last one to arrive, which completes the datagram: it parses to the
  original header (with the identification of the fragments), its payload is the original
  payload and its header checksum verifies.
\<close>

theorem fragments_reassemble_in_any_order:
  assumes hdr: "parseIPv4 pkt = Inr hdr" "\<not> isFragment hdr"
    and mtu: "ih_ihl hdr + 8 \<le> mtu" "mtu < ih_totalLen hdr"
    and frags: "frags = fragmentIPv4 hdr pkt mtu ident"
    and room: "room_for (ip_payload hdr pkt) (fragment_key (hdr\<lparr>ih_id := ident\<rparr>)) r"
    and order: "distinct order" "set order = {..<length frags}"
    and times: "length ts = length order"
      "list_all (\<lambda>t. t < add_duration (hd ts) (reasm_timeout r)) ts"
  shows "\<exists>d. offer_all (zip ts (map ((!) frags) order)) r
      = replicate (length frags - 1) (None, reasmBuffered) @ [(Some d, reasmComplete)]
    \<and> parseIPv4 d = Inr (hdr\<lparr>ih_id := ident\<rparr>)
    \<and> ip_payload (hdr\<lparr>ih_id := ident\<rparr>) d = ip_payload hdr pkt
    \<and> internetChecksum (take (ih_ihl hdr) d) = 0"
  by (rule reassembled_any_order [OF assms])

theorem fragments_reassemble_in_any_order_witness:
  "(let pkt = buildIPv4 [] 0x0A080001 0x0A080002 17 [1, 2, 3, 4, 5, 6, 7, 8, 9, 10];
        hdr = built_header 0x0A080001 0x0A080002 17 10;
        frags = fragmentIPv4 hdr pkt 29 7
    in \<exists>d. offer_all [(5, frags ! 1), (6, frags ! 0)] fresh_reassembler
         = [(None, reasmBuffered), (Some d, reasmComplete)]
       \<and> parseIPv4 d = Inr (hdr\<lparr>ih_id := 7\<rparr>)
       \<and> ip_payload (hdr\<lparr>ih_id := 7\<rparr>) d = [1, 2, 3, 4, 5, 6, 7, 8, 9, 10])"
proof -
  let ?q = "[1, 2, 3, 4, 5, 6, 7, 8, 9, 10] :: bytes"
  let ?pkt = "buildIPv4 [] 0x0A080001 0x0A080002 17 ?q"
  let ?hdr = "built_header 0x0A080001 0x0A080002 17 10"
  have hdr: "parseIPv4 ?pkt = Inr ?hdr" "ip_payload ?hdr ?pkt = ?q" "ih_ihl ?hdr = 20"
    "\<not> isFragment ?hdr" "ih_totalLen ?hdr = 30"
    using parse_buildIPv4 [of ?q] payload_buildIPv4 [of _ _ _ ?q]
    by (simp_all add: built_header_def isFragment_def)
  have len: "length (fragmentIPv4 ?hdr ?pkt 29 7) = 2"
    by (subst fragmentIPv4_map [OF refl]) (simp_all add: hdr)
  have room: "room_for (ip_payload ?hdr ?pkt) (fragment_key (?hdr\<lparr>ih_id := 7\<rparr>)) fresh_reassembler"
    unfolding room_for_def using new_inv [of 0 0 0]
    by (simp add: new_reassembler_def buf_lookup_def max_bufs_def max_bytes_def resolveLimits_def
        govpn_consts hdr)
  have ts: "list_all (\<lambda>t. t < add_duration (hd [5, 6]) (reasm_timeout fresh_reassembler)) [5, 6]"
    by (simp add: reasm_timeout_def resolveLimits_def new_reassembler_def govpn_consts add_duration_def)
  have order: "set [1, 0] = {..<length (fragmentIPv4 ?hdr ?pkt 29 7)}"
    unfolding len by auto
  have mtu: "ih_ihl ?hdr + 8 \<le> 29" "29 < ih_totalLen ?hdr" "distinct [1, 0 :: nat]"
    "length [5, 6 :: instant] = length [1, 0 :: nat]"
    by (simp_all add: hdr)
  show ?thesis
    using fragments_reassemble_in_any_order [OF hdr(1,4) mtu(1,2) refl room mtu(3) order mtu(4) ts]
    unfolding Let_def hdr(2) len
    by (simp del: offer_all.simps One_nat_def) blast
qed

text \<open>
  C13. Bounds and accounting of the reassembler, for every configuration and over any
  sequence of fragments, times and teardowns: the number of half-assembled datagrams
  never exceeds its limit, the byte counter is exactly the sum of the lengths of the
  buffers and never exceeds its budget, no two buffers share a key and no buffer outgrows
  a datagram.
\<close>

theorem reassembly_stays_bounded:
  assumes "reasm_reach (new_reassembler maxBufs maxBytes timeout) r"
  shows "length (ra_bufs r) \<le> (if maxBufs = 0 then 16 else maxBufs)
    \<and> ra_bytes r = (\<Sum>kb\<leftarrow>ra_bufs r. int (length (rb_data (snd kb))))
    \<and> ra_bytes r \<le> int (if maxBytes = 0 then 262144 else maxBytes)
    \<and> distinct (map fst (ra_bufs r))
    \<and> list_all (\<lambda>kb. length (rb_data (snd kb)) \<le> 65535) (ra_bufs r)"
proof -
  have "reasm_inv r" "max_bufs r = (if maxBufs = 0 then 16 else maxBufs)"
    "max_bytes r = (if maxBytes = 0 then 262144 else maxBytes)"
    using reach_inv [OF assms new_inv]
    by (simp_all add: new_reassembler_def max_bufs_def max_bytes_def resolveLimits_def govpn_consts)
  then show ?thesis
    by (simp add: reasm_inv_def bufs_bytes_def buffer_ok_def list_all_iff)
qed

text \<open>Two overlapping fragments of one datagram, and the headers they parse to.\<close>

definition head_frag :: bytes where
  "head_frag = [0x45, 0, 0, 36, 0, 7, 0x20, 0, 64, 17, 0, 0, 10, 8, 0, 2, 10, 8, 0, 1] @ replicate 16 1"

definition tail_frag :: bytes where
  "tail_frag = [0x45, 0, 0, 28, 0, 7, 0, 1, 64, 17, 0, 0, 10, 8, 0, 2, 10, 8, 0, 1] @ replicate 8 1"

definition frag_hdr :: "nat \<Rightarrow> bool \<Rightarrow> nat \<Rightarrow> ipv4Header" where
  "frag_hdr tot mf off =
     \<lparr> ih_ihl = 20, ih_totalLen = tot, ih_protocol = 17, ih_src = 0x0A080002, ih_dst = 0x0A080001,
       ih_payloadOff = 20, ih_id = 7, ih_moreFragments = mf, ih_fragOffset = off \<rparr>"

lemma overlap_parse:
  "parseIPv4 head_frag = Inr (frag_hdr 36 True 0)" "parseIPv4 tail_frag = Inr (frag_hdr 28 False 8)"
  by (simp_all add: parseIPv4_def head_frag_def tail_frag_def frag_hdr_def slice_def get16_def
      AddrFrom4_def get32_def govpn_consts)

lemma overlap_payload:
  "ip_payload (frag_hdr 36 True 0) head_frag = replicate 16 1"
  "ip_payload (frag_hdr 28 False 8) tail_frag = replicate 8 1"
  by (simp_all add: ip_payload_def frag_hdr_def head_frag_def tail_frag_def slice_def)

lemma frag_hdr_fields [simp]:
  "ih_ihl (frag_hdr tot mf off) = 20" "ih_moreFragments (frag_hdr tot mf off) = mf"
  "ih_fragOffset (frag_hdr tot mf off) = off" "fragment_key (frag_hdr tot mf off)
    = \<lparr> rk_src = 0x0A080002, rk_dst = 0x0A080001, rk_protocol = 17, rk_id = 7 \<rparr>"
  by (simp_all add: frag_hdr_def fragment_key_def)

lemmas reassembly_eval =
  add_def resolveLimits_def sweep_def new_reassembler_def buf_lookup_def buf_store_def
  new_buffer_def add_to_buffer_def contradicts_def reveal_end_def growth_def frag_last_def
  fill_def cut_hole_def store_payload_def overwrite_def covers_missing_def complete_buffer_def
  add_duration_def Let_def dropLocked_def

theorem reassembly_stays_bounded_witness:
  "(let r = fst (add 5 (frag_hdr 36 True 0) head_frag (new_reassembler 1 100 0)) in
      length (ra_bufs r) \<le> 1 \<and> ra_bytes r = (\<Sum>kb\<leftarrow>ra_bufs r. int (length (rb_data (snd kb))))
      \<and> ra_bytes r \<le> 100)"
proof -
  let ?r0 = "new_reassembler 1 100 0"
  obtain r d out e where res: "add 5 (frag_hdr 36 True 0) head_frag ?r0 = (r, d, out, e)"
    by (rule prod_cases4)
  have "isFragment (frag_hdr 36 True 0)"
    by (simp add: isFragment_def)
  then have "reasm_reach ?r0 r"
    by (rule reach_add [OF reach_start overlap_parse(1) _ res])
  from reassembly_stays_bounded [OF this] res show ?thesis
    by (simp add: Let_def)
qed

text \<open>
  C12. What the reassembler completes can be trusted like the fragment that completed it:
  in every reachable state, a datagram handed on after a checked fragment parses, is no
  fragment, has the fragment's source, destination and protocol, describes exactly the
  bytes it is made of and carries a verifying header checksum; and a datagram is handed
  on exactly when the outcome is completion.
\<close>

theorem completed_datagram_matches_fragment:
  assumes "reasm_reach (new_reassembler maxBufs maxBytes timeout) r"
    and "parseIPv4 pkt = Inr hdr" and "isFragment hdr"
    and "add now hdr pkt r = (r', d, out, e)"
  shows "case d of
      None \<Rightarrow> out \<noteq> reasmComplete
    | Some p \<Rightarrow> out = reasmComplete \<and> (\<exists>h. parseIPv4 p = Inr h \<and> \<not> isFragment h
        \<and> ih_src h = ih_src hdr \<and> ih_dst h = ih_dst hdr \<and> ih_protocol h = ih_protocol hdr
        \<and> ih_totalLen h = length p \<and> internetChecksum (take (ih_ihl h) p) = 0)"
proof -
  have "reasm_inv r"
    using reach_inv [OF assms(1) new_inv] by simp
  note a = add_inv [OF this assms(2-4)]
  then show ?thesis
    using rebuilt_parses [of "fragment_key hdr"] by (auto simp: fragment_key_def split: option.split)
qed

definition rest_frag :: bytes where
  "rest_frag = [0x45, 0, 0, 28, 0, 7, 0, 2, 64, 17, 0, 0, 10, 8, 0, 2, 10, 8, 0, 1] @ replicate 8 2"

lemma rest_parse: "parseIPv4 rest_frag = Inr (frag_hdr 28 False 16)"
  "ip_payload (frag_hdr 28 False 16) rest_frag = replicate 8 2"
  by (simp_all add: parseIPv4_def rest_frag_def frag_hdr_def slice_def get16_def
      AddrFrom4_def get32_def govpn_consts ip_payload_def)

theorem completed_datagram_matches_fragment_witness:
  "(case add 6 (frag_hdr 28 False 16) rest_frag
          (fst (add 5 (frag_hdr 36 True 0) head_frag fresh_reassembler)) of
      (r', d, out, e) \<Rightarrow> (case d of None \<Rightarrow> False
        | Some p \<Rightarrow> out = reasmComplete \<and> (\<exists>h. parseIPv4 p = Inr h \<and> ih_src h = 0x0A080002)))"
proof -
  obtain r d0 out0 e0 where one: "add 5 (frag_hdr 36 True 0) head_frag fresh_reassembler = (r, d0, out0, e0)"
    by (rule prod_cases4)
  obtain r' d out e where two: "add 6 (frag_hdr 28 False 16) rest_frag r = (r', d, out, e)"
    by (rule prod_cases4)
  have fr: "isFragment (frag_hdr 36 True 0)" "isFragment (frag_hdr 28 False 16)"
    by (simp_all add: isFragment_def)
  have "reasm_reach fresh_reassembler r"
    by (rule reach_add [OF reach_start overlap_parse(1) fr(1) one])
  note done_two = completed_datagram_matches_fragment [OF this rest_parse(1) fr(2) two]
  have "d \<noteq> None"
    using one two by (auto simp: reassembly_eval overlap_payload rest_parse govpn_consts)
  with done_two one two show ?thesis
    by (auto simp: frag_hdr_def)
qed


end
