(* ===== verification/Tcp_Segment.thy ===== *)
theory Tcp_Segment
  imports Ipv4
begin

text \<open>
  \<^verbatim>\<open>netstack/tcp_segment.go\<close>: the TCP header, its MSS option and the transport checksum.
\<close>

unbundle bit_operations_syntax

section \<open>Constants and the segment\<close>

definition flagFIN :: u8 where
  "flagFIN = 0x01"

definition flagSYN :: u8 where
  "flagSYN = 0x02"

definition flagRST :: u8 where
  "flagRST = 0x04"

definition flagPSH :: u8 where
  "flagPSH = 0x08"

definition flagACK :: u8 where
  "flagACK = 0x10"

definition tcpHeaderMinLen :: nat where
  "tcpHeaderMinLen = 20"

definition tcpHeaderMaxLen :: nat where
  "tcpHeaderMaxLen = 60"

definition mssOptionKind :: u8 where
  "mssOptionKind = 2"

definition mssOptionLen :: nat where
  "mssOptionLen = 4"

definition optionKindEnd :: u8 where
  "optionKindEnd = 0"

definition optionKindNop :: u8 where
  "optionKindNop = 1"

definition defaultMSSWhenAbsent :: u16 where
  "defaultMSSWhenAbsent = 536"

lemmas tcp_flags = flagFIN_def flagSYN_def flagRST_def flagPSH_def flagACK_def

lemmas tcp_segment_consts [govpn_consts] =
  tcpHeaderMinLen_def tcpHeaderMaxLen_def mssOptionKind_def mssOptionLen_def optionKindEnd_def
  optionKindNop_def defaultMSSWhenAbsent_def

datatype tcp_parse_error = errTCPTooShort | errTCPBadDataOffset | errTCPBadOption

record tcpSegment =
  sg_srcPort :: u16
  sg_dstPort :: u16
  sg_seq :: u32
  sg_ack :: u32
  sg_flags :: u8
  sg_window :: u16
  sg_hasMSS :: bool
  sg_mss :: u16
  sg_payload :: bytes

definition has_flag :: "u8 \<Rightarrow> tcpSegment \<Rightarrow> bool" where
  "has_flag f seg \<longleftrightarrow> sg_flags seg AND f \<noteq> 0"

definition segLen :: "tcpSegment \<Rightarrow> u32" where
  "segLen seg = of_nat (length (sg_payload seg))
     + (if has_flag flagSYN seg then 1 else 0) + (if has_flag flagFIN seg then 1 else 0)"

section \<open>Parsing and building\<close>

text \<open>
  The walk over the options region; the MSS option's value is kept from its last occurrence.
\<close>

function parse_options :: "bytes \<Rightarrow> u16 option \<Rightarrow> tcp_parse_error + u16 option" where
  "parse_options opts mss =
     (if opts = [] then Inr mss
      else if opts ! 0 = optionKindEnd then Inr mss
      else if opts ! 0 = optionKindNop then parse_options (drop 1 opts) mss
      else if length opts < 2 then Inl errTCPBadOption
      else
        let optLen = unat (opts ! 1) in
        if optLen < 2 \<or> optLen > length opts then Inl errTCPBadOption
        else if opts ! 0 = mssOptionKind then
          (if optLen \<noteq> mssOptionLen then Inl errTCPBadOption
           else parse_options (drop optLen opts) (Some (get16 (slice 2 4 opts))))
        else parse_options (drop optLen opts) mss)"
  by pat_completeness auto

termination parse_options
  by (relation "measure (length \<circ> fst)") auto

declare parse_options.simps [simp del]

definition parseTCP :: "bytes \<Rightarrow> tcp_parse_error + tcpSegment" where
  "parseTCP payload =
     (if length payload < tcpHeaderMinLen then Inl errTCPTooShort
      else
        let dataOffset = unat (drop_bit 4 (payload ! 12)) * 4 in
        if dataOffset < tcpHeaderMinLen \<or> dataOffset > length payload then Inl errTCPBadDataOffset
        else
          (case parse_options (slice tcpHeaderMinLen dataOffset payload) None of
             Inl e \<Rightarrow> Inl e
           | Inr mss \<Rightarrow>
               Inr \<lparr> sg_srcPort = get16 (slice 0 2 payload), sg_dstPort = get16 (slice 2 4 payload),
                     sg_seq = get32 (slice 4 8 payload), sg_ack = get32 (slice 8 12 payload),
                     sg_flags = payload ! 13, sg_window = get16 (slice 14 16 payload),
                     sg_hasMSS = (mss \<noteq> None), sg_mss = (case mss of None \<Rightarrow> 0 | Some m \<Rightarrow> m),
                     sg_payload = drop dataOffset payload \<rparr>))"

definition buildTCP :: "bytes \<Rightarrow> tcpSegment \<Rightarrow> addr \<Rightarrow> addr \<Rightarrow> bytes" where
  "buildTCP dst seg src dstAddr =
     (let headerLen = (if sg_hasMSS seg then tcpHeaderMinLen + mssOptionLen else tcpHeaderMinLen);
          hdr = be16 (sg_srcPort seg) @ be16 (sg_dstPort seg) @ be32 (sg_seq seg) @ be32 (sg_ack seg)
                @ [push_bit 4 (of_nat (headerLen div 4)), sg_flags seg] @ be16 (sg_window seg)
                @ [0, 0] @ [0, 0]
                @ (if sg_hasMSS seg then [mssOptionKind, of_nat mssOptionLen] @ be16 (sg_mss seg) else []);
          full = hdr @ sg_payload seg;
          cs = transportChecksum src dstAddr protocolTCP full
      in dst @ overwrite 16 (be16 cs) full)"

section \<open>The round trip\<close>

definition tcp_raw :: "tcpSegment \<Rightarrow> u16 \<Rightarrow> bytes" where
  "tcp_raw seg cs =
     be16 (sg_srcPort seg) @ be16 (sg_dstPort seg) @ be32 (sg_seq seg) @ be32 (sg_ack seg)
     @ [if sg_hasMSS seg then 0x60 else 0x50, sg_flags seg] @ be16 (sg_window seg) @ be16 cs @ [0, 0]
     @ (if sg_hasMSS seg then [2, 4] @ be16 (sg_mss seg) else []) @ sg_payload seg"

lemma buildTCP_raw:
  "buildTCP [] seg src dst = tcp_raw seg (transportChecksum src dst protocolTCP (tcp_raw seg 0))"
  by (simp add: buildTCP_def tcp_raw_def Let_def overwrite_def be16_def be32_def govpn_consts)

lemma tcp_raw_fields:
  "slice 0 2 (tcp_raw seg cs) = be16 (sg_srcPort seg)" "slice 2 4 (tcp_raw seg cs) = be16 (sg_dstPort seg)"
  "slice 4 8 (tcp_raw seg cs) = be32 (sg_seq seg)" "slice 8 12 (tcp_raw seg cs) = be32 (sg_ack seg)"
  "tcp_raw seg cs ! 12 = (if sg_hasMSS seg then 0x60 else 0x50)" "tcp_raw seg cs ! 13 = sg_flags seg"
  "slice 14 16 (tcp_raw seg cs) = be16 (sg_window seg)"
  "length (tcp_raw seg cs) = (if sg_hasMSS seg then 24 else 20) + length (sg_payload seg)"
  by (simp_all add: tcp_raw_def slice_def be16_def be32_def numeral_eq_Suc)

lemma tcp_raw_tail:
  "sg_hasMSS seg \<Longrightarrow>
     slice 20 24 (tcp_raw seg cs) = [2, 4] @ be16 (sg_mss seg) \<and> drop 24 (tcp_raw seg cs) = sg_payload seg"
  "\<not> sg_hasMSS seg \<Longrightarrow> drop 20 (tcp_raw seg cs) = sg_payload seg"
  by (simp_all add: tcp_raw_def slice_def be16_def be32_def numeral_eq_Suc)

lemma parse_mss_option: "parse_options ([2, 4] @ be16 w) m = Inr (Some w)"
proof -
  have "slice 2 4 ([2, 4] @ be16 w) = be16 w"
    by (simp add: slice_def be16_def)
  then show ?thesis
    by (subst parse_options.simps)
      (simp add: govpn_consts u16c.dec_enc_Nil parse_options.simps [of "[]"])
qed

definition wf_segment :: "tcpSegment \<Rightarrow> bool" where
  "wf_segment seg \<longleftrightarrow> sg_hasMSS seg \<or> sg_mss seg = 0"

lemma parse_tcp_raw:
  assumes "wf_segment seg"
  shows "parseTCP (tcp_raw seg cs) = Inr seg"
proof (cases "sg_hasMSS seg")
  case True
  note t = tcp_raw_tail(1) [OF this]
  have "parse_options (slice tcpHeaderMinLen 24 (tcp_raw seg cs)) None = Inr (Some (sg_mss seg))"
    using t parse_mss_option by (simp add: govpn_consts)
  with True t show ?thesis
    by (simp add: parseTCP_def tcp_raw_fields u16c.dec_enc_Nil u32c.dec_enc_Nil Let_def govpn_consts)
next
  case False
  note t = tcp_raw_tail(2) [OF this]
  have "parse_options (slice 20 20 (tcp_raw seg cs)) None = Inr None"
    by (simp add: slice_def parse_options.simps [of "[]"])
  with False t assms show ?thesis
    by (simp add: parseTCP_def tcp_raw_fields u16c.dec_enc_Nil u32c.dec_enc_Nil Let_def govpn_consts
        wf_segment_def)
qed

lemma parse_buildTCP:
  "wf_segment seg \<Longrightarrow> parseTCP (buildTCP [] seg src dst) = Inr seg"
  "length (buildTCP [] seg src dst) = (if sg_hasMSS seg then 24 else 20) + length (sg_payload seg)"
  by (simp_all add: buildTCP_raw parse_tcp_raw tcp_raw_fields)

lemma tcp_raw_checksum:
  "overwrite 16 (be16 cs) (tcp_raw seg 0) = tcp_raw seg cs"
  "tcp_raw seg 0 ! 16 = 0" "tcp_raw seg 0 ! Suc 16 = 0"
  by (simp_all add: tcp_raw_def overwrite_def be16_def be32_def numeral_eq_Suc)

lemma buildTCP_checksum:
  assumes "length (buildTCP [] seg src dst) \<le> 65535"
  shows "transportChecksum src dst protocolTCP (buildTCP [] seg src dst) = 0"
proof -
  have len: "16 + 2 \<le> length (tcp_raw seg 0)" "length (tcp_raw seg 0) \<le> 65535"
    using assms by (simp_all add: buildTCP_raw tcp_raw_fields split: if_splits)
  have "TransportChecksum src dst protocolTCP (overwrite 16
      (be16 (TransportChecksum src dst protocolTCP (tcp_raw seg 0))) (tcp_raw seg 0)) = 0"
    by (rule transport.field_written_verifies [OF _ len(1) tcp_raw_checksum(2,3) len(2)]) simp_all
  then show ?thesis
    by (simp add: buildTCP_raw transportChecksum_def tcp_raw_checksum(1))
qed

section \<open>Properties\<close>

text \<open>
  C27. Every segment the stack can build reads back unchanged, with or without the MSS
  option, and carries a checksum that verifies under the pseudo-header of its addresses;
  and whatever bytes arrive, a segment that parses has its payload at the data offset and
  occupies the sequence numbers of that payload plus one for each of SYN and FIN.
\<close>

theorem tcp_segment_roundtrip:
  assumes "sg_hasMSS seg \<or> sg_mss seg = 0" and "length (sg_payload seg) \<le> 65511"
  shows "parseTCP (buildTCP [] seg src dst) = Inr seg
    \<and> transportChecksum src dst protocolTCP (buildTCP [] seg src dst) = 0
    \<and> (\<forall>p s. parseTCP p = Inr s \<longrightarrow> sg_payload s = drop (unat (drop_bit 4 (p ! 12)) * 4) p
         \<and> segLen s = of_nat (length (sg_payload s) + of_bool (bit (sg_flags s) 1) + of_bool (bit (sg_flags s) 0)))"
proof (intro conjI allI impI)
  show "parseTCP (buildTCP [] seg src dst) = Inr seg"
    using assms(1) by (simp add: parse_buildTCP wf_segment_def)
  show "transportChecksum src dst protocolTCP (buildTCP [] seg src dst) = 0"
    using assms(2) by (intro buildTCP_checksum) (simp add: parse_buildTCP)
  fix p s
  assume "parseTCP p = Inr s"
  then show "sg_payload s = drop (unat (drop_bit 4 (p ! 12)) * 4) p"
    by (auto simp: parseTCP_def Let_def split: if_splits sum.splits)
  have "x AND 2 \<noteq> 0 \<longleftrightarrow> bit x 1" "x AND 1 \<noteq> 0 \<longleftrightarrow> bit x 0" for x :: u8
    using bit_iff_and_push_bit_not_eq_0 [of x 1] by (simp_all add: and_one_eq bit_0 odd_iff_mod_2_eq_one)
  then show "segLen s = of_nat (length (sg_payload s) + of_bool (bit (sg_flags s) 1) + of_bool (bit (sg_flags s) 0))"
    by (simp add: segLen_def has_flag_def tcp_flags)
qed

theorem tcp_segment_roundtrip_witness:
  "parseTCP (buildTCP [] \<lparr> sg_srcPort = 80, sg_dstPort = 5000, sg_seq = 7, sg_ack = 9, sg_flags = 0x12,
      sg_window = 65535, sg_hasMSS = True, sg_mss = 1460, sg_payload = [] \<rparr> 1 2)
   = Inr \<lparr> sg_srcPort = 80, sg_dstPort = 5000, sg_seq = 7, sg_ack = 9, sg_flags = 0x12,
      sg_window = 65535, sg_hasMSS = True, sg_mss = 1460, sg_payload = [] \<rparr>"
  using tcp_segment_roundtrip [of "\<lparr> sg_srcPort = 80, sg_dstPort = 5000, sg_seq = 7, sg_ack = 9,
      sg_flags = 0x12, sg_window = 65535, sg_hasMSS = True, sg_mss = 1460, sg_payload = [] \<rparr>" 1 2]
  by simp

end
