(* ===== verification/Stack.thy ===== *)
theory Stack
  imports Reassembly Ip_Pool Tcp_Segment
begin

text \<open>
  \<^verbatim>\<open>netstack/stack.go\<close> and \<^verbatim>\<open>netstack/icmp.go\<close>: the stack that terminates the
  server's tunnel address. Attachments are shared by reference in the code (the routes,
  the read loops and the protocol handlers hold the same pointer), so they live in a store
  indexed by numbers and the routes hold the numbers. The stack is an extensible record:
  the UDP and TCP layers extend it with their own state, and the \<^verbatim>\<open>protocolHandler\<close>
  seam of the code is a pair of handler functions on the extended stack. A
  \<^verbatim>\<open>Session\<close> belongs to the embedder: whether its \<^verbatim>\<open>Write\<close> succeeds is the argument
  \<open>wr\<close>, and the packets it took are appended to \<open>st_sent\<close>; what its \<^verbatim>\<open>Read\<close> returned is
  an argument of the read loop's iteration. The clock reading is the argument \<open>now\<close>.
\<close>

unbundle bit_operations_syntax

section \<open>Constants, counters and state\<close>

definition readBufferSize :: nat where
  "readBufferSize = 2048"

definition maxReadRetryBufferSize :: nat where
  "maxReadRetryBufferSize = 65535"

definition defaultMTU :: int where
  "defaultMTU = 1500"

definition minMTU :: int where
  "minMTU = 576"

definition maxMTU :: int where
  "maxMTU = int maxIPv4Datagram"

definition icmpTypeEchoRequest :: u8 where
  "icmpTypeEchoRequest = ICMPTypeEchoRequest"

definition icmpTypeEchoReply :: u8 where
  "icmpTypeEchoReply = 0"

definition minICMPHeaderLen :: nat where
  "minICMPHeaderLen = MinICMPHeaderLen"

lemmas stack_consts [govpn_consts] =
  readBufferSize_def maxReadRetryBufferSize_def defaultMTU_def minMTU_def maxMTU_def
  icmpTypeEchoRequest_def icmpTypeEchoReply_def minICMPHeaderLen_def

datatype stack_error =
  ErrNilServerIP | ErrNotIPv4Address | ErrInvalidAttachIP | ErrAttachServerIP | ErrDuplicateAttach
| ErrHandlerAlreadyRegistered | ErrInvalidMTU | ErrOutboundSourceMismatch
| ErrInvalidReassemblyLimits | ErrNilSession | ErrPacket ipv4_error | ErrSessionWrite

record stats =
  icmpEchoRequests :: u64
  icmpEchoReplies :: u64
  packetsReceived :: u64
  malformedDropped :: u64
  fragmentsDropped :: u64
  spoofedSourceDropped :: u64
  wrongDestinationDropped :: u64
  unhandledProtocolDropped :: u64
  outboundSourceDropped :: u64
  shortReadBufferGrown :: u64
  fragmentsReassembled :: u64
  reassemblyTimeouts :: u64
  reassemblyBoundExceeded :: u64
  outboundFragmented :: u64

definition zero_stats :: stats where
  "zero_stats = \<lparr> icmpEchoRequests = 0, icmpEchoReplies = 0, packetsReceived = 0,
     malformedDropped = 0, fragmentsDropped = 0, spoofedSourceDropped = 0,
     wrongDestinationDropped = 0, unhandledProtocolDropped = 0, outboundSourceDropped = 0,
     shortReadBufferGrown = 0, fragmentsReassembled = 0, reassemblyTimeouts = 0,
     reassemblyBoundExceeded = 0, outboundFragmented = 0 \<rparr>"

record attachment =
  at_ip :: addr
  at_stopped :: bool
  at_reasm :: reassembler

definition at_stop :: "attachment \<Rightarrow> attachment" where
  "at_stop a = (if at_stopped a then a
     else a\<lparr>at_stopped := True, at_reasm := discardAll (at_reasm a)\<rparr>)"

record reassembly_limits =
  MaxDatagramsPerAttachment :: int
  MaxBytesPerAttachment :: int
  rl_Timeout :: duration

record stack =
  st_serverIP :: addr
  st_mtu :: int
  st_reasmLimits :: reassembly_limits
  st_ipID :: u32
  st_routes :: "(addr \<times> nat) list"
  st_udpHandler :: bool
  st_tcpHandler :: bool
  st_stats :: stats
  st_stopped :: bool
  st_atts :: "nat \<Rightarrow> attachment option"
  st_next :: nat
  st_sent :: "(nat \<times> bytes) list"

definition bump :: "(stats \<Rightarrow> stats) \<Rightarrow> 'm stack_scheme \<Rightarrow> 'm stack_scheme" where
  "bump f s = s\<lparr>st_stats := f (st_stats s)\<rparr>"

section \<open>Construction and registration\<close>

datatype stack_option = WithClock | WithMTU int | WithReassemblyLimits reassembly_limits

fun apply_option :: "stack_option \<Rightarrow> stack \<Rightarrow> stack" where
  "apply_option WithClock s = s"
| "apply_option (WithMTU mtu) s = s\<lparr>st_mtu := mtu\<rparr>"
| "apply_option (WithReassemblyLimits l) s = s\<lparr>st_reasmLimits := l\<rparr>"

definition New_stack :: "net_ip option \<Rightarrow> stack_option list \<Rightarrow> stack_error + stack" where
  "New_stack srvIP opts =
     (case srvIP of
        None \<Rightarrow> Inl ErrNilServerIP
      | Some ip \<Rightarrow>
          (case To4 ip of
             None \<Rightarrow> Inl ErrNotIPv4Address
           | Some ip4 \<Rightarrow>
               let s0 = \<lparr> st_serverIP = AddrFrom4 ip4, st_mtu = defaultMTU,
                          st_reasmLimits = \<lparr> MaxDatagramsPerAttachment = 0,
                            MaxBytesPerAttachment = 0, rl_Timeout = 0 \<rparr>,
                          st_ipID = 0, st_routes = [], st_udpHandler = False,
                          st_tcpHandler = False, st_stats = zero_stats, st_stopped = False,
                          st_atts = (\<lambda>_. None), st_next = 0, st_sent = [] \<rparr>;
                   s = fold apply_option opts s0 in
               if st_mtu s < minMTU \<or> st_mtu s > maxMTU then Inl ErrInvalidMTU
               else if MaxDatagramsPerAttachment (st_reasmLimits s) < 0
                       \<or> MaxBytesPerAttachment (st_reasmLimits s) < 0
                       \<or> sint (rl_Timeout (st_reasmLimits s)) < 0
               then Inl ErrInvalidReassemblyLimits
               else Inr s))"

definition ServerIP :: "'m stack_scheme \<Rightarrow> net_ip" where
  "ServerIP s = As4 (st_serverIP s)"

definition maxSegmentSize :: "'m stack_scheme \<Rightarrow> u16" where
  "maxSegmentSize s = of_int (st_mtu s - int minIPv4HeaderLen - int tcpHeaderMinLen)"

definition toIPv4Addr :: "net_ip option \<Rightarrow> stack_error + addr" where
  "toIPv4Addr ip = (case ip of None \<Rightarrow> Inl ErrInvalidAttachIP
     | Some b \<Rightarrow> (case To4 b of None \<Rightarrow> Inl ErrInvalidAttachIP | Some b4 \<Rightarrow> Inr (AddrFrom4 b4)))"

definition registerUDPHandler :: "'m stack_scheme \<Rightarrow> stack_error option \<times> 'm stack_scheme" where
  "registerUDPHandler s = (if st_udpHandler s then (Some ErrHandlerAlreadyRegistered, s)
     else (None, s\<lparr>st_udpHandler := True\<rparr>))"

definition registerTCPHandler :: "'m stack_scheme \<Rightarrow> stack_error option \<times> 'm stack_scheme" where
  "registerTCPHandler s = (if st_tcpHandler s then (Some ErrHandlerAlreadyRegistered, s)
     else (None, s\<lparr>st_tcpHandler := True\<rparr>))"

section \<open>Routes\<close>

definition route_of :: "addr \<Rightarrow> 'm stack_scheme \<Rightarrow> nat option" where
  "route_of ip s = map_of (st_routes s) ip"

definition route_delete :: "addr \<Rightarrow> (addr \<times> nat) list \<Rightarrow> (addr \<times> nat) list" where
  "route_delete ip rs = filter (\<lambda>r. fst r \<noteq> ip) rs"

definition stop_att :: "nat \<Rightarrow> 'm stack_scheme \<Rightarrow> 'm stack_scheme" where
  "stop_att i s = s\<lparr>st_atts := (st_atts s)(i := map_option at_stop (st_atts s i))\<rparr>"

text \<open>\<open>Attach\<close> gives the number of the new attachment, whose read loop then starts.\<close>

definition Attach :: "bool \<Rightarrow> net_ip option \<Rightarrow> 'm stack_scheme \<Rightarrow> (stack_error + nat) \<times> 'm stack_scheme" where
  "Attach sess_nil ip s =
     (if sess_nil then (Inl ErrNilSession, s)
      else (case toIPv4Addr ip of
        Inl e \<Rightarrow> (Inl e, s)
      | Inr a \<Rightarrow>
          if a = st_serverIP s then (Inl ErrAttachServerIP, s)
          else if route_of a s \<noteq> None then (Inl ErrDuplicateAttach, s)
          else
            let n = st_next s;
                att = \<lparr> at_ip = a, at_stopped = False,
                        at_reasm = new_reassembler (nat (MaxDatagramsPerAttachment (st_reasmLimits s)))
                          (nat (MaxBytesPerAttachment (st_reasmLimits s)))
                          (rl_Timeout (st_reasmLimits s)) \<rparr>
            in (Inr n, s\<lparr>st_routes := (a, n) # st_routes s, st_atts := (st_atts s)(n \<mapsto> att),
                         st_next := n + 1\<rparr>)))"

definition Detach :: "net_ip option \<Rightarrow> 'm stack_scheme \<Rightarrow> bool \<times> 'm stack_scheme" where
  "Detach ip s =
     (case toIPv4Addr ip of
        Inl _ \<Rightarrow> (False, s)
      | Inr a \<Rightarrow>
          (case route_of a s of
             None \<Rightarrow> (False, s)
           | Some n \<Rightarrow> (True, stop_att n (s\<lparr>st_routes := route_delete a (st_routes s)\<rparr>))))"

definition IsAttached :: "net_ip option \<Rightarrow> 'm stack_scheme \<Rightarrow> bool" where
  "IsAttached ip s = (case toIPv4Addr ip of Inl _ \<Rightarrow> False | Inr a \<Rightarrow> route_of a s \<noteq> None)"

definition Routes :: "'m stack_scheme \<Rightarrow> net_ip list" where
  "Routes s = map As4 (sort (map fst (st_routes s)))"

definition detachAttachment :: "nat \<Rightarrow> 'm stack_scheme \<Rightarrow> 'm stack_scheme" where
  "detachAttachment n s =
     (case st_atts s n of
        None \<Rightarrow> s
      | Some a \<Rightarrow>
          stop_att n
            (if route_of (at_ip a) s = Some n
             then s\<lparr>st_routes := route_delete (at_ip a) (st_routes s)\<rparr> else s))"

definition Close_stack :: "'m stack_scheme \<Rightarrow> 'm stack_scheme" where
  "Close_stack s =
     (if st_stopped s then s
      else fold (\<lambda>r. stop_att (snd r)) (st_routes s) (s\<lparr>st_stopped := True, st_routes := []\<rparr>))"

section \<open>Sending\<close>

type_synonym write_fn = "nat \<Rightarrow> bytes \<Rightarrow> bool"

text \<open>Fragments are written in order until a write fails.\<close>

fun write_all :: "write_fn \<Rightarrow> nat \<Rightarrow> bytes list \<Rightarrow> 'm stack_scheme \<Rightarrow> stack_error option \<times> 'm stack_scheme" where
  "write_all wr n [] s = (None, s)"
| "write_all wr n (p # ps) s =
     (if wr n p then write_all wr n ps (s\<lparr>st_sent := st_sent s @ [(n, p)]\<rparr>)
      else (Some ErrSessionWrite, s))"

definition writePacket :: "write_fn \<Rightarrow> nat \<Rightarrow> bytes \<Rightarrow> 'm stack_scheme \<Rightarrow> stack_error option \<times> 'm stack_scheme" where
  "writePacket wr n pkt s =
     (case parseIPv4 pkt of
        Inl e \<Rightarrow> (Some (ErrPacket e), s)
      | Inr hdr \<Rightarrow>
          if ih_src hdr \<noteq> st_serverIP s
          then (Some ErrOutboundSourceMismatch,
                bump (\<lambda>c. c\<lparr>outboundSourceDropped := outboundSourceDropped c + 1\<rparr>) s)
          else if int (ih_totalLen hdr) \<le> st_mtu s then write_all wr n [pkt] s
          else
            let ident = st_ipID s + 1;
                s1 = s\<lparr>st_ipID := ident\<rparr>;
                frags = fragmentIPv4 hdr pkt (nat (st_mtu s)) (ucast ident) in
            if frags = [] then (Some (ErrPacket errBadFragment), s1)
            else write_all wr n frags
                   (bump (\<lambda>c. c\<lparr>outboundFragmented := outboundFragmented c + 1\<rparr>) s1))"

section \<open>Receiving\<close>

type_synonym 'm handler = "nat \<Rightarrow> addr \<Rightarrow> addr \<Rightarrow> bytes \<Rightarrow> 'm stack_scheme \<Rightarrow> 'm stack_scheme"

definition icmp_reply :: "bytes \<Rightarrow> bytes" where
  "icmp_reply icmpMsg =
     (let out = overwrite 2 [0, 0] (icmpMsg[0 := icmpTypeEchoReply])
      in overwrite 2 (be16 (internetChecksum out)) out)"

definition handleICMP :: "write_fn \<Rightarrow> nat \<Rightarrow> ipv4Header \<Rightarrow> bytes \<Rightarrow> 'm stack_scheme \<Rightarrow> 'm stack_scheme" where
  "handleICMP wr n hdr icmpMsg s =
     (if length icmpMsg < minICMPHeaderLen
      then bump (\<lambda>c. c\<lparr>malformedDropped := malformedDropped c + 1\<rparr>) s
      else if icmpMsg ! 0 \<noteq> icmpTypeEchoRequest then s
      else
        let s1 = bump (\<lambda>c. c\<lparr>icmpEchoRequests := icmpEchoRequests c + 1\<rparr>) s;
            reply = buildIPv4 [] (st_serverIP s) (ih_src hdr) protocolICMP (icmp_reply icmpMsg) in
        (case writePacket wr n reply s1 of
           (Some _, s2) \<Rightarrow> s2
         | (None, s2) \<Rightarrow> bump (\<lambda>c. c\<lparr>icmpEchoReplies := icmpEchoReplies c + 1\<rparr>) s2))"

definition dispatch :: "write_fn \<Rightarrow> 'm handler \<Rightarrow> 'm handler \<Rightarrow> nat \<Rightarrow> ipv4Header \<Rightarrow> bytes
   \<Rightarrow> 'm stack_scheme \<Rightarrow> 'm stack_scheme" where
  "dispatch wr udp tcp n hdr pkt s =
     (let payload = ip_payload hdr pkt;
          unhandled = bump (\<lambda>c. c\<lparr>unhandledProtocolDropped := unhandledProtocolDropped c + 1\<rparr>) s in
      if ih_protocol hdr = protocolICMP then handleICMP wr n hdr payload s
      else if ih_protocol hdr = protocolUDP then
        (if st_udpHandler s then udp n (ih_src hdr) (ih_dst hdr) payload s else unhandled)
      else if ih_protocol hdr = protocolTCP then
        (if st_tcpHandler s then tcp n (ih_src hdr) (ih_dst hdr) payload s else unhandled)
      else unhandled)"

definition deliver_fragment :: "write_fn \<Rightarrow> 'm handler \<Rightarrow> 'm handler \<Rightarrow> instant \<Rightarrow> nat \<Rightarrow> attachment
   \<Rightarrow> ipv4Header \<Rightarrow> bytes \<Rightarrow> 'm stack_scheme \<Rightarrow> 'm stack_scheme" where
  "deliver_fragment wr udp tcp now n a hdr pkt s =
     (let (reasm, datagram, outcome, expired) = add now hdr pkt (at_reasm a);
          s1 = s\<lparr>st_atts := (st_atts s)(n \<mapsto> a\<lparr>at_reasm := reasm\<rparr>)\<rparr>;
          s2 = (if expired > 0
                then bump (\<lambda>c. c\<lparr>reassemblyTimeouts := reassemblyTimeouts c + of_nat expired\<rparr>) s1
                else s1) in
      (case outcome of
         reasmComplete \<Rightarrow>
           (case datagram of
              None \<Rightarrow> s2
            | Some d \<Rightarrow>
                (case parseIPv4 d of
                   Inl _ \<Rightarrow> bump (\<lambda>c. c\<lparr>malformedDropped := malformedDropped c + 1\<rparr>) s2
                 | Inr whole \<Rightarrow>
                     dispatch wr udp tcp n whole d
                       (bump (\<lambda>c. c\<lparr>fragmentsReassembled := fragmentsReassembled c + 1\<rparr>) s2)))
       | reasmBoundExceeded \<Rightarrow>
           bump (\<lambda>c. c\<lparr>reassemblyBoundExceeded := reassemblyBoundExceeded c + 1\<rparr>) s2
       | reasmBuffered \<Rightarrow> s2
       | _ \<Rightarrow> bump (\<lambda>c. c\<lparr>fragmentsDropped := fragmentsDropped c + 1\<rparr>) s2))"

definition deliver :: "write_fn \<Rightarrow> 'm handler \<Rightarrow> 'm handler \<Rightarrow> instant \<Rightarrow> nat \<Rightarrow> bytes
   \<Rightarrow> 'm stack_scheme \<Rightarrow> 'm stack_scheme" where
  "deliver wr udp tcp now n pkt s0 =
     (let s = bump (\<lambda>c. c\<lparr>packetsReceived := packetsReceived c + 1\<rparr>) s0 in
      (case st_atts s n of
         None \<Rightarrow> s
       | Some a \<Rightarrow>
           (case parseIPv4 pkt of
              Inl _ \<Rightarrow> bump (\<lambda>c. c\<lparr>malformedDropped := malformedDropped c + 1\<rparr>) s
            | Inr hdr \<Rightarrow>
                if ih_src hdr \<noteq> at_ip a
                then bump (\<lambda>c. c\<lparr>spoofedSourceDropped := spoofedSourceDropped c + 1\<rparr>) s
                else if ih_dst hdr \<noteq> st_serverIP s
                then bump (\<lambda>c. c\<lparr>wrongDestinationDropped := wrongDestinationDropped c + 1\<rparr>) s
                else if isFragment hdr then deliver_fragment wr udp tcp now n a hdr pkt s
                else dispatch wr udp tcp n hdr pkt s)))"

text \<open>
  An iteration of the read loop has two atomic parts, since other goroutines may stop the
  attachment while \<^verbatim>\<open>Read\<close> blocks: the test before the call, and what follows its return
  with the packet (\<open>None\<close> an error) into a buffer of \<open>buflen\<close> bytes. The second part gives
  the size of the buffer for the next iteration, or \<open>None\<close> when the loop returns.
\<close>

definition is_stopped :: "nat \<Rightarrow> 'm stack_scheme \<Rightarrow> bool" where
  "is_stopped n s = (case st_atts s n of None \<Rightarrow> True | Some a \<Rightarrow> at_stopped a)"

definition readLoop_enters :: "nat \<Rightarrow> 'm stack_scheme \<Rightarrow> bool" where
  "readLoop_enters n s \<longleftrightarrow> \<not> is_stopped n s"

definition readLoop_return :: "write_fn \<Rightarrow> 'm handler \<Rightarrow> 'm handler \<Rightarrow> instant \<Rightarrow> nat \<Rightarrow> bytes option
   \<Rightarrow> nat \<Rightarrow> 'm stack_scheme \<Rightarrow> nat option \<times> 'm stack_scheme" where
  "readLoop_return wr udp tcp now n rd buflen s =
     (case rd of
        None \<Rightarrow>
          if buflen < maxReadRetryBufferSize
          then (Some maxReadRetryBufferSize,
                bump (\<lambda>c. c\<lparr>shortReadBufferGrown := shortReadBufferGrown c + 1\<rparr>) s)
          else (None, detachAttachment n s)
      | Some pkt \<Rightarrow>
          if is_stopped n s then (None, s)
          else (Some buflen, deliver wr udp tcp now n pkt s))"

section \<open>Frames\<close>

lemma bump_fields [simp]:
  "st_serverIP (bump f s) = st_serverIP s" "st_mtu (bump f s) = st_mtu s"
  "st_reasmLimits (bump f s) = st_reasmLimits s" "st_ipID (bump f s) = st_ipID s"
  "st_routes (bump f s) = st_routes s" "st_udpHandler (bump f s) = st_udpHandler s"
  "st_tcpHandler (bump f s) = st_tcpHandler s" "st_stats (bump f s) = f (st_stats s)"
  "st_stopped (bump f s) = st_stopped s" "st_atts (bump f s) = st_atts s"
  "st_next (bump f s) = st_next s" "st_sent (bump f s) = st_sent s"
  "stack.more (bump f s) = stack.more s"
  by (simp_all add: bump_def)

text \<open>
  What sending and handling a packet leave alone: everything but the counters, the
  identification counter and the packets sent, and the state of the layers above.
\<close>

definition same_core :: "'m stack_scheme \<Rightarrow> 'm stack_scheme \<Rightarrow> bool" where
  "same_core s s' \<longleftrightarrow> st_serverIP s' = st_serverIP s \<and> st_mtu s' = st_mtu s
     \<and> st_reasmLimits s' = st_reasmLimits s \<and> st_routes s' = st_routes s
     \<and> st_udpHandler s' = st_udpHandler s \<and> st_tcpHandler s' = st_tcpHandler s
     \<and> st_stopped s' = st_stopped s \<and> st_atts s' = st_atts s \<and> st_next s' = st_next s"

lemma same_core_refl [simp]: "same_core s s" "same_core s (bump f s') = same_core s s'"
  "same_core (bump f s) s' = same_core s s'"
  "same_core s (s'\<lparr>st_sent := x\<rparr>) = same_core s s'" "same_core s (s'\<lparr>st_ipID := i\<rparr>) = same_core s s'"
  by (simp_all add: same_core_def)

lemma same_core_trans: "same_core s t \<Longrightarrow> same_core t u \<Longrightarrow> same_core s u"
  by (simp add: same_core_def)

lemma write_all_spec:
  "\<exists>k. snd (write_all wr n ps s) = s\<lparr>st_sent := st_sent s @ map (Pair n) (take k ps)\<rparr>
     \<and> (fst (write_all wr n ps s) = None \<longleftrightarrow> list_all (wr n) ps)
     \<and> (fst (write_all wr n ps s) = None \<longrightarrow> k = length ps)"
proof (induction wr n ps s rule: write_all.induct)
  case (2 wr n p ps s)
  show ?case
  proof (cases "wr n p")
    case True
    then obtain k where
      "snd (write_all wr n ps (s\<lparr>st_sent := st_sent s @ [(n, p)]\<rparr>))
        = s\<lparr>st_sent := (st_sent s @ [(n, p)]) @ map (Pair n) (take k ps)\<rparr>"
      and "fst (write_all wr n ps (s\<lparr>st_sent := st_sent s @ [(n, p)]\<rparr>)) = None \<longleftrightarrow> list_all (wr n) ps"
      and "fst (write_all wr n ps (s\<lparr>st_sent := st_sent s @ [(n, p)]\<rparr>)) = None \<longrightarrow> k = length ps"
      using 2 [OF True] by (elim exE conjE) simp
    with True show ?thesis
      by (intro exI [of _ "Suc k"]) simp
  next
    case False
    then show ?thesis
      by (intro exI [of _ 0]) simp
  qed
qed simp

lemma write_all_core [simp]: "same_core s (snd (write_all wr n ps s))"
  using write_all_spec [of wr n ps s] by auto

lemma write_all_more [simp]: "stack.more (snd (write_all wr n ps s)) = stack.more s"
  using write_all_spec [of wr n ps s] by auto

lemma writePacket_core: "same_core s (snd (writePacket wr n pkt s))"
  and writePacket_more: "stack.more (snd (writePacket wr n pkt s)) = stack.more s"
proof -
  have "same_core s (snd (write_all wr n ps (bump f (s\<lparr>st_ipID := i\<rparr>))))"
    "stack.more (snd (write_all wr n ps (bump f (s\<lparr>st_ipID := i\<rparr>)))) = stack.more s" for ps f i
    by (rule same_core_trans [OF _ write_all_core], simp) simp
  then show "same_core s (snd (writePacket wr n pkt s))"
    "stack.more (snd (writePacket wr n pkt s)) = stack.more s"
    by (auto simp: writePacket_def Let_def simp del: write_all.simps split: sum.split)
qed

lemma handleICMP_core: "same_core s (handleICMP wr n hdr msg s)"
proof -
  have "same_core s s'" if "writePacket wr n p (bump f s) = (e, s')" for p f e s'
    using writePacket_core [of "bump f s" wr n p] that by simp
  then show ?thesis
    by (auto simp: handleICMP_def Let_def split: prod.split option.split)
qed

section \<open>The interface of a protocol handler\<close>

text \<open>
  The contract behind the \<^verbatim>\<open>protocolHandler\<close> seam: a handler may count, send and change
  its own layer's state, and leaves the routes, the attachments and the configuration
  alone. \<open>stack_handlers\<close> is what the receiving path relies on.
\<close>

locale protocol_handler =
  fixes h :: "nat \<Rightarrow> addr \<Rightarrow> addr \<Rightarrow> bytes \<Rightarrow> 'm stack_scheme \<Rightarrow> 'm stack_scheme"
  assumes handler_core: "same_core s (h n src dst payload s)"

locale stack_handlers = udp: protocol_handler udp + tcp: protocol_handler tcp
  for udp tcp :: "nat \<Rightarrow> addr \<Rightarrow> addr \<Rightarrow> bytes \<Rightarrow> 'm stack_scheme \<Rightarrow> 'm stack_scheme"
begin

lemma dispatch_core: "same_core s (dispatch wr udp tcp n hdr pkt s)"
  by (simp add: dispatch_def Let_def handleICMP_core udp.handler_core tcp.handler_core)

lemma deliver_fragment_frame:
  assumes "st_atts s n = Some a" and "add now hdr pkt (at_reasm a) = (r, d, out, e)"
  shows "same_core (s\<lparr>st_atts := (st_atts s)(n \<mapsto> a\<lparr>at_reasm := r\<rparr>)\<rparr>)
    (deliver_fragment wr udp tcp now n a hdr pkt s)"
proof -
  let ?s1 = "s\<lparr>st_atts := (st_atts s)(n \<mapsto> a\<lparr>at_reasm := r\<rparr>)\<rparr>"
  have "same_core ?s1 (dispatch wr udp tcp n whole p s2)" if "same_core ?s1 s2" for whole p s2
    using that dispatch_core by (rule same_core_trans)
  then show ?thesis
    using assms
    by (simp add: deliver_fragment_def Let_def split: reasmOutcome.split option.split sum.split)
qed

text \<open>
  Delivering a packet to one attachment changes at most the reassembly state of that
  attachment, and by exactly one call of \<open>add\<close> that passed both access checks.
\<close>

lemma deliver_frame:
  "same_core s (deliver wr udp tcp now n pkt s)
   \<or> (\<exists>a hdr r d out e. st_atts s n = Some a \<and> parseIPv4 pkt = Inr hdr \<and> isFragment hdr
        \<and> ih_src hdr = at_ip a \<and> ih_dst hdr = st_serverIP s
        \<and> add now hdr pkt (at_reasm a) = (r, d, out, e)
        \<and> same_core (s\<lparr>st_atts := (st_atts s)(n \<mapsto> a\<lparr>at_reasm := r\<rparr>)\<rparr>)
             (deliver wr udp tcp now n pkt s))"
proof (cases "st_atts s n")
  case None
  then show ?thesis by (simp add: deliver_def)
next
  case (Some a)
  let ?s = "bump (\<lambda>c. c\<lparr>packetsReceived := packetsReceived c + 1\<rparr>) s"
  show ?thesis
  proof (cases "parseIPv4 pkt")
    case (Inl e)
    with Some show ?thesis by (simp add: deliver_def)
  next
    case (Inr hdr)
    show ?thesis
    proof (cases "ih_src hdr = at_ip a \<and> ih_dst hdr = st_serverIP s \<and> isFragment hdr")
      case True
      obtain r d out e where res: "add now hdr pkt (at_reasm a) = (r, d, out, e)"
        by (rule prod_cases4)
      have "same_core (s\<lparr>st_atts := (st_atts s)(n \<mapsto> a\<lparr>at_reasm := r\<rparr>)\<rparr>)
             (deliver_fragment wr udp tcp now n a hdr pkt ?s)"
        using deliver_fragment_frame [of ?s n a now hdr pkt r d out e] Some res
        by (simp add: same_core_def)
      with True Some Inr res show ?thesis
        by (simp add: deliver_def)
    next
      case False
      have "same_core s (dispatch wr udp tcp n hdr pkt ?s)"
        by (rule same_core_trans [OF _ dispatch_core]) simp
      with False Some Inr show ?thesis
        by (auto simp: deliver_def Let_def)
    qed
  qed
qed

end

text \<open>The ICMP responder obeys the contract too.\<close>

interpretation icmp: protocol_handler
  "\<lambda>n src dst payload. handleICMP wr n (built_header src dst protocolICMP (length payload)) payload" for wr
  by unfold_locales (rule handleICMP_core)

section \<open>What is sent\<close>

lemma write_all_sent:
  assumes "write_all wr n ps s = (err, s')"
  shows "\<exists>k. st_sent s' = st_sent s @ map (Pair n) (take k ps)
    \<and> (err = None \<longleftrightarrow> list_all (wr n) ps) \<and> (err = None \<longrightarrow> k = length ps)"
proof -
  obtain k where "s' = s\<lparr>st_sent := st_sent s @ map (Pair n) (take k ps)\<rparr>"
    and rest: "err = None \<longleftrightarrow> list_all (wr n) ps" "err = None \<longrightarrow> k = length ps"
    using write_all_spec [of wr n ps s] assms by auto
  then show ?thesis
    by (intro exI [of _ k] conjI rest) simp
qed

lemma writePacket_sent:
  assumes "parseIPv4 pkt = Inr hdr" and "576 \<le> st_mtu s" and "writePacket wr n pkt s = (err, s')"
  shows "\<exists>xs. st_sent s' = st_sent s @ map (Pair n) xs
    \<and> list_all (\<lambda>x. \<exists>h. parseIPv4 x = Inr h \<and> ih_src h = st_serverIP s \<and> ih_dst h = ih_dst hdr
         \<and> ih_protocol h = ih_protocol hdr \<and> int (ih_totalLen h) \<le> st_mtu s) xs
    \<and> (err = None \<longrightarrow> xs = (if int (ih_totalLen hdr) \<le> st_mtu s then [pkt]
         else fragmentIPv4 hdr pkt (nat (st_mtu s)) (ucast (st_ipID s + 1))))"
proof (cases "ih_src hdr = st_serverIP s")
  case False
  with assms show ?thesis
    by (intro exI [of _ "[]"]) (auto simp: writePacket_def)
next
  case src: True
  show ?thesis
  proof (cases "int (ih_totalLen hdr) \<le> st_mtu s")
    case True
    have "write_all wr n [pkt] s = (err, s')"
      using assms src True by (simp add: writePacket_def)
    from write_all_sent [OF this] obtain k where
      "st_sent s' = st_sent s @ map (Pair n) (take k [pkt])" "err = None \<longrightarrow> k = length [pkt]"
      by auto
    with assms(1) src True show ?thesis
      by (intro exI [of _ "take k [pkt]"]) (auto simp: list_all_iff dest!: in_set_takeD)
  next
    case False
    let ?ps = "fragmentIPv4 hdr pkt (nat (st_mtu s)) (ucast (st_ipID s + 1))"
    let ?s = "bump (\<lambda>c. c\<lparr>outboundFragmented := outboundFragmented c + 1\<rparr>) (s\<lparr>st_ipID := st_ipID s + 1\<rparr>)"
    have fit: "ih_ihl hdr + 8 \<le> nat (st_mtu s)"
      using parse_inv(2) [OF assms(1)] assms(2) by linarith
    have each: "\<exists>h. parseIPv4 x = Inr h \<and> ih_src h = st_serverIP s \<and> ih_dst h = ih_dst hdr
         \<and> ih_protocol h = ih_protocol hdr \<and> int (ih_totalLen h) \<le> st_mtu s" if x_in: "x \<in> set ?ps" for x
    proof -
      obtain i where i: "i < length ?ps" and x: "x = ?ps ! i"
        using x_in by (auto simp: in_set_conv_nth)
      note f = fragment_list [OF assms(1) fit refl i]
      have "int (length x) \<le> st_mtu s"
        using f(1) assms(2) unfolding x by linarith
      then show ?thesis
        using f(3) src unfolding x by simp
    qed
    show ?thesis
    proof (cases "?ps = []")
      case True
      with False src assms show ?thesis
        by (intro exI [of _ "[]"]) (auto simp: writePacket_def Let_def)
    next
      case nonempty: False
      have "write_all wr n ?ps ?s = (err, s')"
        using assms src False nonempty by (simp add: writePacket_def Let_def)
      from write_all_sent [OF this] obtain k where
        "st_sent s' = st_sent s @ map (Pair n) (take k ?ps)" "err = None \<longrightarrow> k = length ?ps"
        by auto
      with each False show ?thesis
        by (intro exI [of _ "take k ?ps"]) (auto simp: list_all_iff dest!: in_set_takeD)
    qed
  qed
qed

section \<open>The invariant of routes and attachments\<close>

definition att_ok :: "attachment \<Rightarrow> bool" where
  "att_ok a \<longleftrightarrow> reasm_inv (at_reasm a) \<and> (at_stopped a \<longrightarrow> ra_closed (at_reasm a) \<and> ra_bytes (at_reasm a) = 0)"

definition stack_inv :: "'m stack_scheme \<Rightarrow> bool" where
  "stack_inv s \<longleftrightarrow> distinct (map fst (st_routes s)) \<and> st_serverIP s \<notin> fst ` set (st_routes s)
     \<and> (\<forall>ip n. (ip, n) \<in> set (st_routes s) \<longrightarrow>
          (\<exists>a. st_atts s n = Some a \<and> at_ip a = ip \<and> \<not> at_stopped a))
     \<and> (\<forall>n. st_next s \<le> n \<longrightarrow> st_atts s n = None)
     \<and> (\<forall>n a. st_atts s n = Some a \<longrightarrow> att_ok a)"

lemma stack_inv_core: "same_core s s' \<Longrightarrow> stack_inv s \<Longrightarrow> stack_inv s'"
  by (simp add: same_core_def stack_inv_def)

lemma stack_inv_bump [simp]: "stack_inv (bump f s) = stack_inv s"
  by (simp add: stack_inv_def)

lemma att_update_inv:
  assumes "stack_inv s" and "st_atts s n = Some a" and "att_ok b" and "at_ip b = at_ip a"
    and "at_stopped b = at_stopped a"
  shows "stack_inv (s\<lparr>st_atts := (st_atts s)(n \<mapsto> b)\<rparr>)"
proof -
  have "\<exists>c. ((st_atts s)(n \<mapsto> b)) m = Some c \<and> at_ip c = ip \<and> \<not> at_stopped c"
    if r: "(ip, m) \<in> set (st_routes s)" for ip m
  proof -
    obtain c where "st_atts s m = Some c" "at_ip c = ip" "\<not> at_stopped c"
      using assms(1) r unfolding stack_inv_def by blast
    then show ?thesis
      using assms(2,4,5) by (cases "m = n") simp_all
  qed
  then show ?thesis
    using assms(1-3) unfolding stack_inv_def by auto
qed

lemma at_stop_fields: "at_ip (at_stop a) = at_ip a" "at_stopped (at_stop a)"
  "att_ok a \<Longrightarrow> att_ok (at_stop a)"
  by (simp_all add: at_stop_def att_ok_def discardAll_inv) (simp add: discardAll_def)

lemma stop_att_inv:
  assumes "stack_inv s" and "n \<notin> snd ` set (st_routes s)"
  shows "stack_inv (stop_att n s)"
proof -
  have "att_ok b" if "st_atts (stop_att n s) m = Some b" for m b
    using that assms(1) at_stop_fields(3)
    by (auto simp: stop_att_def stack_inv_def split: if_splits)
  moreover have "\<exists>a. st_atts (stop_att n s) m = Some a \<and> at_ip a = ip \<and> \<not> at_stopped a"
    if "(ip, m) \<in> set (st_routes s)" for ip m
  proof -
    have "m \<noteq> n"
      using that assms(2) by force
    with that assms(1) show ?thesis
      by (simp add: stop_att_def stack_inv_def)
  qed
  ultimately show ?thesis
    using assms(1) by (auto simp: stack_inv_def stop_att_def)
qed

lemma route_delete_inv:
  assumes "stack_inv s"
  shows "stack_inv (s\<lparr>st_routes := route_delete ip (st_routes s)\<rparr>)"
  using assms by (auto simp: stack_inv_def route_delete_def distinct_map_filter)

lemma route_unique:
  assumes "stack_inv s" and "(ip, n) \<in> set (st_routes s)" and "(ip', n) \<in> set (st_routes s)"
  shows "ip' = ip"
proof -
  obtain a where "st_atts s n = Some a" "at_ip a = ip"
    using assms(1,2) unfolding stack_inv_def by blast
  moreover obtain a' where "st_atts s n = Some a'" "at_ip a' = ip'"
    using assms(1,3) unfolding stack_inv_def by blast
  ultimately show ?thesis
    by simp
qed

lemma remove_route_inv:
  assumes "stack_inv s" and "route_of ip s = Some n"
  shows "stack_inv (stop_att n (s\<lparr>st_routes := route_delete ip (st_routes s)\<rparr>))"
proof (rule stop_att_inv [OF route_delete_inv [OF assms(1)]])
  have "(ip, n) \<in> set (st_routes s)"
    using assms(2) by (simp add: route_of_def map_of_SomeD)
  then show "n \<notin> snd ` set (st_routes (s\<lparr>st_routes := route_delete ip (st_routes s)\<rparr>))"
    using route_unique [OF assms(1)] by (force simp: route_delete_def)
qed

lemma Attach_inv:
  assumes "stack_inv s" and "Attach sess_nil ip s = (res, s')"
  shows "stack_inv s'"
proof -
  have new: "stack_inv (s\<lparr>st_routes := (a, st_next s) # st_routes s,
      st_atts := (st_atts s)(st_next s \<mapsto> \<lparr>at_ip = a, at_stopped = False,
        at_reasm = new_reassembler x y z\<rparr>), st_next := Suc (st_next s)\<rparr>)"
    if "a \<noteq> st_serverIP s" "route_of a s = None" for a x y z
  proof -
    have fresh: "a \<notin> fst ` set (st_routes s)"
      using that(2) by (simp add: route_of_def map_of_eq_None_iff)
    have "m \<noteq> st_next s" if "(i, m) \<in> set (st_routes s)" for i m
      using that assms(1) unfolding stack_inv_def by (metis option.distinct(1) order_refl)
    then show ?thesis
      using assms(1) that(1) fresh new_inv [of x y z] unfolding stack_inv_def
      by (auto simp: att_ok_def)
  qed
  show ?thesis
    using assms new by (auto simp: Attach_def Let_def split: if_splits sum.splits)
qed

lemma Detach_inv:
  assumes "stack_inv s" and "Detach ip s = (res, s')"
  shows "stack_inv s'"
  using assms remove_route_inv by (auto simp: Detach_def split: sum.splits option.splits)

lemma detachAttachment_inv:
  assumes "stack_inv s"
  shows "stack_inv (detachAttachment n s)"
proof (cases "st_atts s n")
  case (Some a)
  show ?thesis
  proof (cases "route_of (at_ip a) s = Some n")
    case True
    with Some show ?thesis
      using remove_route_inv [OF assms True] by (simp add: detachAttachment_def)
  next
    case False
    have "n \<notin> snd ` set (st_routes s)"
    proof
      assume "n \<in> snd ` set (st_routes s)"
      then obtain ip where r: "(ip, n) \<in> set (st_routes s)"
        by auto
      then have "at_ip a = ip"
        using assms Some unfolding stack_inv_def by (metis option.inject)
      with r False assms show False
        by (simp add: route_of_def stack_inv_def)
    qed
    with Some False stop_att_inv [OF assms] show ?thesis
      by (simp add: detachAttachment_def)
  qed
qed (simp add: detachAttachment_def assms)

lemma stop_att_fields [simp]: "st_routes (stop_att n s) = st_routes s"
  by (simp add: stop_att_def)

lemma Close_inv:
  fixes s :: "'m stack_scheme"
  assumes "stack_inv s"
  shows "stack_inv (Close_stack s)"
proof -
  have "stack_inv (fold (\<lambda>r. stop_att (snd r)) rs t)" if "stack_inv t" "st_routes t = []"
    for rs :: "(addr \<times> nat) list" and t :: "'m stack_scheme"
    using that by (induction rs arbitrary: t) (simp_all add: stop_att_inv)
  moreover have "stack_inv (s\<lparr>st_stopped := True, st_routes := []\<rparr>)"
    using assms by (simp add: stack_inv_def)
  ultimately show ?thesis
    using assms by (simp add: Close_stack_def)
qed

context stack_handlers
begin

lemma deliver_inv:
  assumes "stack_inv s"
  shows "stack_inv (deliver wr udp tcp now n pkt s)"
  using deliver_frame [of s wr now n pkt]
proof (elim disjE exE conjE)
  assume "same_core s (deliver wr udp tcp now n pkt s)"
  then show ?thesis
    using assms by (rule stack_inv_core)
next
  fix a hdr r d out e
  assume a: "st_atts s n = Some a" and frag: "parseIPv4 pkt = Inr hdr" "isFragment hdr"
    and res: "add now hdr pkt (at_reasm a) = (r, d, out, e)"
    and core: "same_core (s\<lparr>st_atts := (st_atts s)(n \<mapsto> a\<lparr>at_reasm := r\<rparr>)\<rparr>)
      (deliver wr udp tcp now n pkt s)"
  have ok: "att_ok a"
    using assms a by (simp add: stack_inv_def)
  then have inv: "reasm_inv r" "ra_closed r = ra_closed (at_reasm a)"
    using add_inv [OF _ frag res] by (simp_all add: att_ok_def same_limits_def)
  have "att_ok (a\<lparr>at_reasm := r\<rparr>)"
    using ok inv res by (auto simp: att_ok_def add_def)
  then have "stack_inv (s\<lparr>st_atts := (st_atts s)(n \<mapsto> a\<lparr>at_reasm := r\<rparr>)\<rparr>)"
    by (rule att_update_inv [OF assms a]) simp_all
  then show ?thesis
    by (rule stack_inv_core [OF core])
qed

lemma readLoop_inv:
  assumes "stack_inv s" and "readLoop_return wr udp tcp now n rd buflen s = (x, s')"
  shows "stack_inv s'"
  using assms deliver_inv detachAttachment_inv
  by (auto simp: readLoop_return_def split: option.splits if_splits)

end

section \<open>Reachable stacks\<close>

text \<open>
  One clause per event of the running stack. The layers above act between events: any
  change that leaves the core alone, and the registration of their handlers.
\<close>

inductive stack_run ::
  "'m handler \<Rightarrow> 'm handler \<Rightarrow> 'm stack_scheme \<Rightarrow> 'm stack_scheme \<Rightarrow> bool" for udp tcp s0 where
  run_start: "stack_run udp tcp s0 s0"
| run_attach: "stack_run udp tcp s0 s \<Longrightarrow> Attach sess_nil ip s = (res, s') \<Longrightarrow> stack_run udp tcp s0 s'"
| run_detach: "stack_run udp tcp s0 s \<Longrightarrow> Detach ip s = (b, s') \<Longrightarrow> stack_run udp tcp s0 s'"
| run_read: "stack_run udp tcp s0 s \<Longrightarrow> readLoop_return wr udp tcp now n rd buflen s = (x, s') \<Longrightarrow>
    stack_run udp tcp s0 s'"
| run_close: "stack_run udp tcp s0 s \<Longrightarrow> stack_run udp tcp s0 (Close_stack s)"
| run_udp: "stack_run udp tcp s0 s \<Longrightarrow> registerUDPHandler s = (e, s') \<Longrightarrow> stack_run udp tcp s0 s'"
| run_tcp: "stack_run udp tcp s0 s \<Longrightarrow> registerTCPHandler s = (e, s') \<Longrightarrow> stack_run udp tcp s0 s'"
| run_upper: "stack_run udp tcp s0 s \<Longrightarrow> same_core s s' \<Longrightarrow> stack_run udp tcp s0 s'"

lemma register_inv:
  "stack_inv s \<Longrightarrow> registerUDPHandler s = (e, s') \<Longrightarrow> stack_inv s'"
  "stack_inv s \<Longrightarrow> registerTCPHandler s = (e, s') \<Longrightarrow> stack_inv s'"
proof -
  have "stack_inv (s\<lparr>st_udpHandler := x\<rparr>) = stack_inv s" "stack_inv (s\<lparr>st_tcpHandler := x\<rparr>) = stack_inv s" for x
    by (simp_all add: stack_inv_def)
  then show "stack_inv s \<Longrightarrow> registerUDPHandler s = (e, s') \<Longrightarrow> stack_inv s'"
    "stack_inv s \<Longrightarrow> registerTCPHandler s = (e, s') \<Longrightarrow> stack_inv s'"
    by (auto simp: registerUDPHandler_def registerTCPHandler_def split: if_splits)
qed

context stack_handlers
begin

lemma run_inv: "stack_run udp tcp s0 s \<Longrightarrow> stack_inv s0 \<Longrightarrow> stack_inv s"
proof (induction rule: stack_run.induct)
  case (run_attach s sess_nil ip res s')
  then show ?case by (blast intro: Attach_inv)
next
  case (run_detach s ip b s')
  then show ?case by (blast intro: Detach_inv)
next
  case (run_read s wr now n rd buflen x s')
  then show ?case by (blast intro: readLoop_inv)
next
  case (run_close s)
  then show ?case by (simp add: Close_inv)
next
  case (run_udp s e s')
  then show ?case by (blast intro: register_inv)
next
  case (run_tcp s e s')
  then show ?case by (blast intro: register_inv)
next
  case (run_upper s s')
  then show ?case by (blast intro: stack_inv_core)
qed

end

lemma fold_apply_option:
  "st_routes (fold apply_option opts s) = st_routes s \<and> st_atts (fold apply_option opts s) = st_atts s"
proof (induction opts arbitrary: s)
  case (Cons opt opts)
  then show ?case by (cases opt) simp_all
qed simp

lemma New_stack_inv: "New_stack ip opts = Inr s \<Longrightarrow> stack_inv s"
  using fold_apply_option
  by (auto simp: New_stack_def Let_def stack_inv_def split: option.splits if_splits)

section \<open>Properties\<close>

text \<open>
  C17. Routing over any history of attaching, detaching, reading, closing and upper-layer
  activity: no address is routed twice, the server's own address never is, every route
  leads to a live attachment that registered exactly that address, and a stopped
  attachment holds no reassembly bytes and accepts no more.
\<close>

theorem routes_lead_to_live_attachments:
  assumes "stack_handlers udp tcp" and "New_stack ip opts = Inr s0" and "stack_run udp tcp s0 s"
  shows "distinct (map fst (st_routes s)) \<and> route_of (st_serverIP s) s = None
    \<and> (\<forall>a n. route_of a s = Some n \<longrightarrow>
         (\<exists>att. st_atts s n = Some att \<and> at_ip att = a \<and> \<not> at_stopped att))
    \<and> (\<forall>n att. st_atts s n = Some att \<and> at_stopped att \<longrightarrow>
         ra_closed (at_reasm att) \<and> ra_bytes (at_reasm att) = 0)"
proof -
  have "stack_inv s"
    using stack_handlers.run_inv [OF assms(1,3)] New_stack_inv [OF assms(2)] by blast
  then show ?thesis
    unfolding stack_inv_def att_ok_def route_of_def
    by (auto simp: map_of_eq_None_iff dest: map_of_SomeD)
qed

lemma idle_handlers: "stack_handlers (\<lambda>_ _ _ _ s. s) (\<lambda>_ _ _ _ s. s)"
  by (simp add: stack_handlers_def protocol_handler_def)

definition demo_stack :: stack where
  "demo_stack = \<lparr> st_serverIP = 0x0A080001, st_mtu = 1500,
     st_reasmLimits = \<lparr> MaxDatagramsPerAttachment = 0, MaxBytesPerAttachment = 0, rl_Timeout = 0 \<rparr>,
     st_ipID = 0, st_routes = [], st_udpHandler = False, st_tcpHandler = False,
     st_stats = zero_stats, st_stopped = False, st_atts = (\<lambda>_. None), st_next = 0, st_sent = [] \<rparr>"

lemma demo_New: "New_stack (Some [10, 8, 0, 1]) [] = Inr demo_stack"
  by (simp add: New_stack_def To4_def Let_def demo_stack_def govpn_consts AddrFrom4_def get32_def)

theorem routes_lead_to_live_attachments_witness:
  "(case Attach False (Some [10, 8, 0, 2]) demo_stack of (res, s) \<Rightarrow>
      res = Inr 0 \<and> route_of 0x0A080002 s = Some 0 \<and> route_of (st_serverIP s) s = None
      \<and> (\<exists>att. st_atts s 0 = Some att \<and> at_ip att = 0x0A080002 \<and> \<not> at_stopped att))"
proof -
  obtain res s where at: "Attach False (Some [10, 8, 0, 2]) demo_stack = (res, s)"
    by fastforce
  have r: "res = Inr 0" "route_of 0x0A080002 s = Some 0"
    using at by (auto simp: Attach_def toIPv4Addr_def To4_def demo_stack_def route_of_def Let_def
        AddrFrom4_def get32_def)
  have "stack_run (\<lambda>_ _ _ _ s. s) (\<lambda>_ _ _ _ s. s) demo_stack s"
    by (rule run_attach [OF run_start at])
  from routes_lead_to_live_attachments [OF idle_handlers demo_New this] r at show ?thesis
    by simp
qed

lemma deliver_fragment_agree:
  assumes agree: "\<And>h p t. ih_src h = at_ip a \<Longrightarrow> ih_dst h = srv \<Longrightarrow>
      dispatch wr udp tcp n h p t = dispatch wr udp' tcp' n h p t"
    and inv: "reasm_inv (at_reasm a)" and hdr: "parseIPv4 pkt = Inr hdr" "isFragment hdr"
    "ih_src hdr = at_ip a" "ih_dst hdr = srv"
  shows "deliver_fragment wr udp tcp now n a hdr pkt t = deliver_fragment wr udp' tcp' now n a hdr pkt t"
proof -
  obtain r d out e where res: "add now hdr pkt (at_reasm a) = (r, d, out, e)"
    by (rule prod_cases4)
  show ?thesis
  proof (cases "out = reasmComplete")
    case True
    from reasm.checked_stays_checked [OF inv hdr res [unfolded True]] obtain p h
      where "d = Some p" "parseIPv4 p = Inr h" "ih_src h = at_ip a" "ih_dst h = srv"
      by blast
    with agree True res show ?thesis
      by (simp add: deliver_fragment_def Let_def)
  next
    case False
    with res show ?thesis
      by (cases out) (simp_all add: deliver_fragment_def Let_def)
  qed
qed

text \<open>
  C18. Everything the stack hands to a session comes from the server's own address and
  fits the MTU; when every write succeeds, what was written is the packet itself or its
  fragments under the next identification, in order; and a packet with any other source is
  refused without sending.
\<close>

theorem outbound_packets_checked:
  assumes "parseIPv4 pkt = Inr hdr" and "576 \<le> st_mtu s" and "writePacket wr n pkt s = (err, s')"
  shows "(\<exists>xs. st_sent s' = st_sent s @ map (Pair n) xs
      \<and> list_all (\<lambda>x. \<exists>h. parseIPv4 x = Inr h \<and> ih_src h = st_serverIP s \<and> ih_dst h = ih_dst hdr
           \<and> ih_protocol h = ih_protocol hdr \<and> int (ih_totalLen h) \<le> st_mtu s) xs
      \<and> (err = None \<longrightarrow> xs = (if int (ih_totalLen hdr) \<le> st_mtu s then [pkt]
           else fragmentIPv4 hdr pkt (nat (st_mtu s)) (ucast (st_ipID s + 1)))))
    \<and> (ih_src hdr \<noteq> st_serverIP s \<longrightarrow> err = Some ErrOutboundSourceMismatch \<and> st_sent s' = st_sent s)"
  using writePacket_sent [OF assms] assms by (auto simp: writePacket_def)

theorem outbound_packets_checked_witness:
  "\<exists>xs. st_sent (snd (writePacket (\<lambda>_ _. True) 0
        (buildIPv4 [] 0x0A080001 0x0A080002 17 [1, 2, 3]) demo_stack)) = map (Pair 0) xs
     \<and> list_all (\<lambda>x. \<exists>h. parseIPv4 x = Inr h \<and> ih_src h = 0x0A080001) xs"
proof -
  let ?pkt = "buildIPv4 [] 0x0A080001 0x0A080002 17 [1, 2, 3]"
  obtain err s' where w: "writePacket (\<lambda>_ _. True) 0 ?pkt demo_stack = (err, s')"
    by fastforce
  have p: "parseIPv4 ?pkt = Inr (built_header 0x0A080001 0x0A080002 17 3)" "576 \<le> st_mtu demo_stack"
    using parse_buildIPv4 [of "[1, 2, 3]"] by (simp_all add: demo_stack_def numeral_3_eq_3)
  obtain xs where sent: "st_sent s' = st_sent demo_stack @ map (Pair 0) xs"
    and all: "list_all (\<lambda>x. \<exists>h. parseIPv4 x = Inr h \<and> ih_src h = st_serverIP demo_stack
      \<and> ih_dst h = ih_dst (built_header 0x0A080001 0x0A080002 17 3)
      \<and> ih_protocol h = ih_protocol (built_header 0x0A080001 0x0A080002 17 3)
      \<and> int (ih_totalLen h) \<le> st_mtu demo_stack) xs"
    using outbound_packets_checked [OF p w] by blast
  have "list_all (\<lambda>x. \<exists>h. parseIPv4 x = Inr h \<and> ih_src h = 0x0A080001) xs"
    using all by (rule list.pred_mono_strong) (auto simp: demo_stack_def)
  moreover have "st_sent demo_stack = []"
    by (simp add: demo_stack_def)
  ultimately show ?thesis
    using sent w by (intro exI [of _ xs]) simp
qed

text \<open>
  C16. Access control on the receiving path. The UDP and TCP handlers are only ever called
  for the delivering attachment, with its registered address as source and the server's
  address as destination, reassembled datagrams included: two stacks whose handlers agree
  on such calls behave alike on every packet. And a packet with any other source or
  destination changes nothing but counters, so it allocates no reassembly state.
\<close>

theorem inbound_access_control:
  assumes att: "st_atts s n = Some a" and inv: "reasm_inv (at_reasm a)"
    and udp: "\<And>payload t. udp n (at_ip a) (st_serverIP s) payload t
      = udp' n (at_ip a) (st_serverIP s) payload t"
    and tcp: "\<And>payload t. tcp n (at_ip a) (st_serverIP s) payload t
      = tcp' n (at_ip a) (st_serverIP s) payload t"
  shows "deliver wr udp tcp now n pkt s = deliver wr udp' tcp' now n pkt s
    \<and> (\<forall>hdr. parseIPv4 pkt = Inr hdr \<and> (ih_src hdr \<noteq> at_ip a \<or> ih_dst hdr \<noteq> st_serverIP s) \<longrightarrow>
         deliver wr udp tcp now n pkt s = s\<lparr>st_stats := st_stats (deliver wr udp tcp now n pkt s)\<rparr>)"
proof (intro conjI allI impI)
  have "dispatch wr udp tcp n h p t = dispatch wr udp' tcp' n h p t"
    if "ih_src h = at_ip a" "ih_dst h = st_serverIP s" for h p t
    using that udp tcp by (simp add: dispatch_def Let_def)
  note disp = this and frag = deliver_fragment_agree [OF this inv]
  show "deliver wr udp tcp now n pkt s = deliver wr udp' tcp' now n pkt s"
    using att disp frag by (simp add: deliver_def Let_def split: sum.split)
next
  fix hdr
  assume "parseIPv4 pkt = Inr hdr \<and> (ih_src hdr \<noteq> at_ip a \<or> ih_dst hdr \<noteq> st_serverIP s)"
  with att show "deliver wr udp tcp now n pkt s = s\<lparr>st_stats := st_stats (deliver wr udp tcp now n pkt s)\<rparr>"
    by (auto simp: deliver_def Let_def bump_def)
qed

theorem inbound_access_control_witness:
  "(let s = demo_stack\<lparr>st_atts := [0 \<mapsto> \<lparr>at_ip = 0x0A080002, at_stopped = False,
              at_reasm = fresh_reassembler\<rparr>], st_udpHandler := True\<rparr>;
        pkt = buildIPv4 [] 0x0A080003 0x0A080001 17 [1, 2, 3];
        hostile = (\<lambda>n src dst payload t. if src = 0x0A080002 then t else t\<lparr>st_next := 99\<rparr>)
    in deliver (\<lambda>_ _. True) hostile hostile 0 0 pkt s
       = deliver (\<lambda>_ _. True) (\<lambda>_ _ _ _ t. t) (\<lambda>_ _ _ _ t. t) 0 0 pkt s
     \<and> st_atts (deliver (\<lambda>_ _. True) hostile hostile 0 0 pkt s) = st_atts s)"
proof -
  let ?a = "\<lparr>at_ip = 0x0A080002, at_stopped = False, at_reasm = fresh_reassembler\<rparr>"
  let ?s = "demo_stack\<lparr>st_atts := [0 \<mapsto> ?a], st_udpHandler := True\<rparr>"
  let ?pkt = "buildIPv4 [] 0x0A080003 0x0A080001 17 [1, 2, 3]"
  let ?h = "\<lambda>n src dst payload t. if src = (0x0A080002 :: addr) then t else t\<lparr>st_next := 99\<rparr>"
  have "st_atts ?s 0 = Some ?a" "reasm_inv (at_reasm ?a)"
    using new_inv by simp_all
  note c = inbound_access_control [OF this, of ?h "\<lambda>_ _ _ _ t. t" ?h "\<lambda>_ _ _ _ t. t"
      "\<lambda>_ _. True" 0 ?pkt]
  have "parseIPv4 ?pkt = Inr (built_header 0x0A080003 0x0A080001 17 3)"
    using parse_buildIPv4 [of "[1, 2, 3]"] by (simp add: numeral_3_eq_3)
  moreover have "ih_src (built_header 0x0A080003 0x0A080001 17 3) \<noteq> at_ip ?a"
    by (simp add: built_header_def)
  ultimately have "deliver (\<lambda>_ _. True) ?h ?h 0 0 ?pkt ?s
    = ?s\<lparr>st_stats := st_stats (deliver (\<lambda>_ _. True) ?h ?h 0 0 ?pkt ?s)\<rparr>"
    using c by auto
  from arg_cong [OF this, of st_atts] c show ?thesis
    by (simp add: Let_def)
qed

end
