(* ===== verification/Transit.thy ===== *)
theory Transit
  imports Stack Fragment_Order
begin

text \<open>
  A packet on its way between two stacks: what \<open>writePacket\<close> hands to the session of one
  stack, delivered in any order to the attachment of another, is dispatched there once with
  the payload that was sent. The transport layers build their end-to-end theorems on this.
\<close>

section \<open>Receiving several packets\<close>

definition receive_all :: "write_fn \<Rightarrow> 'm handler \<Rightarrow> 'm handler \<Rightarrow> nat \<Rightarrow> (instant \<times> bytes) list
   \<Rightarrow> 'm stack_scheme \<Rightarrow> 'm stack_scheme" where
  "receive_all wr udp tcp n ps s = fold (\<lambda>(now, p). deliver wr udp tcp now n p) ps s"

text \<open>What delivering leaves alone before a datagram is dispatched.\<close>

definition quiet :: "'m stack_scheme \<Rightarrow> 'm stack_scheme \<Rightarrow> bool" where
  "quiet s s' \<longleftrightarrow> stack.more s' = stack.more s \<and> st_udpHandler s' = st_udpHandler s
     \<and> st_tcpHandler s' = st_tcpHandler s \<and> st_serverIP s' = st_serverIP s \<and> st_mtu s' = st_mtu s
     \<and> st_routes s' = st_routes s \<and> st_sent s' = st_sent s"

lemma quiet_trans: "quiet s t \<Longrightarrow> quiet t u \<Longrightarrow> quiet s u"
  by (simp add: quiet_def)

lemma quiet_bump [simp]: "quiet s (bump f t) = quiet s t"
  by (simp add: quiet_def)

definition from_peer :: "attachment \<Rightarrow> addr \<Rightarrow> bytes \<Rightarrow> bool" where
  "from_peer a srv p \<longleftrightarrow>
     (\<exists>h. parseIPv4 p = Inr h \<and> isFragment h \<and> ih_src h = at_ip a \<and> ih_dst h = srv)"

lemma deliver_checked_fragment:
  assumes "st_atts s n = Some a" and "parseIPv4 p = Inr h" and "isFragment h"
    and "ih_src h = at_ip a" and "ih_dst h = st_serverIP s"
  shows "deliver wr udp tcp now n p s = deliver_fragment wr udp tcp now n a h p
    (bump (\<lambda>c. c\<lparr>packetsReceived := packetsReceived c + 1\<rparr>) s)"
  using assms by (simp add: deliver_def Let_def)

lemma deliver_buffered:
  assumes "st_atts s n = Some a" and "add now h p (at_reasm a) = (r, None, reasmBuffered, e)"
  shows "\<exists>c. deliver_fragment wr udp tcp now n a h p (bump f s)
    = s\<lparr>st_stats := c, st_atts := (st_atts s)(n \<mapsto> a\<lparr>at_reasm := r\<rparr>)\<rparr>"
proof -
  let ?c = "if e > 0 then f (st_stats s)
      \<lparr>reassemblyTimeouts := reassemblyTimeouts (f (st_stats s)) + of_nat e\<rparr> else f (st_stats s)"
  have "deliver_fragment wr udp tcp now n a h p (bump f s)
    = s\<lparr>st_stats := ?c, st_atts := (st_atts s)(n \<mapsto> a\<lparr>at_reasm := r\<rparr>)\<rparr>"
    using assms by (simp add: deliver_fragment_def Let_def bump_def)
  then show ?thesis ..
qed

lemma deliver_completed:
  assumes "st_atts s n = Some a" and "add now h p (at_reasm a) = (r, Some d, reasmComplete, e)"
    and "parseIPv4 d = Inr w"
  shows "\<exists>s'. deliver_fragment wr udp tcp now n a h p (bump f s) = dispatch wr udp tcp n w d s' \<and> quiet s s'"
proof -
  let ?s1 = "(bump f s)\<lparr>st_atts := (st_atts s)(n \<mapsto> a\<lparr>at_reasm := r\<rparr>)\<rparr>"
  let ?s2 = "if e > 0 then bump (\<lambda>c. c\<lparr>reassemblyTimeouts := reassemblyTimeouts c + of_nat e\<rparr>) ?s1 else ?s1"
  let ?s3 = "bump (\<lambda>c. c\<lparr>fragmentsReassembled := fragmentsReassembled c + 1\<rparr>) ?s2"
  have "deliver_fragment wr udp tcp now n a h p (bump f s) = dispatch wr udp tcp n w d ?s3"
    using assms by (simp add: deliver_fragment_def Let_def)
  moreover have "quiet s ?s1"
    by (simp add: quiet_def bump_def)
  then have "quiet s ?s3"
    by simp
  ultimately show ?thesis
    by blast
qed

lemma receive_fragments:
  assumes "st_atts s n = Some a" and "list_all (\<lambda>(now, p). from_peer a (st_serverIP s) p) ps"
    and "offer_all ps (at_reasm a) = replicate k (None, reasmBuffered) @ [(Some d, reasmComplete)]"
    and "parseIPv4 d = Inr w"
  shows "\<exists>s'. receive_all wr udp tcp n ps s = dispatch wr udp tcp n w d s' \<and> quiet s s'"
  using assms
proof (induction ps arbitrary: s a k)
  case (Cons x ps)
  obtain now p where x: "x = (now, p)"
    by fastforce
  obtain h where h: "parseIPv4 p = Inr h" "isFragment h" "ih_src h = at_ip a" "ih_dst h = st_serverIP s"
    using Cons.prems(2) x by (auto simp: from_peer_def)
  obtain r d0 out e where res: "add now h p (at_reasm a) = (r, d0, out, e)"
    by (rule prod_cases4)
  note step = deliver_checked_fragment [OF Cons.prems(1) h]
  have off: "(d0, out) # offer_all ps r = replicate k (None, reasmBuffered) @ [(Some d, reasmComplete)]"
    using Cons.prems(3) x h(1) res by simp
  show ?case
  proof (cases k)
    case 0
    then have one: "d0 = Some d" "out = reasmComplete" "offer_all ps r = []"
      using off by auto
    have "ps = []"
      using one(3) Cons.prems(2) by (cases ps) (auto simp: from_peer_def split: prod.splits)
    moreover obtain s' where "deliver_fragment wr udp tcp now n a h p
        (bump (\<lambda>c. c\<lparr>packetsReceived := packetsReceived c + 1\<rparr>) s) = dispatch wr udp tcp n w d s'" "quiet s s'"
      using deliver_completed [OF Cons.prems(1) res [unfolded one(1,2)] Cons.prems(4)] by blast
    ultimately show ?thesis
      using x step by (auto simp: receive_all_def)
  next
    case (Suc k')
    then have buf: "d0 = None" "out = reasmBuffered"
      "offer_all ps r = replicate k' (None, reasmBuffered) @ [(Some d, reasmComplete)]"
      using off by auto
    obtain c where c: "deliver_fragment wr udp tcp now n a h p
        (bump (\<lambda>c. c\<lparr>packetsReceived := packetsReceived c + 1\<rparr>) s)
      = s\<lparr>st_stats := c, st_atts := (st_atts s)(n \<mapsto> a\<lparr>at_reasm := r\<rparr>)\<rparr>" (is "_ = ?t")
      using deliver_buffered [OF Cons.prems(1) res [unfolded buf(1,2)]] by blast
    have "st_atts ?t n = Some (a\<lparr>at_reasm := r\<rparr>)" "quiet s ?t"
      "list_all (\<lambda>(now, p). from_peer (a\<lparr>at_reasm := r\<rparr>) (st_serverIP ?t) p) ps"
      using Cons.prems(2) by (simp_all add: quiet_def from_peer_def)
    from Cons.IH [OF this(1,3) _ Cons.prems(4), of k'] buf(3)
    obtain s' where "receive_all wr udp tcp n ps ?t = dispatch wr udp tcp n w d s'" "quiet ?t s'"
      by auto
    with \<open>quiet s ?t\<close> x step c show ?thesis
      by (auto simp: receive_all_def intro: quiet_trans)
  qed
qed simp

section \<open>From one stack to another\<close>

definition in_time :: "reassembler \<Rightarrow> instant list \<Rightarrow> bool" where
  "in_time r ts \<longleftrightarrow> list_all (\<lambda>t. t < add_duration (hd ts) (reasm_timeout r)) ts"

definition arrival_order :: "nat list \<Rightarrow> 'a list \<Rightarrow> bool" where
  "arrival_order order xs \<longleftrightarrow> distinct order \<and> set order = {..<length xs}"

lemma write_all_ok: "(\<And>x. wr n x) \<Longrightarrow> fst (write_all wr n ps s) = None"
  by (induction ps arbitrary: s) simp_all

lemma writePacket_ok:
  assumes hdr: "parseIPv4 pkt = Inr hdr" "ih_src hdr = st_serverIP s" "576 \<le> st_mtu s"
    and wr: "\<And>x. wr n x"
  shows "\<exists>s'. writePacket wr n pkt s = (None, s')
    \<and> st_sent s' = st_sent s @ map (Pair n) (if int (ih_totalLen hdr) \<le> st_mtu s then [pkt]
         else fragmentIPv4 hdr pkt (nat (st_mtu s)) (ucast (st_ipID s + 1)))"
proof -
  obtain err s' where w: "writePacket wr n pkt s = (err, s')"
    by fastforce
  have "err = None"
  proof (cases "int (ih_totalLen hdr) \<le> st_mtu s")
    case True
    with hdr wr w show ?thesis
      by (simp add: writePacket_def)
  next
    case False
    have "ih_ihl hdr \<le> 60" "ih_ihl hdr \<le> ih_totalLen hdr"
      using parse_inv(2,3) [OF hdr(1)] by linarith+
    then have m: "0 < (nat (st_mtu s) - ih_ihl hdr) div 8 * 8" "0 < length (ip_payload hdr pkt)"
      using hdr(3) False length_ip_payload [OF hdr(1)] by (auto simp: div_greater_zero_iff)
    let ?fs = "fragmentIPv4 hdr pkt (nat (st_mtu s)) (ucast (st_ipID s + 1))"
    have "?fs \<noteq> []"
      using m by (auto simp: fragmentIPv4_def fragment_loop.simps Let_def)
    let ?s = "bump (\<lambda>c. c\<lparr>outboundFragmented := outboundFragmented c + 1\<rparr>) (s\<lparr>st_ipID := st_ipID s + 1\<rparr>)"
    from \<open>?fs \<noteq> []\<close> False hdr w have "write_all wr n ?fs ?s = (err, s')"
      by (simp add: writePacket_def Let_def)
    then show ?thesis
      using write_all_ok [of wr n ?fs ?s, OF wr] by simp
  qed
  with writePacket_sent [OF hdr(1,3) w] w show ?thesis
    by auto
qed

lemma receive_single:
  assumes "st_atts s n = Some a" and "parseIPv4 p = Inr h" and "\<not> isFragment h"
    and "ih_src h = at_ip a" and "ih_dst h = st_serverIP s"
  shows "\<exists>s'. receive_all wr udp tcp n [(now, p)] s = dispatch wr udp tcp n h p s' \<and> quiet s s'"
  using assms
  by (intro exI [of _ "bump (\<lambda>c. c\<lparr>packetsReceived := packetsReceived c + 1\<rparr>) s"])
    (simp add: receive_all_def deliver_def Let_def quiet_def)

lemma fragments_from_peer:
  assumes "parseIPv4 pkt = Inr hdr" and "\<not> isFragment hdr" and "ih_src hdr = at_ip a"
    and "ih_ihl hdr + 8 \<le> mtu" and "mtu < ih_totalLen hdr"
    and "i < length (fragmentIPv4 hdr pkt mtu ident)"
  shows "from_peer a (ih_dst hdr) (fragmentIPv4 hdr pkt mtu ident ! i)"
proof -
  let ?m = "(mtu - ih_ihl hdr) div 8 * 8" and ?fs = "fragmentIPv4 hdr pkt mtu ident"
  note f = fragment_list [OF assms(1,4) refl assms(6)]
  have m: "0 < ?m" "?m < length (ip_payload hdr pkt)"
    using assms(4,5) length_ip_payload [OF assms(1)] parse_inv(3) [OF assms(1)]
    by (auto simp: div_greater_zero_iff)
  have "1 < length ?fs"
    using chunk_in_range [OF m(1), of 1 "length (ip_payload hdr pkt)"] m(2)
      fragmentIPv4_map [OF refl m(1), of pkt ident] by simp
  then have "Suc i < length ?fs \<or> i * ?m \<noteq> 0"
    using m(1) by (cases i) auto
  then show ?thesis
    using f(3) assms(3) by (auto simp: from_peer_def isFragment_def)
qed

text \<open>
  The transit theorem: writing succeeds, and the packets handed to the session, whatever
  the order in which they reach the peer, lead there to one dispatch of the payload.
\<close>

lemma packet_transit:
  assumes pkt: "pkt = buildIPv4 [] src dst proto payload" "length payload \<le> 65515"
    and s: "st_serverIP s = src" "576 \<le> st_mtu s" "\<And>x. wr n x"
    and t: "st_atts t m = Some a" "at_ip a = src" "st_serverIP t = dst"
    and room: "room_for payload
      \<lparr> rk_src = src, rk_dst = dst, rk_protocol = proto, rk_id = ucast (st_ipID s + 1) \<rparr> (at_reasm a)"
  shows "\<exists>s' xs. writePacket wr n pkt s = (None, s') \<and> st_sent s' = st_sent s @ map (Pair n) xs
    \<and> (\<forall>order ts. arrival_order order xs \<and> length ts = length xs \<and> in_time (at_reasm a) ts \<longrightarrow>
         (\<exists>w d t'. receive_all wr' udp tcp m (zip ts (map ((!) xs) order)) t = dispatch wr' udp tcp m w d t'
            \<and> quiet t t' \<and> ih_protocol w = proto \<and> ih_src w = src \<and> ih_dst w = dst
            \<and> ip_payload w d = payload))"
proof -
  let ?h = "built_header src dst proto (length payload)" and ?id = "ucast (st_ipID s + 1) :: u16"
  have h: "parseIPv4 pkt = Inr ?h" "ip_payload ?h pkt = payload" "\<not> isFragment ?h"
    "ih_src ?h = src" "ih_dst ?h = dst" "ih_ihl ?h = 20" "ih_protocol ?h = proto"
    using parse_buildIPv4 [OF pkt(2)] payload_buildIPv4 pkt(1)
    by (simp_all add: built_header_def isFragment_def)
  let ?xs = "if int (ih_totalLen ?h) \<le> st_mtu s then [pkt] else fragmentIPv4 ?h pkt (nat (st_mtu s)) ?id"
  obtain s' where w: "writePacket wr n pkt s = (None, s')" "st_sent s' = st_sent s @ map (Pair n) ?xs"
    using writePacket_ok [where n = n and wr = wr, OF h(1) _ s(2,3)] h(4) s(1) by auto
  have "\<exists>w d t'. receive_all wr' udp tcp m (zip ts (map ((!) ?xs) order)) t = dispatch wr' udp tcp m w d t'
            \<and> quiet t t' \<and> ih_protocol w = proto \<and> ih_src w = src \<and> ih_dst w = dst \<and> ip_payload w d = payload"
    if ord: "arrival_order order ?xs" and len: "length ts = length ?xs" and time: "in_time (at_reasm a) ts" for order ts
  proof (cases "int (ih_totalLen ?h) \<le> st_mtu s")
    case True
    have xs: "?xs = [pkt]"
      using True by (rule if_P)
    have o: "distinct order" "set order = {0}"
      using ord unfolding xs arrival_order_def by (simp_all add: lessThan_Suc)
    then have "length order = 1"
      using distinct_card [of order] by simp
    then obtain k where "order = [k]"
      by (metis One_nat_def length_0_conv length_Suc_conv)
    with o(2) have "order = [0]"
      by simp
    moreover obtain now where "ts = [now]"
      using len unfolding xs by (cases ts) auto
    ultimately have "zip ts (map ((!) ?xs) order) = [(now, pkt)]"
      unfolding xs by simp
    moreover obtain t' where "receive_all wr' udp tcp m [(now, pkt)] t = dispatch wr' udp tcp m ?h pkt t'"
      "quiet t t'"
      using receive_single [OF t(1) h(1,3)] h(4,5) t(2,3) by metis
    ultimately show ?thesis
      using h by (intro exI [of _ ?h] exI [of _ pkt] exI [of _ t']) simp
  next
    case False
    let ?mtu = "nat (st_mtu s)"
    let ?fs = "fragmentIPv4 ?h pkt ?mtu ?id"
    have xs: "?xs = ?fs"
      using False by (rule if_not_P)
    have fit: "ih_ihl ?h + 8 \<le> ?mtu" "?mtu < ih_totalLen ?h"
      using s(2) False h(6) by linarith+
    have o: "distinct order" "set order = {..<length ?fs}" "length ts = length order"
      using ord len distinct_card [of order] unfolding xs arrival_order_def by auto
    have key: "fragment_key (?h\<lparr>ih_id := ?id\<rparr>)
      = \<lparr> rk_src = src, rk_dst = dst, rk_protocol = proto, rk_id = ?id \<rparr>"
      by (simp add: fragment_key_def built_header_def)
    have room': "room_for (ip_payload ?h pkt) (fragment_key (?h\<lparr>ih_id := ?id\<rparr>)) (at_reasm a)"
      unfolding h(2) key by (rule room)
    obtain d where d: "offer_all (zip ts (map ((!) ?fs) order)) (at_reasm a)
        = replicate (length ?fs - 1) (None, reasmBuffered) @ [(Some d, reasmComplete)]"
      "parseIPv4 d = Inr (?h\<lparr>ih_id := ?id\<rparr>)" "ip_payload (?h\<lparr>ih_id := ?id\<rparr>) d = payload"
      using reassembled_any_order [OF h(1,3) fit refl room' o time [unfolded in_time_def]] h(2) by auto
    have "from_peer a (st_serverIP t) (?fs ! i)" if "i < length ?fs" for i
      using fragments_from_peer [OF h(1,3) _ fit that, of a] h(4,5) t(2,3) by simp
    then have "list_all (\<lambda>(now, p). from_peer a (st_serverIP t) p) (zip ts (map ((!) ?fs) order))"
      using o(2) by (auto simp: list_all_iff dest!: set_zip_rightD)
    from receive_fragments [OF t(1) this d(1,2)] obtain t' where
      "receive_all wr' udp tcp m (zip ts (map ((!) ?fs) order)) t
        = dispatch wr' udp tcp m (?h\<lparr>ih_id := ?id\<rparr>) d t'" "quiet t t'"
      by blast
    with d h show ?thesis
      unfolding xs by (intro exI [of _ "?h\<lparr>ih_id := ?id\<rparr>"] exI [of _ d] exI [of _ t']) simp
  qed
  with w show ?thesis
    by (intro exI [of _ s'] exI [of _ ?xs]) simp
qed

end
