(* ===== verification/Deadline.thy ===== *)
theory Deadline
  imports Govpn_Prelude
begin

text \<open>
  \<^verbatim>\<open>netstack/deadline.go\<close>: the deadline of a connection. A channel is a number and the
  closed channels are listed; closing a closed channel panics, which is the value \<open>None\<close>.
  When the armed runtime timer fires, its callback runs in a goroutine of its own and has
  to wait for the mutex: firing and the callback's critical section are two steps, and
  calls of \<open>set\<close> may come between them. The wall clock reading is an argument.
\<close>

section \<open>State and operations\<close>

record deadlineTimer =
  dl_timer :: "(instant \<times> nat) option"
  dl_ch :: nat
  dl_closed :: "nat list"
  dl_expired :: bool
  dl_fresh :: nat
  dl_started :: "nat list"

definition newDeadlineTimer :: deadlineTimer where
  "newDeadlineTimer = \<lparr> dl_timer = None, dl_ch = 0, dl_closed = [], dl_expired = False,
     dl_fresh = 1, dl_started = [] \<rparr>"

definition close_chan :: "nat \<Rightarrow> deadlineTimer \<Rightarrow> deadlineTimer option" where
  "close_chan c d = (if c \<in> set (dl_closed d) then None else Some (d\<lparr>dl_closed := c # dl_closed d\<rparr>))"

text \<open>The zero \<^verbatim>\<open>time.Time\<close> is \<open>None\<close>.\<close>

definition dl_set :: "instant \<Rightarrow> instant option \<Rightarrow> deadlineTimer \<Rightarrow> deadlineTimer option" where
  "dl_set now t d =
     (let d1 = d\<lparr>dl_timer := None\<rparr>;
          d2 = (if dl_expired d1
                then d1\<lparr>dl_ch := dl_fresh d1, dl_fresh := dl_fresh d1 + 1, dl_expired := False\<rparr>
                else d1) in
      (case t of
         None \<Rightarrow> Some d2
       | Some u \<Rightarrow>
           if u - now \<le> 0 then close_chan (dl_ch d2) (d2\<lparr>dl_expired := True\<rparr>)
           else Some (d2\<lparr>dl_timer := Some (u, dl_ch d2)\<rparr>)))"

definition dl_fire :: "instant \<Rightarrow> deadlineTimer \<Rightarrow> deadlineTimer" where
  "dl_fire now d =
     (case dl_timer d of
        Some (u, c) \<Rightarrow> if u \<le> now then d\<lparr>dl_timer := None, dl_started := dl_started d @ [c]\<rparr> else d
      | None \<Rightarrow> d)"

text \<open>The callback that entered \<^verbatim>\<open>AfterFunc\<close>'s function first takes the mutex.\<close>

definition dl_callback :: "deadlineTimer \<Rightarrow> deadlineTimer option" where
  "dl_callback d =
     (case dl_started d of
        [] \<Rightarrow> Some d
      | c # cs \<Rightarrow>
          let d1 = d\<lparr>dl_started := cs\<rparr> in
          if dl_expired d1 then Some d1 else close_chan c (d1\<lparr>dl_expired := True\<rparr>))"

definition dl_wait :: "deadlineTimer \<Rightarrow> nat" where
  "dl_wait d = dl_ch d"

definition dl_stop :: "deadlineTimer \<Rightarrow> deadlineTimer" where
  "dl_stop d = d\<lparr>dl_timer := None\<rparr>"

text \<open>What a reader selects on: whether the channel of \<open>wait\<close> is closed.\<close>

definition dl_due :: "deadlineTimer \<Rightarrow> bool" where
  "dl_due d \<longleftrightarrow> dl_wait d \<in> set (dl_closed d)"

section \<open>Reachable deadlines\<close>

text \<open>
  The interleavings in which a callback that has started finishes before the next call of
  \<open>set\<close>; the clock does not go back.
\<close>

inductive dl_reach :: "instant \<Rightarrow> deadlineTimer \<Rightarrow> bool" where
  dl_new: "dl_reach now newDeadlineTimer"
| dl_tick: "dl_reach now d \<Longrightarrow> now \<le> later \<Longrightarrow> dl_reach later d"
| dl_sets: "dl_reach now d \<Longrightarrow> dl_started d = [] \<Longrightarrow> dl_set now t d = Some d' \<Longrightarrow> dl_reach now d'"
| dl_fires: "dl_reach now d \<Longrightarrow> dl_reach now (dl_fire now d)"
| dl_calls: "dl_reach now d \<Longrightarrow> dl_callback d = Some d' \<Longrightarrow> dl_reach now d'"
| dl_stops: "dl_reach now d \<Longrightarrow> dl_reach now (dl_stop d)"

text \<open>
  The current channel is closed exactly when the deadline has expired; a timer or a
  started callback refers to the current channel of an unexpired deadline; there is never
  both.
\<close>

definition dl_inv :: "deadlineTimer \<Rightarrow> bool" where
  "dl_inv d \<longleftrightarrow> (dl_expired d \<longleftrightarrow> dl_ch d \<in> set (dl_closed d))
     \<and> (\<forall>c\<in>set (dl_closed d). c < dl_fresh d) \<and> dl_ch d < dl_fresh d
     \<and> (case dl_timer d of
          Some (u, c) \<Rightarrow> c = dl_ch d \<and> \<not> dl_expired d \<and> dl_started d = []
        | None \<Rightarrow> dl_started d = [] \<or> dl_started d = [dl_ch d] \<and> \<not> dl_expired d)"

lemma dl_set_inv:
  assumes "dl_inv d" and "dl_started d = []"
  obtains d' where "dl_set now t d = Some d'" and "dl_inv d'" and "dl_started d' = []"
    and "dl_due d' \<longleftrightarrow> (case t of None \<Rightarrow> False | Some u \<Rightarrow> u \<le> now)"
proof -
  define d2 where "d2 = (if dl_expired d
    then d\<lparr>dl_timer := None, dl_ch := dl_fresh d, dl_fresh := dl_fresh d + 1, dl_expired := False\<rparr>
    else d\<lparr>dl_timer := None\<rparr>)"
  have d2: "dl_inv d2" "\<not> dl_expired d2" "dl_ch d2 \<notin> set (dl_closed d2)" "dl_started d2 = []"
    "dl_timer d2 = None"
    using assms by (auto simp: d2_def dl_inv_def split: option.splits)
  have set: "dl_set now t d = (case t of None \<Rightarrow> Some d2
      | Some u \<Rightarrow> if u - now \<le> 0 then close_chan (dl_ch d2) (d2\<lparr>dl_expired := True\<rparr>)
                  else Some (d2\<lparr>dl_timer := Some (u, dl_ch d2)\<rparr>))"
    by (cases "dl_expired d") (simp_all add: dl_set_def d2_def Let_def split: option.split)
  show thesis
  proof (cases t)
    case None
    with d2 set show thesis
      by (intro that [of d2]) (auto simp: dl_due_def dl_wait_def)
  next
    case (Some u)
    show thesis
    proof (cases "u \<le> now")
      case True
      with Some d2 set show thesis
        by (intro that [of "d2\<lparr>dl_expired := True, dl_closed := dl_ch d2 # dl_closed d2\<rparr>"])
          (auto simp: dl_inv_def close_chan_def dl_due_def dl_wait_def)
    next
      case False
      with Some d2 set show thesis
        by (intro that [of "d2\<lparr>dl_timer := Some (u, dl_ch d2)\<rparr>"])
          (auto simp: dl_inv_def dl_due_def dl_wait_def)
    qed
  qed
qed

lemma dl_fire_inv: "dl_inv d \<Longrightarrow> dl_inv (dl_fire now d)"
  by (auto simp: dl_inv_def dl_fire_def split: option.splits)

lemma dl_callback_inv:
  assumes "dl_inv d"
  obtains d' where "dl_callback d = Some d'" and "dl_inv d'" and "dl_started d' = []"
proof (cases "dl_started d")
  case Nil
  with assms that show thesis by (simp add: dl_callback_def)
next
  case (Cons c cs)
  then have c: "cs = []" "c = dl_ch d" "\<not> dl_expired d" "dl_ch d \<notin> set (dl_closed d)" "dl_timer d = None"
    using assms by (auto simp: dl_inv_def split: option.splits)
  with Cons assms that [of "d\<lparr>dl_started := [], dl_expired := True, dl_closed := c # dl_closed d\<rparr>"]
  show thesis
    by (auto simp: dl_callback_def close_chan_def Let_def dl_inv_def)
qed

lemma dl_reach_inv: "dl_reach now d \<Longrightarrow> dl_inv d"
proof (induction rule: dl_reach.induct)
  case (dl_sets now d t d')
  then show ?case
    using dl_set_inv [of d now t] by (metis option.inject)
next
  case (dl_fires now d)
  then show ?case by (simp add: dl_fire_inv)
next
  case (dl_calls now d d')
  then show ?case
    using dl_callback_inv [of d] by (metis option.inject)
qed (auto simp: dl_inv_def newDeadlineTimer_def dl_stop_def split: option.splits)

section \<open>Properties\<close>

text \<open>
  C33. As long as a started callback finishes before the next call of \<open>set\<close>: nothing
  panics, and after \<open>set\<close> a reader is woken at once exactly when the deadline is not in
  the future, and for a future deadline exactly when its timer has fired and the callback
  has run; clearing the deadline revives the connection even after it expired.
\<close>

theorem deadline_wakes_when_due:
  assumes "dl_reach now d" and "dl_started d = []"
  shows "\<exists>d'. dl_set now t d = Some d'
    \<and> (dl_due d' \<longleftrightarrow> (case t of None \<Rightarrow> False | Some u \<Rightarrow> u \<le> now))
    \<and> (\<forall>later. \<exists>d''. dl_callback (dl_fire later d') = Some d''
         \<and> (dl_due d'' \<longleftrightarrow> (case t of None \<Rightarrow> False | Some u \<Rightarrow> u \<le> max now later)))"
proof -
  obtain d' where d': "dl_set now t d = Some d'" "dl_inv d'" "dl_started d' = []"
    "dl_due d' \<longleftrightarrow> (case t of None \<Rightarrow> False | Some u \<Rightarrow> u \<le> now)"
    using dl_set_inv [OF dl_reach_inv [OF assms(1)] assms(2)] by blast
  have "\<exists>d''. dl_callback (dl_fire later d') = Some d''
         \<and> (dl_due d'' \<longleftrightarrow> (case t of None \<Rightarrow> False | Some u \<Rightarrow> u \<le> max now later))" for later
  proof (cases t)
    case None
    then have "dl_timer d' = None"
      using d'(1) by (auto simp: dl_set_def Let_def)
    with None d' show ?thesis
      by (simp add: dl_fire_def dl_callback_def)
  next
    case (Some u)
    show ?thesis
    proof (cases "u \<le> now")
      case True
      then have "dl_timer d' = None"
        using d'(1) Some by (auto simp: dl_set_def Let_def close_chan_def split: if_splits)
      with Some True d' show ?thesis
        by (simp add: dl_fire_def dl_callback_def)
    next
      case False
      then have "dl_timer d' = Some (u, dl_ch d')"
        using d'(1) Some by (auto simp: dl_set_def Let_def)
      with Some False d' show ?thesis
        by (auto simp: dl_fire_def dl_callback_def close_chan_def Let_def dl_due_def dl_wait_def dl_inv_def)
    qed
  qed
  with d' show ?thesis by blast
qed

theorem deadline_wakes_when_due_witness:
  "\<exists>d'. dl_set 5 (Some 9) newDeadlineTimer = Some d' \<and> \<not> dl_due d'"
  using deadline_wakes_when_due [OF dl_new, of 5 "Some 9"]
  by (auto simp: newDeadlineTimer_def)


end
