(* ===== verification/Udp.thy ===== *)
theory Udp
  imports Transit Deadline
begin

text \<open>
  \<^verbatim>\<open>netstack/udp.go\<close>: the UDP layer of the stack. The demux extends the stack's record;
  sockets are shared between the port table and the embedder, so they live in a store
  indexed by numbers. A channel with capacity is a list and a bound. The three selects
  that make room in a full queue are three steps between which other goroutines may read
  or write the queue: what they do is a pair of functions on the queue, the identity for a
  call that runs alone. A read that finds nothing ready blocks, which is a result of its
  own; when several alternatives of a select are ready, the choice is an argument.
\<close>

unbundle bit_operations_syntax

section \<open>Constants, errors and the header\<close>

definition udpHeaderLen :: nat where
  "udpHeaderLen = UDPHeaderLen"

definition udpQueueDepth :: nat where
  "udpQueueDepth = 64"

definition maxUDPPayload :: nat where
  "maxUDPPayload = 65507"

definition UDPDropNewest :: int where
  "UDPDropNewest = 0"

definition UDPDropOldest :: int where
  "UDPDropOldest = 1"

lemmas udp_consts [govpn_consts] =
  udpHeaderLen_def udpQueueDepth_def maxUDPPayload_def UDPDropNewest_def UDPDropOldest_def

datatype udp_error =
  ErrUDPPortZero | ErrUDPPortInUse | ErrUDPNoRoute | ErrUDPPayloadTooLarge | ErrUDPInvalidAddr
| ErrInvalidUDPQueueDepth | ErrInvalidUDPDropPolicy | errUDPHeaderTooShort | errUDPBadLength
| UDPErrClosed | UDPErrDeadline | UDPErrStack stack_error

definition parseUDP :: "bytes \<Rightarrow> udp_error + u16 \<times> u16 \<times> bytes" where
  "parseUDP payload =
     (if length payload < udpHeaderLen then Inl errUDPHeaderTooShort
      else
        let len = unat (get16 (slice 4 6 payload)) in
        if len < udpHeaderLen \<or> len > length payload then Inl errUDPBadLength
        else Inr (get16 (slice 0 2 payload), get16 (slice 2 4 payload), slice udpHeaderLen len payload))"

definition buildUDP :: "bytes \<Rightarrow> addr \<Rightarrow> addr \<Rightarrow> u16 \<Rightarrow> u16 \<Rightarrow> bytes \<Rightarrow> bytes" where
  "buildUDP dst src dstAddr srcPort dstPort payload = BuildUDP dst src dstAddr srcPort dstPort payload"

section \<open>State\<close>

record UDPOptions =
  QueueDepth :: int
  DropPolicy :: int

text \<open>A \<^verbatim>\<open>*net.UDPAddr\<close>, and the other implementations of \<^verbatim>\<open>net.Addr\<close>.\<close>

datatype net_addr = UDPAddr "net_ip option" int | OtherAddr

type_synonym udpDatagram = "net_addr \<times> bytes"

record udpConn =
  uc_port :: u16
  uc_policy :: int
  uc_inbound :: "udpDatagram list"
  uc_depth :: nat
  uc_closed :: bool
  uc_readDeadline :: deadlineTimer
  uc_writeDeadline :: deadlineTimer

record udp_stack = stack +
  ud_ports :: "u16 \<Rightarrow> nat option"
  ud_noListenerDropped :: u64
  ud_badChecksumDropped :: u64
  ud_queueFullDropped :: u64
  ud_conns :: "nat \<Rightarrow> udpConn option"
  ud_next :: nat

definition newUDPConn :: "u16 \<Rightarrow> nat \<Rightarrow> int \<Rightarrow> udpConn" where
  "newUDPConn port depth policy = \<lparr> uc_port = port, uc_policy = policy, uc_inbound = [],
     uc_depth = depth, uc_closed = False, uc_readDeadline = newDeadlineTimer,
     uc_writeDeadline = newDeadlineTimer \<rparr>"

section \<open>Listening\<close>

definition udpDemuxFor :: "'m udp_stack_scheme \<Rightarrow> 'm udp_stack_scheme" where
  "udpDemuxFor s =
     (if st_udpHandler s then s
      else snd (registerUDPHandler s)\<lparr>ud_ports := Map.empty, ud_noListenerDropped := 0,
             ud_badChecksumDropped := 0, ud_queueFullDropped := 0\<rparr>)"

definition ListenUDPOptions ::
  "u16 \<Rightarrow> UDPOptions \<Rightarrow> 'm udp_stack_scheme \<Rightarrow> (udp_error + nat) \<times> 'm udp_stack_scheme" where
  "ListenUDPOptions port opts s =
     (if port = 0 then (Inl ErrUDPPortZero, s)
      else if QueueDepth opts < 0 then (Inl ErrInvalidUDPQueueDepth, s)
      else if DropPolicy opts \<noteq> UDPDropNewest \<and> DropPolicy opts \<noteq> UDPDropOldest
      then (Inl ErrInvalidUDPDropPolicy, s)
      else
        let depth = (if QueueDepth opts = 0 then udpQueueDepth else nat (QueueDepth opts));
            d = udpDemuxFor s in
        (case ud_ports d port of
           Some _ \<Rightarrow> (Inl ErrUDPPortInUse, d)
         | None \<Rightarrow>
             (Inr (ud_next d),
              d\<lparr>ud_ports := (ud_ports d)(port \<mapsto> ud_next d),
                ud_conns := (ud_conns d)(ud_next d \<mapsto> newUDPConn port depth (DropPolicy opts)),
                ud_next := ud_next d + 1\<rparr>)))"

definition ListenUDP :: "u16 \<Rightarrow> 'm udp_stack_scheme \<Rightarrow> (udp_error + nat) \<times> 'm udp_stack_scheme" where
  "ListenUDP port s = ListenUDPOptions port \<lparr> QueueDepth = 0, DropPolicy = 0 \<rparr> s"

section \<open>Receiving\<close>

text \<open>A non-blocking send to and receive of a channel with a capacity.\<close>

definition chan_send :: "nat \<Rightarrow> 'a \<Rightarrow> 'a list \<Rightarrow> bool \<times> 'a list" where
  "chan_send depth x q = (if length q < depth then (True, q @ [x]) else (False, q))"

definition chan_recv :: "'a list \<Rightarrow> 'a list" where
  "chan_recv q = (case q of [] \<Rightarrow> [] | _ # q' \<Rightarrow> q')"

type_synonym others = "(udpDatagram list \<Rightarrow> udpDatagram list) \<times> (udpDatagram list \<Rightarrow> udpDatagram list)"

text \<open>The enqueue of \<^verbatim>\<open>handlePacket\<close>, with whether a datagram was counted as lost.\<close>

definition enqueue :: "others \<Rightarrow> int \<Rightarrow> nat \<Rightarrow> udpDatagram \<Rightarrow> udpDatagram list \<Rightarrow> bool \<times> udpDatagram list" where
  "enqueue env policy depth dgram q =
     (case chan_send depth dgram q of
        (True, q1) \<Rightarrow> (False, q1)
      | (False, q1) \<Rightarrow>
          if policy = UDPDropOldest
          then (True, snd (chan_send depth dgram (snd env (chan_recv (fst env q1)))))
          else (True, q1))"

text \<open>The checksum test: a field of zero means that the sender computed none.\<close>

definition udp_checksum_ok :: "addr \<Rightarrow> addr \<Rightarrow> bytes \<Rightarrow> bytes \<Rightarrow> bool" where
  "udp_checksum_ok src dst payload data =
     (let wireChecksum = get16 (slice 6 8 payload) in
      wireChecksum = 0 \<or>
      (let segment = overwrite 6 [0, 0] (take (udpHeaderLen + length data) payload);
           computed0 = transportChecksum src dst protocolUDP segment;
           computed = (if computed0 = 0 then 0xFFFF else computed0)
       in computed = wireChecksum))"

definition udp_handlePacket ::
  "others \<Rightarrow> nat \<Rightarrow> addr \<Rightarrow> addr \<Rightarrow> bytes \<Rightarrow> 'm udp_stack_scheme \<Rightarrow> 'm udp_stack_scheme" where
  "udp_handlePacket env n src dst payload s =
     (case parseUDP payload of
        Inl _ \<Rightarrow> bump (\<lambda>c. c\<lparr>malformedDropped := malformedDropped c + 1\<rparr>) s
      | Inr (srcPort, dstPort, data) \<Rightarrow>
          if \<not> udp_checksum_ok src dst payload data
          then s\<lparr>ud_badChecksumDropped := ud_badChecksumDropped s + 1\<rparr>
          else
            (case ud_ports s dstPort of
               None \<Rightarrow> s\<lparr>ud_noListenerDropped := ud_noListenerDropped s + 1\<rparr>
             | Some cid \<Rightarrow>
                 (case ud_conns s cid of
                    None \<Rightarrow> s
                  | Some conn \<Rightarrow>
                      let dgram = (UDPAddr (Some (As4 src)) (int (unat srcPort)), data);
                          (lost, q) = enqueue env (uc_policy conn) (uc_depth conn) dgram (uc_inbound conn);
                          s1 = s\<lparr>ud_conns := (ud_conns s)(cid \<mapsto> conn\<lparr>uc_inbound := q\<rparr>)\<rparr>
                      in if lost then s1\<lparr>ud_queueFullDropped := ud_queueFullDropped s1 + 1\<rparr> else s1)))"

section \<open>Socket operations\<close>

datatype udp_read = UReadBlocks | UReadErr udp_error | URead nat net_addr

text \<open>
  \<^verbatim>\<open>ReadFrom\<close> up to its last select: an error, or the channel of the read deadline that
  the select waits on. The select then looks at the queue, the close signal and that
  channel; \<open>pick\<close> chooses among those that are ready. The bytes copied come with the
  result.
\<close>

definition ReadFrom_enter :: "udpConn \<Rightarrow> udp_error + nat" where
  "ReadFrom_enter c =
     (if uc_closed c then Inl UDPErrClosed
      else if dl_due (uc_readDeadline c) then Inl UDPErrDeadline
      else Inr (dl_wait (uc_readDeadline c)))"

definition ReadFrom_select :: "nat \<Rightarrow> nat \<Rightarrow> nat \<Rightarrow> udpConn \<Rightarrow> udp_read \<times> bytes \<times> udpConn" where
  "ReadFrom_select pick ch buflen c =
     (let ready = (if uc_inbound c \<noteq> [] then [0 :: nat] else [])
                  @ (if uc_closed c then [1] else [])
                  @ (if ch \<in> set (dl_closed (uc_readDeadline c)) then [2] else []) in
      if ready = [] then (UReadBlocks, [], c)
      else
        let alt = ready ! (pick mod length ready) in
        if alt = 0 then
          (case uc_inbound c of
             [] \<Rightarrow> (UReadBlocks, [], c)
           | (from_addr, data) # q \<Rightarrow>
               (URead (min buflen (length data)) from_addr, take buflen data, c\<lparr>uc_inbound := q\<rparr>))
        else if alt = 1 then (UReadErr UDPErrClosed, [], c)
        else (UReadErr UDPErrDeadline, [], c))"

definition ReadFrom :: "nat \<Rightarrow> nat \<Rightarrow> udpConn \<Rightarrow> udp_read \<times> bytes \<times> udpConn" where
  "ReadFrom pick buflen c =
     (case ReadFrom_enter c of
        Inl e \<Rightarrow> (UReadErr e, [], c)
      | Inr ch \<Rightarrow> ReadFrom_select pick ch buflen c)"

definition WriteTo ::
  "write_fn \<Rightarrow> bytes \<Rightarrow> net_addr \<Rightarrow> udpConn \<Rightarrow> 'm udp_stack_scheme \<Rightarrow> (udp_error + nat) \<times> 'm udp_stack_scheme" where
  "WriteTo wr p a c s =
     (if uc_closed c then (Inl UDPErrClosed, s)
      else if dl_due (uc_writeDeadline c) then (Inl UDPErrDeadline, s)
      else
        (case a of
           UDPAddr (Some ip) port \<Rightarrow>
             (case To4 ip of
                None \<Rightarrow> (Inl ErrUDPInvalidAddr, s)
              | Some ip4 \<Rightarrow>
                  if length p > maxUDPPayload then (Inl ErrUDPPayloadTooLarge, s)
                  else
                    let dstAddr = AddrFrom4 ip4 in
                    (case route_of dstAddr s of
                       None \<Rightarrow> (Inl ErrUDPNoRoute, s)
                     | Some n \<Rightarrow>
                         let datagram = buildUDP [] (st_serverIP s) dstAddr (uc_port c) (of_int port) p;
                             pkt = buildIPv4 [] (st_serverIP s) dstAddr protocolUDP datagram in
                         (case writePacket wr n pkt s of
                            (Some e, s') \<Rightarrow> (Inl (UDPErrStack e), s')
                          | (None, s') \<Rightarrow> (Inr (length p), s'))))
         | _ \<Rightarrow> (Inl ErrUDPInvalidAddr, s)))"

definition UDP_Close :: "nat \<Rightarrow> 'm udp_stack_scheme \<Rightarrow> 'm udp_stack_scheme" where
  "UDP_Close cid s =
     (case ud_conns s cid of
        None \<Rightarrow> s
      | Some c \<Rightarrow>
          if uc_closed c then s
          else
            let s1 = (if ud_ports s (uc_port c) = Some cid
                      then s\<lparr>ud_ports := (ud_ports s)(uc_port c := None)\<rparr> else s)
            in s1\<lparr>ud_conns := (ud_conns s1)(cid \<mapsto>
                    c\<lparr>uc_readDeadline := dl_stop (uc_readDeadline c),
                      uc_writeDeadline := dl_stop (uc_writeDeadline c), uc_closed := True\<rparr>)\<rparr>)"

definition UDP_LocalAddr :: "udpConn \<Rightarrow> 'm udp_stack_scheme \<Rightarrow> net_addr" where
  "UDP_LocalAddr c s = UDPAddr (Some (ServerIP s)) (int (unat (uc_port c)))"

definition UDP_SetReadDeadline :: "instant \<Rightarrow> instant option \<Rightarrow> udpConn \<Rightarrow> udpConn option" where
  "UDP_SetReadDeadline now t c =
     map_option (\<lambda>d. c\<lparr>uc_readDeadline := d\<rparr>) (dl_set now t (uc_readDeadline c))"

definition UDP_SetWriteDeadline :: "instant \<Rightarrow> instant option \<Rightarrow> udpConn \<Rightarrow> udpConn option" where
  "UDP_SetWriteDeadline now t c =
     map_option (\<lambda>d. c\<lparr>uc_writeDeadline := d\<rparr>) (dl_set now t (uc_writeDeadline c))"

definition UDP_SetDeadline :: "instant \<Rightarrow> instant option \<Rightarrow> udpConn \<Rightarrow> udpConn option" where
  "UDP_SetDeadline now t c = Option.bind (UDP_SetReadDeadline now t c) (UDP_SetWriteDeadline now t)"

record UDPStats =
  us_QueueFullDropped :: u64
  us_NoListenerDropped :: u64
  us_BadChecksumDropped :: u64

definition UDPStats_of :: "'m udp_stack_scheme \<Rightarrow> UDPStats" where
  "UDPStats_of s =
     (if st_udpHandler s
      then \<lparr> us_QueueFullDropped = ud_queueFullDropped s, us_NoListenerDropped = ud_noListenerDropped s,
             us_BadChecksumDropped = ud_badChecksumDropped s \<rparr>
      else \<lparr> us_QueueFullDropped = 0, us_NoListenerDropped = 0, us_BadChecksumDropped = 0 \<rparr>)"

section \<open>The header round trip\<close>

definition udp_segment :: "u16 \<Rightarrow> u16 \<Rightarrow> u16 \<Rightarrow> bytes \<Rightarrow> bytes" where
  "udp_segment sp dp cks p = be16 sp @ be16 dp @ be16 (of_nat (UDPHeaderLen + length p)) @ be16 cks @ p"

lemma buildUDP_shape:
  "\<exists>cks. buildUDP [] src dst sp dp p = udp_segment sp dp cks p
     \<and> cks = (let k = transportChecksum src dst protocolUDP (udp_segment sp dp 0 p)
              in if k = 0 then 0xFFFF else k)"
  by (simp add: buildUDP_def BuildUDP_def udp_segment_def Let_def transportChecksum_def overwrite_def
      be16_def protocolUDP_def)

lemma udp_segment_fields:
  "slice 0 2 (udp_segment sp dp k p) = be16 sp" "slice 2 4 (udp_segment sp dp k p) = be16 dp"
  "slice 4 6 (udp_segment sp dp k p) = be16 (of_nat (UDPHeaderLen + length p))"
  "slice 6 8 (udp_segment sp dp k p) = be16 k"
  "slice udpHeaderLen (udpHeaderLen + length p) (udp_segment sp dp k p) = p"
  "length (udp_segment sp dp k p) = udpHeaderLen + length p"
  "overwrite 6 [0, 0] (udp_segment sp dp k p) = udp_segment sp dp 0 p"
  by (simp_all add: udp_segment_def slice_def overwrite_def be16_def udpHeaderLen_def UDPHeaderLen_def)

lemma parse_udp_segment:
  assumes "length p \<le> 65527"
  shows "parseUDP (udp_segment sp dp k p) = Inr (sp, dp, p)"
proof -
  have "unat (of_nat (UDPHeaderLen + length p) :: u16) = udpHeaderLen + length p"
    using assms by (subst unat_of_nat_u16) (simp_all add: govpn_consts)
  then show ?thesis
    by (simp add: parseUDP_def udp_segment_fields u16c.dec_enc_Nil Let_def)
qed

lemma built_checksum_ok: "udp_checksum_ok src dst (buildUDP [] src dst sp dp p) p"
proof -
  obtain k where b: "buildUDP [] src dst sp dp p = udp_segment sp dp k p"
    and k: "k = (let k = transportChecksum src dst protocolUDP (udp_segment sp dp 0 p)
                 in if k = 0 then 0xFFFF else k)"
    using buildUDP_shape by blast
  have "take (udpHeaderLen + length p) (udp_segment sp dp k p) = udp_segment sp dp k p"
    using udp_segment_fields(6) by (metis order_refl take_all)
  then show ?thesis
    using k by (simp add: b udp_checksum_ok_def udp_segment_fields u16c.dec_enc_Nil Let_def)
qed

lemma parse_buildUDP:
  "length p \<le> 65527 \<Longrightarrow> parseUDP (buildUDP [] src dst sp dp p) = Inr (sp, dp, p)"
  "length (buildUDP [] src dst sp dp p) = udpHeaderLen + length p"
  using buildUDP_shape [of src dst sp dp p] parse_udp_segment udp_segment_fields(6) by auto

section \<open>Frames of the operations\<close>

lemma ud_fields_more:
  assumes "stack.more s' = stack.more s"
  shows "ud_ports s' = ud_ports s" "ud_conns s' = ud_conns s" "ud_next s' = ud_next s"
  using assms by (cases s, cases s', simp)+

lemma same_core_udp [simp]:
  "same_core s (s'\<lparr>ud_ports := a\<rparr>) = same_core s s'" "same_core s (s'\<lparr>ud_conns := b\<rparr>) = same_core s s'"
  "same_core s (s'\<lparr>ud_noListenerDropped := w\<rparr>) = same_core s s'"
  "same_core s (s'\<lparr>ud_badChecksumDropped := w\<rparr>) = same_core s s'"
  "same_core s (s'\<lparr>ud_queueFullDropped := w\<rparr>) = same_core s s'"
  by (simp_all add: same_core_def)

lemma udp_handler_core: "same_core s (udp_handlePacket env n src dst payload s)"
  by (simp add: udp_handlePacket_def Let_def split: sum.split prod.split option.split)

interpretation udp_demux: protocol_handler "udp_handlePacket env" for env
  by unfold_locales (rule udp_handler_core)

section \<open>The invariant of the sockets\<close>

text \<open>
  The port table and the open sockets are in bijection, no queue exceeds its depth, and
  there are no sockets before the demux is registered.
\<close>

definition udp_inv :: "'m udp_stack_scheme \<Rightarrow> bool" where
  "udp_inv s \<longleftrightarrow>
     (\<forall>p cid. ud_ports s p = Some cid \<longrightarrow>
        p \<noteq> 0 \<and> (\<exists>c. ud_conns s cid = Some c \<and> uc_port c = p \<and> \<not> uc_closed c))
     \<and> (\<forall>cid c. ud_conns s cid = Some c \<longrightarrow> 0 < uc_depth c \<and> length (uc_inbound c) \<le> uc_depth c
          \<and> cid < ud_next s \<and> (uc_closed c \<or> ud_ports s (uc_port c) = Some cid))
     \<and> (st_udpHandler s \<or> ud_conns s = Map.empty)"

lemma udp_invI:
  assumes "\<And>p cid. ud_ports s p = Some cid \<Longrightarrow>
      p \<noteq> 0 \<and> (\<exists>c. ud_conns s cid = Some c \<and> uc_port c = p \<and> \<not> uc_closed c)"
    and "\<And>cid c. ud_conns s cid = Some c \<Longrightarrow> 0 < uc_depth c \<and> length (uc_inbound c) \<le> uc_depth c
      \<and> cid < ud_next s \<and> (uc_closed c \<or> ud_ports s (uc_port c) = Some cid)"
    and "st_udpHandler s \<or> ud_conns s = Map.empty"
  shows "udp_inv s"
  using assms unfolding udp_inv_def by blast

lemma udp_inv_port:
  assumes "udp_inv s" and "ud_ports s p = Some cid"
  shows "p \<noteq> 0" "\<exists>c. ud_conns s cid = Some c \<and> uc_port c = p \<and> \<not> uc_closed c"
  using assms by (simp_all add: udp_inv_def)

lemma udp_inv_socket:
  assumes "udp_inv s" and "ud_conns s cid = Some c"
  shows "0 < uc_depth c" "length (uc_inbound c) \<le> uc_depth c" "cid < ud_next s"
    "uc_closed c \<or> ud_ports s (uc_port c) = Some cid" "st_udpHandler s"
  using assms by (auto simp: udp_inv_def)

lemma udp_inv_frame:
  assumes "udp_inv s" and "stack.more s' = stack.more s" and "st_udpHandler s' = st_udpHandler s"
  shows "udp_inv s'"
  using assms by (simp add: udp_inv_def ud_fields_more [OF assms(2)])

lemma udp_inv_counters [simp]:
  "udp_inv (s\<lparr>ud_noListenerDropped := w\<rparr>) = udp_inv s" "udp_inv (s\<lparr>ud_badChecksumDropped := w\<rparr>) = udp_inv s"
  "udp_inv (s\<lparr>ud_queueFullDropped := w\<rparr>) = udp_inv s" "udp_inv (bump f s) = udp_inv s"
  by (simp_all add: udp_inv_def bump_def)

text \<open>Replacing a socket by one with the same port and state keeps the invariant.\<close>

lemma udp_inv_conn:
  assumes "udp_inv s" and "ud_conns s cid = Some c" and "uc_port c' = uc_port c"
    and "uc_closed c' = uc_closed c" and "uc_depth c' = uc_depth c"
    and "length (uc_inbound c') \<le> uc_depth c"
  shows "udp_inv (s\<lparr>ud_conns := (ud_conns s)(cid \<mapsto> c')\<rparr>)"
proof (rule udp_invI)
  fix p n
  assume "ud_ports (s\<lparr>ud_conns := (ud_conns s)(cid \<mapsto> c')\<rparr>) p = Some n"
  with udp_inv_port [OF assms(1)] assms(2-4)
  show "p \<noteq> 0 \<and> (\<exists>c. ud_conns (s\<lparr>ud_conns := (ud_conns s)(cid \<mapsto> c')\<rparr>) n = Some c
      \<and> uc_port c = p \<and> \<not> uc_closed c)"
    by fastforce
qed (use assms in \<open>auto simp: udp_inv_def split: if_splits\<close>)

definition env_ok :: "nat \<Rightarrow> others \<Rightarrow> bool" where
  "env_ok depth env \<longleftrightarrow>
     (\<forall>q. length q \<le> depth \<longrightarrow> length (fst env q) \<le> depth \<and> length (snd env q) \<le> depth)"

lemma enqueue_bounded:
  assumes "env_ok depth env" and "length q \<le> depth" and "enqueue env policy depth x q = (lost, q')"
  shows "length q' \<le> depth"
proof -
  have send: "length (snd (chan_send depth x r)) \<le> depth" if "length r \<le> depth" for r
    using that by (simp add: chan_send_def)
  have "length (chan_recv r) \<le> length r" for r :: "udpDatagram list"
    by (cases r) (simp_all add: chan_recv_def)
  then have "length (snd env (chan_recv (fst env q))) \<le> depth"
    using assms(1,2) by (meson env_ok_def order_trans)
  with send [OF this] assms(2,3) show ?thesis
    by (auto simp: enqueue_def chan_send_def split: if_splits)
qed

definition packet_env_ok :: "others \<Rightarrow> bytes \<Rightarrow> 'm udp_stack_scheme \<Rightarrow> bool" where
  "packet_env_ok env payload s \<longleftrightarrow>
     (\<forall>sp dp data cid c. parseUDP payload = Inr (sp, dp, data) \<and> ud_ports s dp = Some cid
        \<and> ud_conns s cid = Some c \<longrightarrow> env_ok (uc_depth c) env)"

lemma udp_handle_inv:
  assumes inv: "udp_inv s" and env: "packet_env_ok env payload s"
  shows "udp_inv (udp_handlePacket env n src dst payload s)"
proof (cases "parseUDP payload")
  case (Inr r)
  obtain sp dp data where p: "parseUDP payload = Inr (sp, dp, data)"
    using Inr by (metis prod_cases3)
  show ?thesis
  proof (cases "Option.bind (ud_ports s dp) (\<lambda>cid. map_option (Pair cid) (ud_conns s cid))")
    case None
    with inv p show ?thesis
      by (auto simp: udp_handlePacket_def Option.bind_eq_None_conv split: option.split)
  next
    case (Some cc)
    then obtain cid c where c: "ud_ports s dp = Some cid" "ud_conns s cid = Some c"
      by (auto simp: Option.bind_eq_Some_conv)
    obtain lost q where e: "enqueue env (uc_policy c) (uc_depth c)
        (UDPAddr (Some (As4 src)) (int (unat sp)), data) (uc_inbound c) = (lost, q)"
      by fastforce
    have "length q \<le> uc_depth c"
      using enqueue_bounded [OF _ _ e] env p c inv by (simp add: packet_env_ok_def udp_inv_def)
    then have "udp_inv (s\<lparr>ud_conns := (ud_conns s)(cid \<mapsto> c\<lparr>uc_inbound := q\<rparr>)\<rparr>)"
      using inv c(2) by (intro udp_inv_conn) simp_all
    with inv p c e show ?thesis
      by (simp add: udp_handlePacket_def Let_def)
  qed
qed (use inv in \<open>simp add: udp_handlePacket_def\<close>)

lemma demux_inv: "udp_inv s \<Longrightarrow> udp_inv (udpDemuxFor s) \<and> st_udpHandler (udpDemuxFor s)"
  by (auto simp: udpDemuxFor_def registerUDPHandler_def udp_inv_def)

lemma listen_inv:
  assumes "udp_inv s" and "ListenUDPOptions port opts s = (res, s')"
  shows "udp_inv s'"
proof -
  let ?d = "udpDemuxFor s"
  have d: "udp_inv ?d" "st_udpHandler ?d"
    using demux_inv assms(1) by auto
  have fresh: "ud_conns ?d (ud_next ?d) = None"
    using d(1) by (metis udp_inv_def less_irrefl not_None_eq)
  have "udp_inv (?d\<lparr>ud_ports := (ud_ports ?d)(port \<mapsto> ud_next ?d),
      ud_conns := (ud_conns ?d)(ud_next ?d \<mapsto> newUDPConn port depth policy), ud_next := ud_next ?d + 1\<rparr>)"
    if "port \<noteq> 0" "0 < depth" "ud_ports ?d port = None" for depth policy
  proof (rule udp_invI)
    fix p n
    assume "ud_ports (?d\<lparr>ud_ports := (ud_ports ?d)(port \<mapsto> ud_next ?d),
      ud_conns := (ud_conns ?d)(ud_next ?d \<mapsto> newUDPConn port depth policy), ud_next := ud_next ?d + 1\<rparr>) p
      = Some n"
    with that(1) udp_inv_port [OF d(1), of p n] fresh
    show "p \<noteq> 0 \<and> (\<exists>c. ud_conns (?d\<lparr>ud_ports := (ud_ports ?d)(port \<mapsto> ud_next ?d),
      ud_conns := (ud_conns ?d)(ud_next ?d \<mapsto> newUDPConn port depth policy), ud_next := ud_next ?d + 1\<rparr>) n
      = Some c \<and> uc_port c = p \<and> \<not> uc_closed c)"
      by (auto simp: newUDPConn_def split: if_splits)
  next
    fix n c
    assume "ud_conns (?d\<lparr>ud_ports := (ud_ports ?d)(port \<mapsto> ud_next ?d),
      ud_conns := (ud_conns ?d)(ud_next ?d \<mapsto> newUDPConn port depth policy), ud_next := ud_next ?d + 1\<rparr>) n
      = Some c"
    with that(2,3) udp_inv_socket [OF d(1), of n c]
    show "0 < uc_depth c \<and> length (uc_inbound c) \<le> uc_depth c
      \<and> n < ud_next (?d\<lparr>ud_ports := (ud_ports ?d)(port \<mapsto> ud_next ?d),
      ud_conns := (ud_conns ?d)(ud_next ?d \<mapsto> newUDPConn port depth policy), ud_next := ud_next ?d + 1\<rparr>)
      \<and> (uc_closed c \<or> ud_ports (?d\<lparr>ud_ports := (ud_ports ?d)(port \<mapsto> ud_next ?d),
      ud_conns := (ud_conns ?d)(ud_next ?d \<mapsto> newUDPConn port depth policy), ud_next := ud_next ?d + 1\<rparr>)
        (uc_port c) = Some n)"
      by (auto simp: newUDPConn_def split: if_splits)
  qed (use d(2) in simp)
  with d assms show ?thesis
    by (auto simp: ListenUDPOptions_def Let_def govpn_consts split: if_splits option.splits)
qed

lemma UDP_Close_open:
  assumes "udp_inv s" and "ud_conns s cid = Some c" and "\<not> uc_closed c"
  shows "\<exists>c'. UDP_Close cid s = s\<lparr>ud_ports := (ud_ports s)(uc_port c := None),
      ud_conns := (ud_conns s)(cid \<mapsto> c')\<rparr>
    \<and> uc_closed c' \<and> uc_depth c' = uc_depth c \<and> uc_inbound c' = uc_inbound c \<and> uc_port c' = uc_port c"
  using assms udp_inv_socket(4) [OF assms(1,2)]
  by (intro exI [of _ "c\<lparr>uc_readDeadline := dl_stop (uc_readDeadline c),
      uc_writeDeadline := dl_stop (uc_writeDeadline c), uc_closed := True\<rparr>"])
    (simp add: UDP_Close_def Let_def)

lemma close_inv:
  assumes inv: "udp_inv s"
  shows "udp_inv (UDP_Close cid s)"
proof (cases "\<exists>c. ud_conns s cid = Some c \<and> \<not> uc_closed c")
  case True
  then obtain c where c: "ud_conns s cid = Some c" "\<not> uc_closed c"
    by blast
  from UDP_Close_open [OF inv this] obtain c' where c':
    "UDP_Close cid s = s\<lparr>ud_ports := (ud_ports s)(uc_port c := None), ud_conns := (ud_conns s)(cid \<mapsto> c')\<rparr>"
    "uc_closed c'" "uc_depth c' = uc_depth c" "uc_inbound c' = uc_inbound c"
    by blast
  show ?thesis
    unfolding c'(1)
  proof (rule udp_invI, goal_cases)
    case (1 p n)
    then have p: "ud_ports s p = Some n" "p \<noteq> uc_port c"
      by (auto split: if_splits)
    with udp_inv_port [OF inv p(1)] c show ?case
      by auto
  next
    case (2 n d)
    show ?case
    proof (cases "n = cid")
      case True
      with 2 udp_inv_socket(1-3) [OF inv c(1)] c' show ?thesis
        by simp
    next
      case False
      with 2 have d: "ud_conns s n = Some d"
        by simp
      moreover have "uc_closed d \<or> uc_port d \<noteq> uc_port c"
        using udp_inv_socket(4) [OF inv d] udp_inv_socket(4) [OF inv c(1)] c(2) False by auto
      ultimately show ?thesis
        using udp_inv_socket(1-4) [OF inv d] by auto
    qed
  qed (use udp_inv_socket(5) [OF inv c(1)] in simp)
next
  case False
  with inv show ?thesis
    by (auto simp: UDP_Close_def split: option.split)
qed

section \<open>Reachable sockets\<close>

text \<open>
  One clause per operation on the sockets; \<open>ur_select\<close> is the last select of a read with
  any deadline channel it may have started waiting on, \<open>ur_deadlines\<close> a change of a
  socket's deadlines, and \<open>ur_stack\<close> whatever the stack below does without touching the
  demux, such as sending and attaching.
\<close>

inductive udp_run :: "'m udp_stack_scheme \<Rightarrow> 'm udp_stack_scheme \<Rightarrow> bool" for s0 where
  ur_start: "udp_run s0 s0"
| ur_listen: "udp_run s0 s \<Longrightarrow> ListenUDPOptions port opts s = (res, s') \<Longrightarrow> udp_run s0 s'"
| ur_packet: "udp_run s0 s \<Longrightarrow> packet_env_ok env payload s \<Longrightarrow>
    udp_run s0 (udp_handlePacket env n src dst payload s)"
| ur_select: "udp_run s0 s \<Longrightarrow> ud_conns s cid = Some c \<Longrightarrow>
    ReadFrom_select pick ch buflen c = (res, b, c') \<Longrightarrow>
    udp_run s0 (s\<lparr>ud_conns := (ud_conns s)(cid \<mapsto> c')\<rparr>)"
| ur_deadlines: "udp_run s0 s \<Longrightarrow> ud_conns s cid = Some c \<Longrightarrow>
    udp_run s0 (s\<lparr>ud_conns := (ud_conns s)(cid \<mapsto> c\<lparr>uc_readDeadline := r, uc_writeDeadline := w\<rparr>)\<rparr>)"
| ur_close: "udp_run s0 s \<Longrightarrow> udp_run s0 (UDP_Close cid s)"
| ur_stack: "udp_run s0 s \<Longrightarrow> stack.more s' = stack.more s \<Longrightarrow> st_udpHandler s' = st_udpHandler s \<Longrightarrow>
    udp_run s0 s'"

lemma select_frame:
  assumes "ReadFrom_select pick ch buflen c = (res, b, c')"
  shows "uc_port c' = uc_port c" "uc_closed c' = uc_closed c" "uc_depth c' = uc_depth c"
    "length (uc_inbound c') \<le> length (uc_inbound c)"
  using assms
  by (auto simp: ReadFrom_select_def Let_def simp del: One_nat_def split: if_splits list.splits prod.splits)

lemma udp_run_inv: "udp_run s0 s \<Longrightarrow> udp_inv s0 \<Longrightarrow> udp_inv s"
proof (induction rule: udp_run.induct)
  case (ur_listen s port opts res s')
  then show ?case by (blast intro: listen_inv)
next
  case (ur_packet s env payload n src dst)
  then show ?case by (blast intro: udp_handle_inv)
next
  case (ur_select s cid c pick ch buflen res b c')
  then have inv: "udp_inv s"
    by blast
  note f = select_frame [OF ur_select.hyps(3)]
  show ?case
    using f udp_inv_socket(2) [OF inv ur_select.hyps(2)]
    by (intro udp_inv_conn [OF inv ur_select.hyps(2)]) simp_all
next
  case (ur_deadlines s cid c r w)
  then have inv: "udp_inv s"
    by blast
  show ?case
    using udp_inv_socket(2) [OF inv ur_deadlines.hyps(2)]
    by (intro udp_inv_conn [OF inv ur_deadlines.hyps(2)]) simp_all
next
  case (ur_close s cid)
  then show ?case by (simp add: close_inv)
next
  case (ur_stack s s')
  then show ?case by (blast intro: udp_inv_frame)
qed

section \<open>A queue that overflows\<close>

definition alone :: others where
  "alone = ((\<lambda>q. q), (\<lambda>q. q))"

definition kept :: "int \<Rightarrow> nat \<Rightarrow> 'a list \<Rightarrow> 'a list" where
  "kept policy depth all = (if policy = UDPDropOldest then drop (length all - depth) all else take depth all)"

lemma kept_all: "length all \<le> depth \<Longrightarrow> kept policy depth all = all"
  by (simp add: kept_def)

lemma length_kept: "length (kept policy depth all) = min depth (length all)"
  by (simp add: kept_def min_def)

lemma enqueue_alone:
  assumes "0 < depth"
  shows "enqueue alone policy depth x (kept policy depth all)
    = (depth \<le> length all, kept policy depth (all @ [x]))"
proof (cases "length all < depth")
  case True
  then show ?thesis
    by (simp add: enqueue_def chan_send_def kept_all)
next
  case False
  then have full: "\<not> length (kept policy depth all) < depth"
    by (simp add: length_kept)
  obtain y ys where ys: "kept policy depth all = y # ys"
    using False assms length_kept [of policy depth all] by (cases "kept policy depth all") auto
  show ?thesis
  proof (cases "policy = UDPDropOldest")
    case True
    then have "ys = drop (Suc (length all - depth)) all"
      using ys by (metis drop_Suc drop_drop kept_def list.sel(3) plus_1_eq_Suc tl_drop)
    moreover have "length ys < depth"
      using ys False length_kept [of policy depth all] by simp
    moreover have "Suc (length all) - depth = Suc (length all - depth)"
      using False by simp
    moreover have "Suc (length all - depth) \<le> length all"
      using False assms by simp
    ultimately show ?thesis
      using True full ys False by (simp add: enqueue_def chan_send_def chan_recv_def alone_def kept_def)
  next
    case newest: False
    with full False show ?thesis
      by (simp add: enqueue_def chan_send_def kept_def)
  qed
qed

text \<open>The datagram a packet is queued as.\<close>

definition dgram_of :: "addr \<Rightarrow> bytes \<Rightarrow> udpDatagram" where
  "dgram_of src payload =
     (case parseUDP payload of
        Inr (sp, dp, data) \<Rightarrow> (UDPAddr (Some (As4 src)) (int (unat sp)), data)
      | Inl _ \<Rightarrow> (OtherAddr, []))"

definition valid_for :: "addr \<Rightarrow> u16 \<Rightarrow> addr \<times> bytes \<Rightarrow> bool" where
  "valid_for dst p = (\<lambda>(src, payload).
     case parseUDP payload of
       Inr (sp, dp, data) \<Rightarrow> dp = p \<and> udp_checksum_ok src dst payload data
     | Inl _ \<Rightarrow> False)"

definition udp_arrivals :: "nat \<Rightarrow> addr \<Rightarrow> (addr \<times> bytes) list \<Rightarrow> 'm udp_stack_scheme \<Rightarrow> 'm udp_stack_scheme" where
  "udp_arrivals n dst pkts s =
     foldl (\<lambda>s (src, payload). udp_handlePacket alone n src dst payload s) s pkts"

lemma udp_arrivals_snoc: "udp_arrivals n dst (pkts @ [(src, payload)]) s
    = udp_handlePacket alone n src dst payload (udp_arrivals n dst pkts s)"
  by (simp add: udp_arrivals_def)

lemma udp_handle_valid:
  assumes "ud_ports s p = Some cid" and "ud_conns s cid = Some c" and "valid_for dst p (src, payload)"
    and "enqueue env (uc_policy c) (uc_depth c) (dgram_of src payload) (uc_inbound c) = (lost, q)"
  shows "udp_handlePacket env n src dst payload s =
    s\<lparr>ud_conns := (ud_conns s)(cid \<mapsto> c\<lparr>uc_inbound := q\<rparr>),
      ud_queueFullDropped := ud_queueFullDropped s + of_bool lost\<rparr>"
  using assms
  by (auto simp: udp_handlePacket_def valid_for_def dgram_of_def Let_def split: sum.splits prod.splits)

lemma arrivals_state:
  assumes "ud_ports s p = Some cid" and "ud_conns s cid = Some c" and "0 < uc_depth c"
    and "length (uc_inbound c) \<le> uc_depth c" and "list_all (valid_for dst p) pkts"
    and "all = uc_inbound c @ map (\<lambda>(src, payload). dgram_of src payload) pkts"
  shows "udp_arrivals n dst pkts s =
    s\<lparr>ud_conns := (ud_conns s)(cid \<mapsto> c\<lparr>uc_inbound := kept (uc_policy c) (uc_depth c) all\<rparr>),
      ud_queueFullDropped := ud_queueFullDropped s + of_nat (length all - uc_depth c)\<rparr>"
  using assms(5,6)
proof (induction pkts arbitrary: all rule: rev_induct)
  case Nil
  with assms(2,4) show ?case
    by (simp add: udp_arrivals_def kept_all fun_upd_idem)
next
  case (snoc x pkts)
  obtain src payload where x: "x = (src, payload)"
    by fastforce
  let ?all = "uc_inbound c @ map (\<lambda>(src, payload). dgram_of src payload) pkts"
  let ?c = "c\<lparr>uc_inbound := kept (uc_policy c) (uc_depth c) ?all\<rparr>"
  let ?s = "s\<lparr>ud_conns := (ud_conns s)(cid \<mapsto> ?c),
      ud_queueFullDropped := ud_queueFullDropped s + of_nat (length ?all - uc_depth c)\<rparr>"
  have all: "all = ?all @ [dgram_of src payload]"
    using snoc.prems(2) x by simp
  have "udp_arrivals n dst (pkts @ [x]) s = udp_handlePacket alone n src dst payload ?s"
    unfolding x udp_arrivals_snoc using snoc.IH [OF _ refl] snoc.prems(1)
    by (simp only: list_all_append) 
  also have "\<dots> = ?s\<lparr>ud_conns := (ud_conns ?s)(cid \<mapsto>
        ?c\<lparr>uc_inbound := kept (uc_policy c) (uc_depth c) all\<rparr>),
      ud_queueFullDropped := ud_queueFullDropped ?s + of_bool (uc_depth c \<le> length ?all)\<rparr>"
  proof (rule udp_handle_valid [of _ p])
    show "ud_ports ?s p = Some cid" "ud_conns ?s cid = Some ?c"
      using assms(1) by simp_all
    show "valid_for dst p (src, payload)"
      using snoc.prems(1) x by auto
    show "enqueue alone (uc_policy ?c) (uc_depth ?c) (dgram_of src payload) (uc_inbound ?c)
      = (uc_depth c \<le> length ?all, kept (uc_policy c) (uc_depth c) all)"
      using enqueue_alone [OF assms(3), of "uc_policy c" "dgram_of src payload" ?all]
      unfolding all by simp
  qed
  also have "\<dots> = s\<lparr>ud_conns := (ud_conns s)(cid \<mapsto>
        c\<lparr>uc_inbound := kept (uc_policy c) (uc_depth c) all\<rparr>),
      ud_queueFullDropped := ud_queueFullDropped s + of_nat (length all - uc_depth c)\<rparr>"
    unfolding all by (auto simp: Suc_diff_le not_le of_bool_def)
  finally show ?case .
qed

section \<open>Properties\<close>

text \<open>A stack as \<^verbatim>\<open>New\<close> returns it, before any UDP socket exists.\<close>

definition with_udp :: "stack \<Rightarrow> udp_stack" where
  "with_udp s = stack.extend s (udp_stack.fields Map.empty 0 0 0 Map.empty 0)"

lemma with_udp_fields [simp]:
  "ud_ports (with_udp s) = Map.empty" "ud_conns (with_udp s) = Map.empty" "ud_next (with_udp s) = 0"
  "st_udpHandler (with_udp s) = st_udpHandler s" "st_serverIP (with_udp s) = st_serverIP s"
  "st_mtu (with_udp s) = st_mtu s" "st_routes (with_udp s) = st_routes s" "st_atts (with_udp s) = st_atts s"
  "st_ipID (with_udp s) = st_ipID s" "st_sent (with_udp s) = st_sent s"
  "ud_queueFullDropped (with_udp s) = 0"
  by (simp_all add: with_udp_def stack.defs udp_stack.defs)

lemma with_udp_inv: "udp_inv (with_udp s)"
  by (simp add: udp_inv_def)

text \<open>
  C32. Well-formedness of the sockets over any history of listening, packets (with any
  interference by concurrent readers and writers of the queue that respects its capacity),
  reads, deadlines, closing and activity of the stack below: the port table and the open
  sockets are in bijection, port 0 is never bound, and no queue holds more than its depth.
\<close>

theorem udp_sockets_sound:
  assumes "udp_run (with_udp s0) s"
  shows "(\<forall>p cid. ud_ports s p = Some cid \<longleftrightarrow>
       (\<exists>c. ud_conns s cid = Some c \<and> uc_port c = p \<and> \<not> uc_closed c))
    \<and> ud_ports s 0 = None
    \<and> (\<forall>cid c. ud_conns s cid = Some c \<longrightarrow> 0 < uc_depth c \<and> length (uc_inbound c) \<le> uc_depth c)"
proof -
  have inv: "udp_inv s"
    by (rule udp_run_inv [OF assms with_udp_inv])
  have "ud_ports s p = Some cid \<longleftrightarrow> (\<exists>c. ud_conns s cid = Some c \<and> uc_port c = p \<and> \<not> uc_closed c)" for p cid
    using udp_inv_port [OF inv, of p cid] udp_inv_socket(4) [OF inv, of cid] by auto
  moreover have "ud_ports s 0 = None"
    using udp_inv_port(1) [OF inv, of 0] by (cases "ud_ports s 0") auto
  ultimately show ?thesis
    using udp_inv_socket(1,2) [OF inv] by blast
qed

theorem udp_sockets_sound_witness:
  "(case ListenUDP 53 (with_udp demo_stack) of (res, s) \<Rightarrow>
      res = Inr 0 \<and> ud_ports s 53 = Some 0 \<and> ud_ports s 0 = None
      \<and> (\<exists>c. ud_conns s 0 = Some c \<and> uc_port c = 53 \<and> \<not> uc_closed c))"
proof -
  obtain res s where l: "ListenUDP 53 (with_udp demo_stack) = (res, s)"
    by fastforce
  then have "udp_run (with_udp demo_stack) s"
    unfolding ListenUDP_def by (rule ur_listen [OF ur_start])
  moreover have "res = Inr 0" "ud_ports s 53 = Some 0"
    using l by (auto simp: ListenUDP_def ListenUDPOptions_def govpn_consts udpDemuxFor_def
        registerUDPHandler_def demo_stack_def Let_def split: if_splits)
  ultimately show ?thesis
    using udp_sockets_sound [of demo_stack s] l by auto
qed

text \<open>
  C31. The overflow policies, exactly: for valid datagrams to a bound port, whatever their
  number, a \<open>UDPDropNewest\<close> queue of depth \<open>k\<close> holds the first \<open>k\<close> and a \<open>UDPDropOldest\<close> queue the last
  \<open>k\<close> of what it held and what arrived, in order; the counter grows by the number
  lost, modulo its width, and nothing else changes.
\<close>

theorem udp_overflow_policy:
  assumes "ud_ports s p = Some cid" and "ud_conns s cid = Some c" and "0 < uc_depth c"
    and "length (uc_inbound c) \<le> uc_depth c" and "list_all (valid_for dst p) pkts"
  shows "udp_arrivals n dst pkts s =
    (let all = uc_inbound c @ map (\<lambda>(src, payload). dgram_of src payload) pkts;
         q = (if uc_policy c = UDPDropOldest then drop (length all - uc_depth c) all
              else take (uc_depth c) all)
     in s\<lparr>ud_conns := (ud_conns s)(cid \<mapsto> c\<lparr>uc_inbound := q\<rparr>),
          ud_queueFullDropped := ud_queueFullDropped s + of_nat (length all - uc_depth c)\<rparr>)"
  using arrivals_state [OF assms refl, of n] by (simp only: Let_def kept_def)

definition demo_dgram :: "u8 \<Rightarrow> addr \<times> bytes" where
  "demo_dgram b = (0x0A080002, udp_segment 9 53 0 [b])"

lemma demo_valid: "valid_for dst 53 (demo_dgram b)"
  by (simp add: valid_for_def demo_dgram_def parse_udp_segment udp_checksum_ok_def udp_segment_fields
      u16c.dec_enc_Nil)

lemma demo_dgram_of: "(\<lambda>(src, payload). dgram_of src payload) (demo_dgram b)
    = (UDPAddr (Some [10, 8, 0, 2]) 9, [b])"
  by (simp add: dgram_of_def demo_dgram_def parse_udp_segment As4_def be32_def)

theorem udp_overflow_policy_witness:
  "(case ListenUDPOptions 53 \<lparr> QueueDepth = 2, DropPolicy = 1 \<rparr> (with_udp demo_stack) of (res, s) \<Rightarrow>
      map_option uc_inbound (ud_conns (udp_arrivals 0 1 [demo_dgram 7, demo_dgram 8, demo_dgram 9] s) 0)
      = Some [(UDPAddr (Some [10, 8, 0, 2]) 9, [8]), (UDPAddr (Some [10, 8, 0, 2]) 9, [9])])"
proof -
  obtain res s where l: "ListenUDPOptions 53 \<lparr> QueueDepth = 2, DropPolicy = 1 \<rparr> (with_udp demo_stack) = (res, s)"
    by fastforce
  then have s: "ud_ports s 53 = Some 0" "ud_conns s 0 = Some (newUDPConn 53 2 1)"
    by (auto simp: ListenUDPOptions_def govpn_consts udpDemuxFor_def registerUDPHandler_def demo_stack_def
        Let_def split: if_splits)
  have v: "list_all (valid_for 1 53) [demo_dgram 7, demo_dgram 8, demo_dgram 9]"
    by (simp add: demo_valid)
  show ?thesis
    using udp_overflow_policy [OF s _ _ v] l
    by (simp add: newUDPConn_def demo_dgram_of govpn_consts Let_def)
qed

text \<open>
  C30. UDP end to end, through fragmentation and reassembly. Let the socket be open with its
  write deadline not due, the payload fit a datagram, the destination be routed, and
  every session write succeed. Let the peer be a stack at the destination address with an
  attachment for the sender, room in its reassembler, a socket bound to the destination
  port and room in that socket's queue. Then \<open>WriteTo\<close> reports the whole length, and the
  packets it handed to the session, arriving in any order within the reassembly timeout,
  queue exactly the payload once, with the sender's address and port, and change no other
  socket.
\<close>

theorem udp_end_to_end:
  assumes c: "\<not> uc_closed c" "\<not> dl_due (uc_writeDeadline c)" "length p \<le> maxUDPPayload"
    and s: "route_of dst s = Some n" "576 \<le> st_mtu s" "\<And>x. wr n x"
    and t: "st_atts t m = Some a" "at_ip a = st_serverIP s" "st_serverIP t = dst" "st_udpHandler t"
    and room: "room_for (buildUDP [] (st_serverIP s) dst (uc_port c) port p)
      \<lparr> rk_src = st_serverIP s, rk_dst = dst, rk_protocol = protocolUDP, rk_id = ucast (st_ipID s + 1) \<rparr>
      (at_reasm a)"
    and d: "ud_ports t port = Some cid" "ud_conns t cid = Some d" "length (uc_inbound d) < uc_depth d"
  shows "\<exists>s' xs. WriteTo wr p (UDPAddr (Some (As4 dst)) (int (unat port))) c s = (Inr (length p), s')
    \<and> st_sent s' = st_sent s @ map (Pair n) xs
    \<and> (\<forall>order ts. arrival_order order xs \<and> length ts = length xs \<and> in_time (at_reasm a) ts \<longrightarrow>
         ud_conns (receive_all wr' (udp_handlePacket env) tcp m (zip ts (map ((!) xs) order)) t)
         = (ud_conns t)(cid \<mapsto> d\<lparr>uc_inbound := uc_inbound d
              @ [(UDPAddr (Some (As4 (st_serverIP s))) (int (unat (uc_port c))), p)]\<rparr>))"
proof -
  let ?u = "buildUDP [] (st_serverIP s) dst (uc_port c) port p"
  let ?pkt = "buildIPv4 [] (st_serverIP s) dst protocolUDP ?u"
  have u: "parseUDP ?u = Inr (uc_port c, port, p)" "length ?u \<le> 65515"
    "udp_checksum_ok (st_serverIP s) dst ?u p"
    using c(3) parse_buildUDP built_checksum_ok by (simp_all add: govpn_consts)
  obtain s' xs where w: "writePacket wr n ?pkt s = (None, s')" "st_sent s' = st_sent s @ map (Pair n) xs"
    and arr: "\<And>order ts. arrival_order order xs \<and> length ts = length xs \<and> in_time (at_reasm a) ts \<Longrightarrow>
       \<exists>w d t'. receive_all wr' (udp_handlePacket env) tcp m (zip ts (map ((!) xs) order)) t
            = dispatch wr' (udp_handlePacket env) tcp m w d t'
          \<and> quiet t t' \<and> ih_protocol w = protocolUDP \<and> ih_src w = st_serverIP s \<and> ih_dst w = dst
          \<and> ip_payload w d = ?u"
    using packet_transit [where wr = wr and n = n, OF refl u(2) refl s(2,3) t(1-3) room,
      of wr' "udp_handlePacket env" tcp] by blast
  have "WriteTo wr p (UDPAddr (Some (As4 dst)) (int (unat port))) c s = (Inr (length p), s')"
    using c s(1) w(1) by (simp add: WriteTo_def To4_def Let_def)
  moreover have "ud_conns (receive_all wr' (udp_handlePacket env) tcp m (zip ts (map ((!) xs) order)) t)
      = (ud_conns t)(cid \<mapsto> d\<lparr>uc_inbound := uc_inbound d
           @ [(UDPAddr (Some (As4 (st_serverIP s))) (int (unat (uc_port c))), p)]\<rparr>)"
    if ord: "arrival_order order xs \<and> length ts = length xs \<and> in_time (at_reasm a) ts" for order ts
  proof -
    obtain w dg t' where r: "receive_all wr' (udp_handlePacket env) tcp m (zip ts (map ((!) xs) order)) t
        = dispatch wr' (udp_handlePacket env) tcp m w dg t'"
      and q: "quiet t t'" and h: "ih_protocol w = protocolUDP" "ih_src w = st_serverIP s" "ih_dst w = dst"
      and pl: "ip_payload w dg = ?u"
      using arr [OF ord] by blast
    have t': "ud_ports t' = ud_ports t" "ud_conns t' = ud_conns t" "st_udpHandler t'"
      using q t(4) ud_fields_more [of t' t] by (simp_all add: quiet_def)
    have "dispatch wr' (udp_handlePacket env) tcp m w dg t'
      = udp_handlePacket env m (st_serverIP s) dst ?u t'"
      using h pl t'(3) by (simp add: dispatch_def Let_def govpn_consts)
    also have "\<dots> = t'\<lparr>ud_conns := (ud_conns t')(cid \<mapsto> d\<lparr>uc_inbound := uc_inbound d
           @ [dgram_of (st_serverIP s) ?u]\<rparr>), ud_queueFullDropped := ud_queueFullDropped t' + of_bool False\<rparr>"
      using d t' u by (intro udp_handle_valid [of _ port])
        (simp_all add: valid_for_def enqueue_def chan_send_def)
    finally show ?thesis
      using r u(1) t'(2) by (simp add: dgram_of_def)
  qed
  ultimately show ?thesis
    using w(2) by (intro exI [of _ s'] exI [of _ xs]) simp
qed

lemma fresh_room:
  assumes "length p \<le> 65535"
  shows "room_for p key fresh_reassembler"
  using assms new_inv [of 0 0 0]
  by (simp add: room_for_def new_reassembler_def buf_lookup_def max_bufs_def max_bytes_def
      resolveLimits_def govpn_consts)

definition demo_peer :: udp_stack where
  "demo_peer = (with_udp (demo_stack\<lparr>st_serverIP := 0x0A080002, st_udpHandler := True,
       st_atts := [3 \<mapsto> \<lparr> at_ip = 0x0A080001, at_stopped = False, at_reasm = fresh_reassembler \<rparr>]\<rparr>))
     \<lparr>ud_ports := [7 \<mapsto> 0], ud_conns := [0 \<mapsto> newUDPConn 7 4 UDPDropNewest]\<rparr>"

theorem udp_end_to_end_witness:
  "(let s = with_udp (demo_stack\<lparr>st_routes := [(0x0A080002, 0)]\<rparr>) in
    case WriteTo (\<lambda>_ _. True) [1, 2, 3] (UDPAddr (Some [10, 8, 0, 2]) 7)
        (newUDPConn 53 64 UDPDropNewest) s of (res, s') \<Rightarrow>
      res = Inr 3 \<and> (\<exists>xs. st_sent s' = map (Pair 0) xs
        \<and> map_option uc_inbound (ud_conns (receive_all (\<lambda>_ _. True) (udp_handlePacket alone)
             (\<lambda>_ _ _ _ t. t) 3 [(5, xs ! 0)] demo_peer) 0)
           = Some [(UDPAddr (Some [10, 8, 0, 1]) 53, [1, 2, 3])]))"
proof -
  let ?c = "newUDPConn 53 64 UDPDropNewest" and ?s = "with_udp (demo_stack\<lparr>st_routes := [(0x0A080002, 0)]\<rparr>)"
  have c: "\<not> uc_closed ?c" "\<not> dl_due (uc_writeDeadline ?c)" "length [1, 2, 3 :: u8] \<le> maxUDPPayload"
    by (simp_all add: newUDPConn_def dl_due_def dl_wait_def newDeadlineTimer_def govpn_consts)
  have s: "route_of 0x0A080002 ?s = Some 0" "576 \<le> st_mtu ?s"
    by (simp_all add: route_of_def demo_stack_def)
  let ?a = "\<lparr> at_ip = 0x0A080001, at_stopped = False, at_reasm = fresh_reassembler \<rparr>"
  have t: "st_atts demo_peer 3 = Some ?a" "at_ip ?a = st_serverIP ?s" "st_serverIP demo_peer = 0x0A080002"
    "st_udpHandler demo_peer" "ud_ports demo_peer 7 = Some 0"
    "ud_conns demo_peer 0 = Some (newUDPConn 7 4 UDPDropNewest)"
    "length (uc_inbound (newUDPConn 7 4 UDPDropNewest)) < uc_depth (newUDPConn 7 4 UDPDropNewest)"
    by (simp_all add: demo_peer_def demo_stack_def newUDPConn_def)
  have room: "room_for (buildUDP [] (st_serverIP ?s) 0x0A080002 (uc_port ?c) 7 [1, 2, 3])
      \<lparr> rk_src = st_serverIP ?s, rk_dst = 0x0A080002, rk_protocol = protocolUDP,
        rk_id = ucast (st_ipID ?s + 1) \<rparr> (at_reasm ?a)"
    using fresh_room parse_buildUDP(2) by (simp add: govpn_consts)
  obtain s' xs where w: "WriteTo (\<lambda>_ _. True) [1, 2, 3] (UDPAddr (Some (As4 0x0A080002)) (int (unat (7 :: u16)))) ?c ?s
      = (Inr (length [1, 2, 3 :: u8]), s')" "st_sent s' = st_sent ?s @ map (Pair 0) xs"
    and arr: "\<And>order ts. arrival_order order xs \<and> length ts = length xs \<and> in_time (at_reasm ?a) ts \<Longrightarrow>
      ud_conns (receive_all (\<lambda>_ _. True) (udp_handlePacket alone) (\<lambda>_ _ _ _ t. t) 3
        (zip ts (map ((!) xs) order)) demo_peer)
      = (ud_conns demo_peer)(0 \<mapsto> (newUDPConn 7 4 UDPDropNewest)\<lparr>uc_inbound :=
          uc_inbound (newUDPConn 7 4 UDPDropNewest)
            @ [(UDPAddr (Some (As4 (st_serverIP ?s))) (int (unat (uc_port ?c))), [1, 2, 3])]\<rparr>)"
    using udp_end_to_end [where wr = "\<lambda>_ _. True" and n = 0, OF c s TrueI t(1-4) room t(5-7),
        of "\<lambda>_ _. True" alone "\<lambda>_ _ _ _ t. t"] by blast
  have one: "length xs = 1"
  proof -
    let ?u = "buildUDP [] 0x0A080001 0x0A080002 53 7 [1, 2, 3]"
    have len: "length ?u = 11" "length ?u \<le> 65515"
      by (simp_all add: parse_buildUDP(2) govpn_consts)
    have "st_sent s' = [(0, buildIPv4 [] 0x0A080001 0x0A080002 protocolUDP ?u)]"
      using w(1) parse_buildIPv4 [of ?u "0x0A080001" "0x0A080002" protocolUDP, OF len(2)] len(1) s(1)
      by (auto simp: WriteTo_def Let_def writePacket_def built_header_def demo_stack_def newUDPConn_def
          To4_def split: if_splits prod.splits option.splits)
    then have "length (st_sent s') = 1"
      by simp
    moreover have "length (st_sent s') = length xs"
      using w(2) by (simp add: demo_stack_def)
    ultimately show ?thesis
      by simp
  qed
  have "map_option uc_inbound (ud_conns (receive_all (\<lambda>_ _. True) (udp_handlePacket alone)
         (\<lambda>_ _ _ _ t. t) 3 [(5, xs ! 0)] demo_peer) 0)
       = Some [(UDPAddr (Some [10, 8, 0, 1]) 53, [1, 2, 3])]"
  proof -
    have "arrival_order [0] xs \<and> length [5 :: instant] = length xs \<and> in_time (at_reasm ?a) [5]"
      using one by (auto simp: arrival_order_def in_time_def reasm_timeout_def resolveLimits_def
          new_reassembler_def govpn_consts add_duration_def)
    from arr [OF this] show ?thesis
      by (simp add: newUDPConn_def demo_stack_def As4_def be32_def)
  qed
  moreover have "As4 0x0A080002 = [10, 8, 0, 2]"
    by (simp add: As4_def be32_def)
  ultimately show ?thesis
    using w by (auto simp: Let_def demo_stack_def)
qed

end
