(* ===== verification/Tcp_Conn.thy ===== *)
theory Tcp_Conn
  imports Tcp_Segment Deadline Ip_Pool
begin

text \<open>
  \<^verbatim>\<open>netstack/tcp_conn.go\<close>, \<^verbatim>\<open>netstack/tcp_state.go\<close>, \<^verbatim>\<open>netstack/tcp_timer.go\<close>: one TCP
  connection. What the code does under the connection's mutex is a function of the
  connection; what it does after releasing it (sending, removing the connection from the
  demux, handing it to the listener, counting) is returned as a list of effects in order,
  which the demux carries out. Sequence numbers, the window and the bytes in flight stay
  32-bit words. The retransmission timer is the duration it was last reset to, or \<open>None\<close>
  when it is stopped or has fired; the notification channel is a generation number, and a
  waiter wakes when it has moved on. A call that would block says so.
\<close>

unbundle bit_operations_syntax

section \<open>Constants, errors and state\<close>

definition defaultMSS :: u16 where
  "defaultMSS = 1460"

definition defaultReceiveWindow :: u32 where
  "defaultReceiveWindow = 65535"

definition maxInFlightBytes :: nat where
  "maxInFlightBytes = 65535"

definition defaultBacklog :: nat where
  "defaultBacklog = 16"

definition maxHalfOpenPerSession :: nat where
  "maxHalfOpenPerSession = 8"

definition maxLiveConnsPerSession :: nat where
  "maxLiveConnsPerSession = 64"

definition maxPersistProbes :: nat where
  "maxPersistProbes = 20"

definition maxReorderSegments :: nat where
  "maxReorderSegments = 16"

definition initialRTO :: duration where
  "initialRTO = 300000000"

definition maxRTO :: duration where
  "maxRTO = 8000000000"

definition maxRetransmits :: nat where
  "maxRetransmits = 6"

definition timeWaitDuration :: duration where
  "timeWaitDuration = 5000000000"

lemmas tcp_timer_consts [govpn_consts] =
  defaultMSS_def defaultReceiveWindow_def maxInFlightBytes_def defaultBacklog_def
  maxHalfOpenPerSession_def maxLiveConnsPerSession_def maxPersistProbes_def maxReorderSegments_def
  initialRTO_def maxRTO_def maxRetransmits_def timeWaitDuration_def

datatype tcp_error =
  ErrTCPPortZero | ErrTCPPortInUse | ErrTCPConnReset | ErrTCPListenerClosed | errTCPWriteAfterClose
| errTCPConnClosed | TCPErrDeadline | TCPErrEOF

datatype tcpState =
  stateListen | stateSynRcvd | stateEstablished | stateFinWait1 | stateFinWait2 | stateClosing
| stateTimeWait | stateCloseWait | stateLastAck | stateClosed

record fourTuple =
  ft_remoteIP :: addr
  ft_remotePort :: u16
  ft_localPort :: u16

record tcpConn =
  tc_listener :: nat
  tc_att :: nat
  tc_key :: fourTuple
  tc_notify :: nat
  tc_state :: tcpState
  tc_sndUna :: u32
  tc_sndWnd :: u32
  tc_sndMSS :: u16
  tc_outBuf :: bytes
  tc_sentBytes :: u32
  tc_rcvNxt :: u32
  tc_recvBuf :: bytes
  tc_reorder :: "(u32 \<times> bytes) list"
  tc_hasPendingFIN :: bool
  tc_pendingFINSeq :: u32
  tc_peerClosed :: bool
  tc_finSent :: bool
  tc_finAcked :: bool
  tc_finSeq :: u32
  tc_timer :: "duration option"
  tc_timerArmed :: bool
  tc_retransmitCount :: nat
  tc_persistProbeCount :: nat
  tc_rto :: duration
  tc_inTimeWait :: bool
  tc_stopTimersClosed :: bool
  tc_halfOpenCounted :: bool
  tc_halfOpenIP :: addr
  tc_liveCounted :: bool
  tc_err :: "tcp_error option"
  tc_readDeadline :: deadlineTimer
  tc_writeDeadline :: deadlineTimer
  tc_closeWriteDone :: bool

definition newTCPConn :: "nat \<Rightarrow> nat \<Rightarrow> fourTuple \<Rightarrow> u32 \<Rightarrow> u32 \<Rightarrow> u16 \<Rightarrow> u16 \<Rightarrow> tcpConn" where
  "newTCPConn l a key isn clientISN clientWindow sndMSS =
     \<lparr> tc_listener = l, tc_att = a, tc_key = key, tc_notify = 0, tc_state = stateSynRcvd,
       tc_sndUna = isn, tc_sndWnd = ucast clientWindow, tc_sndMSS = sndMSS, tc_outBuf = [],
       tc_sentBytes = 0, tc_rcvNxt = clientISN + 1, tc_recvBuf = [], tc_reorder = [],
       tc_hasPendingFIN = False, tc_pendingFINSeq = 0, tc_peerClosed = False, tc_finSent = False,
       tc_finAcked = False, tc_finSeq = 0, tc_timer = Some initialRTO, tc_timerArmed = True,
       tc_retransmitCount = 0, tc_persistProbeCount = 0, tc_rto = initialRTO, tc_inTimeWait = False,
       tc_stopTimersClosed = False, tc_halfOpenCounted = False, tc_halfOpenIP = 0,
       tc_liveCounted = False, tc_err = None, tc_readDeadline = newDeadlineTimer,
       tc_writeDeadline = newDeadlineTimer, tc_closeWriteDone = False \<rparr>"

text \<open>What happens after the mutex is released, in order.\<close>

datatype tcp_effect =
  RemoveConn | ReleaseHalfOpen | EnqueueListener | SendSegments "tcpSegment list"
| CountRSTSent | CountRSTReceived | CountReorderDropped | CountBacklogOverflow

section \<open>Helpers under the mutex\<close>

definition seqGT :: "u32 \<Rightarrow> u32 \<Rightarrow> bool" where
  "seqGT a b \<longleftrightarrow> sint (a - b) > 0"

definition seqGE :: "u32 \<Rightarrow> u32 \<Rightarrow> bool" where
  "seqGE a b \<longleftrightarrow> sint (a - b) \<ge> 0"

definition broadcastLocked :: "tcpConn \<Rightarrow> tcpConn" where
  "broadcastLocked c = c\<lparr>tc_notify := tc_notify c + 1\<rparr>"

definition reorder_bytes :: "(u32 \<times> bytes) list \<Rightarrow> u32" where
  "reorder_bytes m = sum_list (map (\<lambda>(q, d). of_nat (length d)) m)"

definition recvWindowRemainingLocked :: "tcpConn \<Rightarrow> u32" where
  "recvWindowRemainingLocked c =
     (let used = of_nat (length (tc_recvBuf c)) + reorder_bytes (tc_reorder c) in
      if used \<ge> defaultReceiveWindow then 0 else defaultReceiveWindow - used)"

definition advertisedWindowLocked :: "tcpConn \<Rightarrow> u16" where
  "advertisedWindowLocked c = ucast (recvWindowRemainingLocked c)"

definition allowedInFlightLocked :: "tcpConn \<Rightarrow> u32" where
  "allowedInFlightLocked c =
     (if tc_sndWnd c > of_nat maxInFlightBytes then of_nat maxInFlightBytes else tc_sndWnd c)"

text \<open>A segment of this connection with the given sequence number, flags, window and payload.\<close>

definition conn_segment :: "tcpConn \<Rightarrow> u32 \<Rightarrow> u8 \<Rightarrow> u16 \<Rightarrow> bytes \<Rightarrow> tcpSegment" where
  "conn_segment c seq flags window payload =
     \<lparr> sg_srcPort = ft_localPort (tc_key c), sg_dstPort = ft_remotePort (tc_key c), sg_seq = seq,
       sg_ack = tc_rcvNxt c, sg_flags = flags, sg_window = window, sg_hasMSS = False, sg_mss = 0,
       sg_payload = payload \<rparr>"

definition buildACKLocked :: "tcpConn \<Rightarrow> tcpSegment" where
  "buildACKLocked c =
     conn_segment c (tc_sndUna c + tc_sentBytes c) flagACK (advertisedWindowLocked c) []"

definition buildRSTSegment :: "tcpSegment \<Rightarrow> tcpSegment" where
  "buildRSTSegment offending =
     (let rst = \<lparr> sg_srcPort = sg_dstPort offending, sg_dstPort = sg_srcPort offending, sg_seq = 0,
                  sg_ack = 0, sg_flags = flagRST, sg_window = 0, sg_hasMSS = False, sg_mss = 0,
                  sg_payload = [] \<rparr> in
      if has_flag flagACK offending then rst\<lparr>sg_seq := sg_ack offending\<rparr>
      else rst\<lparr>sg_seq := 0, sg_ack := sg_seq offending + segLen offending,
               sg_flags := sg_flags rst OR flagACK\<rparr>)"

definition rstInWindowLocked :: "tcpConn \<Rightarrow> tcpSegment \<Rightarrow> bool" where
  "rstInWindowLocked c seg =
     (let wnd = ucast (advertisedWindowLocked c) :: u32 in
      if wnd = 0 then sg_seq seg = tc_rcvNxt c
      else seqGE (sg_seq seg) (tc_rcvNxt c) \<and> seqGT (tc_rcvNxt c + wnd) (sg_seq seg))"

definition stopTimersLocked :: "tcpConn \<Rightarrow> tcpConn" where
  "stopTimersLocked c = c\<lparr>tc_timer := None, tc_stopTimersClosed := True\<rparr>"

definition startTimeWaitLocked :: "tcpConn \<Rightarrow> tcpConn" where
  "startTimeWaitLocked c =
     c\<lparr>tc_state := stateTimeWait, tc_inTimeWait := True, tc_timerArmed := True,
       tc_timer := Some timeWaitDuration\<rparr>"

definition doubleRTO :: "duration \<Rightarrow> duration" where
  "doubleRTO d = (let d2 = d * 2 in if sint d2 > sint maxRTO then maxRTO else d2)"

text \<open>
  The loop of \<^verbatim>\<open>sendPendingLocked\<close>: the size of the next segment (\<^verbatim>\<open>chunk\<close>), then the
  bytes in flight and the segments to send.
\<close>

definition send_chunk :: "tcpConn \<Rightarrow> u32 \<Rightarrow> u32 \<Rightarrow> u32" where
  "send_chunk c limit sent =
     (let remainingWindow = limit - sent;
          remainingData = of_nat (length (tc_outBuf c)) - sent;
          chunk = (if remainingData < remainingWindow then remainingData else remainingWindow)
      in if ucast (tc_sndMSS c) < chunk then ucast (tc_sndMSS c) else chunk)"

function send_loop :: "tcpConn \<Rightarrow> u32 \<Rightarrow> bool \<Rightarrow> u32 \<Rightarrow> u32 \<times> tcpSegment list" where
  "send_loop c limit forceProbe sent =
     (if sent < limit \<and> sent < of_nat (length (tc_outBuf c)) \<and> send_chunk c limit sent \<noteq> 0 then
        let chunk = send_chunk c limit sent;
            seg = conn_segment c (tc_sndUna c + sent) flagACK (advertisedWindowLocked c)
                    (slice (unat sent) (unat (sent + chunk)) (tc_outBuf c)) in
        if forceProbe then (sent + chunk, [seg])
        else (case send_loop c limit forceProbe (sent + chunk) of (sent', segs) \<Rightarrow> (sent', seg # segs))
      else (sent, []))"
  by pat_completeness auto

lemma send_chunk_le:
  "send_chunk c limit sent \<le> of_nat (length (tc_outBuf c)) - sent" "send_chunk c limit sent \<le> limit - sent"
  "send_chunk c limit sent \<le> ucast (tc_sndMSS c)"
  by (auto simp: send_chunk_def Let_def)

lemma word_diff_less:
  assumes "k \<le> b - a" and "k \<noteq> 0"
  shows "unat (b - (a + k)) < unat (b - a)"
proof -
  have "unat (b - (a + k)) = unat (b - a) - unat k"
    using unat_sub [OF assms(1)] by (simp only: diff_diff_eq)
  moreover have "0 < unat k" "unat k \<le> unat (b - a)"
    using assms by (simp_all add: unat_gt_0 word_le_nat_alt)
  ultimately show ?thesis
    by linarith
qed

termination send_loop
proof (relation "measure (\<lambda>(c, limit, force, sent). unat (of_nat (length (tc_outBuf c)) - sent :: u32))",
    goal_cases)
  case (2 c limit forceProbe sent chunk seg)
  with word_diff_less [of chunk "of_nat (length (tc_outBuf c))" sent] send_chunk_le(1) [of c limit sent]
  show ?case
    by simp
qed simp

declare send_loop.simps [simp del]

definition sendPendingLocked :: "bool \<Rightarrow> tcpConn \<Rightarrow> tcpConn \<times> tcpSegment list" where
  "sendPendingLocked forceProbe c =
     (let limit0 = allowedInFlightLocked c;
          queued = of_nat (length (tc_outBuf c)) in
      if limit0 = 0 \<and> (\<not> forceProbe \<or> tc_sentBytes c \<ge> queued) then
        (if queued > tc_sentBytes c \<and> \<not> tc_timerArmed c
         then (c\<lparr>tc_timerArmed := True, tc_rto := initialRTO, tc_timer := Some initialRTO\<rparr>, [])
         else (c, []))
      else
        let limit = (if limit0 = 0 then tc_sentBytes c + 1 else limit0);
            (sent, segs) = send_loop c limit forceProbe (tc_sentBytes c);
            c1 = c\<lparr>tc_sentBytes := sent\<rparr> in
        if segs \<noteq> [] \<and> \<not> forceProbe
        then (c1\<lparr>tc_rto := initialRTO, tc_retransmitCount := 0, tc_timerArmed := True,
                 tc_timer := Some initialRTO\<rparr>, segs)
        else (c1, segs))"

section \<open>Inbound segments\<close>

text \<open>Retiring acknowledged bytes: the first block of \<^verbatim>\<open>handleAckLocked\<close>.\<close>

definition retire_acked :: "u32 \<Rightarrow> tcpConn \<Rightarrow> tcpConn" where
  "retire_acked ackNum c =
     (if tc_sentBytes c > 0 \<and> seqGT ackNum (tc_sndUna c) then
        let maxCovered = tc_sndUna c + tc_sentBytes c;
            covered = (if seqGT ackNum maxCovered then maxCovered else ackNum);
            amount = covered - tc_sndUna c in
        if amount > 0 then
          let c1 = c\<lparr>tc_outBuf := drop (unat amount) (tc_outBuf c), tc_sentBytes := tc_sentBytes c - amount,
                     tc_sndUna := covered, tc_retransmitCount := 0, tc_rto := initialRTO\<rparr> in
          broadcastLocked
            (if tc_sentBytes c1 = 0 then c1\<lparr>tc_timer := None, tc_timerArmed := False\<rparr>
             else c1\<lparr>tc_timerArmed := True, tc_timer := Some initialRTO\<rparr>)
        else c
      else c)"

definition note_fin_acked :: "u32 \<Rightarrow> tcpConn \<Rightarrow> tcpConn" where
  "note_fin_acked ackNum c =
     (if tc_finSent c \<and> \<not> tc_finAcked c \<and> seqGE ackNum (tc_finSeq c + 1) then
        let c1 = c\<lparr>tc_finAcked := True\<rparr> in
        if tc_sentBytes c1 = 0 then c1\<lparr>tc_timer := None, tc_timerArmed := False\<rparr> else c1
      else c)"

definition handleAckLocked :: "tcpSegment \<Rightarrow> tcpConn \<Rightarrow> tcpConn \<times> tcpSegment list" where
  "handleAckLocked seg c =
     (if \<not> has_flag flagACK seg then (c, [])
      else
        let c1 = note_fin_acked (sg_ack seg) (retire_acked (sg_ack seg) c);
            c2 = (if tc_sndWnd c1 = 0 \<and> sg_window seg > 0 then c1\<lparr>tc_persistProbeCount := 0\<rparr> else c1);
            c3 = c2\<lparr>tc_sndWnd := ucast (sg_window seg)\<rparr>
        in sendPendingLocked False c3)"

definition reorder_delete :: "u32 \<Rightarrow> (u32 \<times> bytes) list \<Rightarrow> (u32 \<times> bytes) list" where
  "reorder_delete q m = filter (\<lambda>e. fst e \<noteq> q) m"

text \<open>The loop that drains the reorder buffer once a gap is filled.\<close>

function drain_reorder :: "tcpConn \<Rightarrow> tcpConn" where
  "drain_reorder c =
     (case map_of (tc_reorder c) (tc_rcvNxt c) of
        None \<Rightarrow> c
      | Some data \<Rightarrow>
          if of_nat (length data) > recvWindowRemainingLocked c then c
          else drain_reorder
                 (c\<lparr>tc_reorder := reorder_delete (tc_rcvNxt c) (tc_reorder c),
                    tc_recvBuf := tc_recvBuf c @ data,
                    tc_rcvNxt := tc_rcvNxt c + of_nat (length data)\<rparr>))"
  by pat_completeness auto

termination drain_reorder
proof (relation "measure (\<lambda>c. length (tc_reorder c))", goal_cases)
  case (2 c data)
  then have "(tc_rcvNxt c, data) \<in> set (tc_reorder c)"
    by (simp add: map_of_SomeD)
  then have "length (reorder_delete (tc_rcvNxt c) (tc_reorder c)) < length (tc_reorder c)"
    unfolding reorder_delete_def by (rule length_filter_less) simp
  then show ?case
    by simp
qed simp

declare drain_reorder.simps [simp del]

definition take_fin :: "tcpSegment \<Rightarrow> tcpConn \<Rightarrow> tcpConn \<times> bool" where
  "take_fin seg c =
     (if has_flag flagFIN seg \<and> sg_seq seg + of_nat (length (sg_payload seg)) = tc_rcvNxt c
      then (c\<lparr>tc_rcvNxt := tc_rcvNxt c + 1, tc_peerClosed := True\<rparr>, True)
      else if tc_hasPendingFIN c \<and> tc_rcvNxt c = tc_pendingFINSeq c
      then (c\<lparr>tc_rcvNxt := tc_rcvNxt c + 1, tc_peerClosed := True, tc_hasPendingFIN := False\<rparr>, True)
      else (c, False))"

text \<open>The in-order branch: as much of the payload as the window admits, and whether it is all.\<close>

definition admit_payload :: "tcpSegment \<Rightarrow> tcpConn \<Rightarrow> tcpConn \<times> bool" where
  "admit_payload seg c =
     (let dataLen = of_nat (length (sg_payload seg)) :: u32 in
      if dataLen > 0 then
        let avail = recvWindowRemainingLocked c;
            accept = (if dataLen > avail then avail else dataLen);
            c1 = (if accept > 0
                  then c\<lparr>tc_recvBuf := tc_recvBuf c @ take (unat accept) (sg_payload seg),
                         tc_rcvNxt := tc_rcvNxt c + accept\<rparr>
                  else c)
        in (c1, accept = dataLen)
      else (c, True))"

text \<open>Results: the connection, the segments to send, whether the peer's FIN was consumed and
  whether an out-of-order segment was dropped.\<close>

definition handle_in_order :: "tcpSegment \<Rightarrow> tcpConn \<Rightarrow> tcpConn \<times> tcpSegment list \<times> bool \<times> bool" where
  "handle_in_order seg c =
     (let (c1, fullyAccepted) = admit_payload seg c;
          (c2, finConsumed) = (if fullyAccepted then take_fin seg (drain_reorder c1) else (c1, False))
      in (broadcastLocked c2, [buildACKLocked c2], finConsumed, False))"

definition handle_out_of_order :: "tcpSegment \<Rightarrow> tcpConn \<Rightarrow> tcpConn \<times> tcpSegment list \<times> bool \<times> bool" where
  "handle_out_of_order seg c =
     (let dataLen = of_nat (length (sg_payload seg)) :: u32 in
      if map_of (tc_reorder c) (sg_seq seg) = None then
        if length (tc_reorder c) \<ge> maxReorderSegments \<or> dataLen > recvWindowRemainingLocked c
        then (c, [buildACKLocked c], False, True)
        else
          let c1 = c\<lparr>tc_reorder := (sg_seq seg, sg_payload seg) # tc_reorder c\<rparr>;
              c2 = (if has_flag flagFIN seg
                    then c1\<lparr>tc_hasPendingFIN := True, tc_pendingFINSeq := sg_seq seg + dataLen\<rparr> else c1)
          in (c2, [buildACKLocked c2], False, False)
      else (c, [buildACKLocked c], False, False))"

definition handleEstablishedDataLocked ::
  "tcpSegment \<Rightarrow> tcpConn \<Rightarrow> tcpConn \<times> tcpSegment list \<times> bool \<times> bool" where
  "handleEstablishedDataLocked seg c =
     (let dataLen = of_nat (length (sg_payload seg)) :: u32 in
      if \<not> (dataLen > 0 \<or> has_flag flagFIN seg) then (c, [], False, False)
      else if sg_seq seg = tc_rcvNxt c then handle_in_order seg c
      else if seqGT (sg_seq seg) (tc_rcvNxt c) then handle_out_of_order seg c
      else (c, [buildACKLocked c], False, False))"

text \<open>Acknowledgement and data of a segment, as most states handle it.\<close>

definition ack_and_data :: "tcpSegment \<Rightarrow> tcpConn \<Rightarrow> tcpConn \<times> tcpSegment list \<times> bool \<times> bool" where
  "ack_and_data seg c =
     (let (c1, s1) = handleAckLocked seg c;
          (c2, s2, fin, dropped) = handleEstablishedDataLocked seg c1
      in (c2, s1 @ s2, fin, dropped))"

definition drop_count :: "bool \<Rightarrow> tcp_effect list" where
  "drop_count dropped = (if dropped then [CountReorderDropped] else [])"

definition send_effect :: "tcpSegment list \<Rightarrow> tcp_effect list" where
  "send_effect segs = (if segs = [] then [] else [SendSegments segs])"

definition handleSegment :: "tcpSegment \<Rightarrow> tcpConn \<Rightarrow> tcpConn \<times> tcp_effect list" where
  "handleSegment seg c =
     (if has_flag flagRST seg then
        (if \<not> rstInWindowLocked c seg then (c, [])
         else (broadcastLocked (stopTimersLocked (c\<lparr>tc_err := Some ErrTCPConnReset, tc_state := stateClosed\<rparr>)),
               [CountRSTReceived, RemoveConn]))
      else
        (case tc_state c of
           stateSynRcvd \<Rightarrow>
             if \<not> has_flag flagACK seg \<or> sg_ack seg \<noteq> tc_sndUna c + 1 then
               (broadcastLocked (stopTimersLocked (c\<lparr>tc_state := stateClosed\<rparr>)),
                [RemoveConn, SendSegments [buildRSTSegment seg], CountRSTSent])
             else
               let c1 = c\<lparr>tc_sndUna := sg_ack seg, tc_state := stateEstablished, tc_timer := None,
                          tc_timerArmed := False\<rparr>;
                   (c2, segs, _, dropped) = handleEstablishedDataLocked seg c1
               in (broadcastLocked c2,
                   drop_count dropped @ [ReleaseHalfOpen, EnqueueListener] @ send_effect segs)
         | stateEstablished \<Rightarrow>
             let (c1, segs, fin, dropped) = ack_and_data seg c;
                 c2 = (if fin then c1\<lparr>tc_state := stateCloseWait\<rparr> else c1)
             in (broadcastLocked c2, drop_count dropped @ send_effect segs)
         | stateFinWait1 \<Rightarrow>
             let (c1, segs, fin, dropped) = ack_and_data seg c;
                 c2 = (if fin \<and> tc_finAcked c1 then startTimeWaitLocked c1
                       else if fin then c1\<lparr>tc_state := stateClosing\<rparr>
                       else if tc_finAcked c1 then c1\<lparr>tc_state := stateFinWait2\<rparr> else c1)
             in (broadcastLocked c2, drop_count dropped @ send_effect segs)
         | stateFinWait2 \<Rightarrow>
             let (c1, segs, fin, dropped) = ack_and_data seg c;
                 c2 = (if fin then startTimeWaitLocked c1 else c1)
             in (broadcastLocked c2, drop_count dropped @ send_effect segs)
         | stateClosing \<Rightarrow>
             let (c1, segs) = handleAckLocked seg c;
                 c2 = (if tc_finAcked c1 then startTimeWaitLocked c1 else c1)
             in (broadcastLocked c2, send_effect segs)
         | stateCloseWait \<Rightarrow>
             let (c1, segs) = handleAckLocked seg c in (broadcastLocked c1, send_effect segs)
         | stateLastAck \<Rightarrow>
             let (c1, segs) = handleAckLocked seg c in
             if tc_finAcked c1
             then (broadcastLocked (stopTimersLocked (c1\<lparr>tc_state := stateClosed\<rparr>)),
                   RemoveConn # send_effect segs)
             else (broadcastLocked c1, send_effect segs)
         | stateTimeWait \<Rightarrow>
             (broadcastLocked c, if has_flag flagFIN seg then [SendSegments [buildACKLocked c]] else [])
         | stateClosed \<Rightarrow> (broadcastLocked c, [])
         | stateListen \<Rightarrow> (broadcastLocked c, [])))"

section \<open>The timer\<close>

definition synAckSegment :: "u16 \<Rightarrow> tcpConn \<Rightarrow> tcpSegment" where
  "synAckSegment ourMSS c =
     (conn_segment c (tc_sndUna c) (flagSYN OR flagACK) (advertisedWindowLocked c) [])
       \<lparr>sg_hasMSS := True, sg_mss := ourMSS\<rparr>"

definition rstSegment :: "tcpConn \<Rightarrow> tcpSegment" where
  "rstSegment c = conn_segment c (tc_sndUna c + tc_sentBytes c) (flagRST OR flagACK) 0 []"

text \<open>One more retransmission: \<open>None\<close> when the connection gives up.\<close>

definition backoff :: "tcpConn \<Rightarrow> tcpConn option" where
  "backoff c =
     (let c1 = c\<lparr>tc_retransmitCount := tc_retransmitCount c + 1\<rparr> in
      if tc_retransmitCount c1 > maxRetransmits then None
      else Some (c1\<lparr>tc_rto := doubleRTO (tc_rto c1), tc_timer := Some (doubleRTO (tc_rto c1))\<rparr>))"

definition give_up :: "tcpConn \<Rightarrow> tcpConn \<times> tcp_effect list" where
  "give_up c =
     (broadcastLocked (stopTimersLocked (c\<lparr>tc_err := Some ErrTCPConnReset, tc_state := stateClosed\<rparr>)),
      [RemoveConn, SendSegments [rstSegment c], CountRSTSent])"

definition onRTOFired :: "u16 \<Rightarrow> tcpConn \<Rightarrow> tcpConn \<times> tcp_effect list" where
  "onRTOFired ourMSS c =
     (if tc_state c = stateClosed then (c, [])
      else if tc_inTimeWait c then
        (broadcastLocked (stopTimersLocked (c\<lparr>tc_state := stateClosed\<rparr>)), [RemoveConn])
      else if tc_state c = stateSynRcvd then
        (case backoff c of
           None \<Rightarrow> give_up (c\<lparr>tc_retransmitCount := tc_retransmitCount c + 1\<rparr>)
         | Some c1 \<Rightarrow> (c1, [SendSegments [synAckSegment ourMSS c]]))
      else if tc_sentBytes c > 0 then
        (case backoff c of
           None \<Rightarrow> give_up (c\<lparr>tc_retransmitCount := tc_retransmitCount c + 1\<rparr>)
         | Some c1 \<Rightarrow>
             let chunk = (if ucast (tc_sndMSS c) < tc_sentBytes c then ucast (tc_sndMSS c) else tc_sentBytes c)
             in (c1, [SendSegments [conn_segment c (tc_sndUna c) flagACK (advertisedWindowLocked c)
                       (take (unat chunk) (tc_outBuf c))]]))
      else if tc_finSent c \<and> \<not> tc_finAcked c then
        (case backoff c of
           None \<Rightarrow> give_up (c\<lparr>tc_retransmitCount := tc_retransmitCount c + 1\<rparr>)
         | Some c1 \<Rightarrow>
             (c1, [SendSegments [conn_segment c (tc_finSeq c) (flagFIN OR flagACK) (advertisedWindowLocked c) []]]))
      else if tc_sndWnd c = 0 \<and> of_nat (length (tc_outBuf c)) > tc_sentBytes c then
        let c1 = c\<lparr>tc_persistProbeCount := tc_persistProbeCount c + 1\<rparr> in
        if tc_persistProbeCount c1 > maxPersistProbes then give_up c1
        else
          let (c2, segs) = sendPendingLocked True c1
          in (c2\<lparr>tc_timer := Some (tc_rto c2)\<rparr>, send_effect segs)
      else (c\<lparr>tc_timerArmed := False\<rparr>, []))"

text \<open>
  The connection's goroutine runs the callback when the timer has fired, which empties the
  timer.
\<close>

definition timer_fires :: "u16 \<Rightarrow> tcpConn \<Rightarrow> tcpConn \<times> tcp_effect list" where
  "timer_fires ourMSS c = onRTOFired ourMSS (c\<lparr>tc_timer := None\<rparr>)"

definition onAttachmentDetached :: "tcpConn \<Rightarrow> tcpConn \<times> tcp_effect list" where
  "onAttachmentDetached c =
     (if tc_state c = stateClosed then (c, [])
      else (broadcastLocked (stopTimersLocked (c\<lparr>tc_err := Some ErrTCPConnReset, tc_state := stateClosed\<rparr>)),
            [RemoveConn]))"

definition tcp_abort :: "tcpConn \<Rightarrow> tcpConn \<times> tcp_effect list" where
  "tcp_abort c = (if tc_state c = stateClosed then (c, []) else give_up c)"

section \<open>The application's calls\<close>

datatype tcp_read = TReadBlocks nat nat | TReadErr tcp_error | TRead bytes

text \<open>
  One iteration of \<^verbatim>\<open>Read\<close>: it returns, or waits on the notification generation and the
  deadline channel it captured. The wait ends by the deadline, or by a notification, after
  which the iteration is repeated.
\<close>

definition Read_iter :: "nat \<Rightarrow> tcpConn \<Rightarrow> tcp_read \<times> tcpConn" where
  "Read_iter buflen c =
     (if dl_due (tc_readDeadline c) then (TReadErr TCPErrDeadline, c)
      else if tc_recvBuf c \<noteq> [] then
        (TRead (take buflen (tc_recvBuf c)), c\<lparr>tc_recvBuf := drop buflen (tc_recvBuf c)\<rparr>)
      else
        (case tc_err c of
           Some e \<Rightarrow> (TReadErr e, c)
         | None \<Rightarrow>
             if tc_peerClosed c then (TReadErr TCPErrEOF, c)
             else (TReadBlocks (tc_notify c) (dl_wait (tc_readDeadline c)), c)))"

definition read_wakes :: "nat \<Rightarrow> nat \<Rightarrow> tcpConn \<Rightarrow> bool \<times> bool" where
  "read_wakes notify ch c = (tc_notify c > notify, ch \<in> set (dl_closed (tc_readDeadline c)))"

datatype tcp_write = TWriteBlocks nat nat | TWriteErr tcp_error | TWriteMore

text \<open>
  The checks before the loop of \<^verbatim>\<open>Write\<close>, and one pass of the loop from the point where
  the mutex is held: it fails, waits, or queues as much of the rest as fits and sends. The
  number of bytes queued so far is the caller's.
\<close>

definition Write_enter :: "tcpConn \<Rightarrow> tcp_error option" where
  "Write_enter c =
     (if dl_due (tc_writeDeadline c) then Some TCPErrDeadline
      else if tc_err c \<noteq> None then tc_err c
      else if tc_finSent c then Some errTCPWriteAfterClose
      else None)"

definition Write_pass :: "bytes \<Rightarrow> tcpConn \<Rightarrow> tcp_write \<times> nat \<times> tcpConn \<times> tcp_effect list" where
  "Write_pass rest c =
     (if dl_due (tc_writeDeadline c) then (TWriteErr TCPErrDeadline, 0, c, [])
      else
        (case tc_err c of
           Some e \<Rightarrow> (TWriteErr e, 0, c, [])
         | None \<Rightarrow>
             if \<not> (of_nat (length (tc_outBuf c)) :: u32) < of_nat maxInFlightBytes
             then (TWriteBlocks (tc_notify c) (dl_wait (tc_writeDeadline c)), 0, c, [])
             else
               let capacity = min (maxInFlightBytes - length (tc_outBuf c)) (length rest);
                   (c1, segs) = sendPendingLocked False (c\<lparr>tc_outBuf := tc_outBuf c @ take capacity rest\<rparr>)
               in (TWriteMore, capacity, c1, send_effect segs)))"

text \<open>
  A call of \<^verbatim>\<open>Write\<close> that nothing interrupts: pass after pass until all is queued, a pass
  fails or would block. A pass on a non-empty rest that queues nothing does not happen
  within the buffer's bound and ends the loop here.
\<close>

function Write_loop :: "bytes \<Rightarrow> nat \<Rightarrow> tcpConn \<Rightarrow> tcp_write \<times> nat \<times> tcpConn \<times> tcp_effect list" where
  "Write_loop rest queued c =
     (if rest = [] then (TWriteMore, queued, c, [])
      else
        (case Write_pass rest c of
           (TWriteMore, n, c1, effs) \<Rightarrow>
             if n = 0 then (TWriteMore, queued, c1, effs)
             else (case Write_loop (drop n rest) (queued + n) c1 of
                     (res, m, c2, effs2) \<Rightarrow> (res, m, c2, effs @ effs2))
         | (res, n, c1, effs) \<Rightarrow> (res, queued, c1, effs)))"
  by pat_completeness auto

termination Write_loop
  by (relation "measure (\<lambda>(rest, queued, c). length rest)") auto

declare Write_loop.simps [simp del]

definition TCP_Write :: "bytes \<Rightarrow> tcpConn \<Rightarrow> tcp_write \<times> nat \<times> tcpConn \<times> tcp_effect list" where
  "TCP_Write p c =
     (case Write_enter c of
        Some e \<Rightarrow> (TWriteErr e, 0, c, [])
      | None \<Rightarrow> Write_loop p 0 c)"

definition sendFINLocked :: "tcpConn \<Rightarrow> tcpConn \<times> tcpSegment list" where
  "sendFINLocked c =
     (let c1 = c\<lparr>tc_finSeq := tc_sndUna c + of_nat (length (tc_outBuf c)), tc_finSent := True\<rparr>
      in (c1\<lparr>tc_rto := initialRTO, tc_retransmitCount := 0, tc_timerArmed := True,
             tc_timer := Some initialRTO\<rparr>,
          [conn_segment c1 (tc_finSeq c1) (flagFIN OR flagACK) (advertisedWindowLocked c1) []]))"

definition TCP_CloseWrite :: "tcpConn \<Rightarrow> tcpConn \<times> tcp_effect list" where
  "TCP_CloseWrite c =
     (if tc_closeWriteDone c then (c, [])
      else
        let (c1, segs) =
              (case tc_state c of
                 stateEstablished \<Rightarrow>
                   (case sendFINLocked c of (c', segs) \<Rightarrow> (c'\<lparr>tc_state := stateFinWait1\<rparr>, segs))
               | stateCloseWait \<Rightarrow>
                   (case sendFINLocked c of (c', segs) \<Rightarrow> (c'\<lparr>tc_state := stateLastAck\<rparr>, segs))
               | _ \<Rightarrow> (c, []))
        in (broadcastLocked (c1\<lparr>tc_closeWriteDone := True\<rparr>), send_effect segs))"

definition TCP_Close :: "tcpConn \<Rightarrow> tcpConn \<times> tcp_effect list" where
  "TCP_Close c =
     (if tc_state c = stateSynRcvd then
        (broadcastLocked (stopTimersLocked
           (c\<lparr>tc_err := Some errTCPWriteAfterClose, tc_state := stateClosed\<rparr>)), [RemoveConn])
      else TCP_CloseWrite c)"

definition TCP_isClosed :: "tcpConn \<Rightarrow> bool" where
  "TCP_isClosed c \<longleftrightarrow> tc_state c = stateClosed"

text \<open>The deadline setters: the error, or the connection unless the timer panics.\<close>

definition TCP_SetReadDeadline :: "instant \<Rightarrow> instant option \<Rightarrow> tcpConn \<Rightarrow> tcp_error + tcpConn option" where
  "TCP_SetReadDeadline now t c =
     (if TCP_isClosed c then Inl errTCPConnClosed
      else Inr (map_option (\<lambda>d. c\<lparr>tc_readDeadline := d\<rparr>) (dl_set now t (tc_readDeadline c))))"

definition TCP_SetWriteDeadline :: "instant \<Rightarrow> instant option \<Rightarrow> tcpConn \<Rightarrow> tcp_error + tcpConn option" where
  "TCP_SetWriteDeadline now t c =
     (if TCP_isClosed c then Inl errTCPConnClosed
      else Inr (map_option (\<lambda>d. c\<lparr>tc_writeDeadline := d\<rparr>) (dl_set now t (tc_writeDeadline c))))"

definition TCP_SetDeadline :: "instant \<Rightarrow> instant option \<Rightarrow> tcpConn \<Rightarrow> tcp_error + tcpConn option" where
  "TCP_SetDeadline now t c =
     (if TCP_isClosed c then Inl errTCPConnClosed
      else Inr (Option.bind (dl_set now t (tc_readDeadline c)) (\<lambda>r.
             map_option (\<lambda>w. c\<lparr>tc_readDeadline := r, tc_writeDeadline := w\<rparr>)
               (dl_set now t (tc_writeDeadline c)))))"

end
