(* ===== verification/Tcp_Stream.thy ===== *)
theory Tcp_Stream
  imports Tcp_Conn
begin

text \<open>
  The byte streams of a TCP connection: what arrives in segments of a peer's stream is
  delivered in order, and every segment this side sends is a piece of what was written.
  Offsets into the stream count bytes after the initial sequence number; the streams are
  shorter than half the sequence space, so that an offset is determined by its sequence
  number.
\<close>

section \<open>Frames\<close>

text \<open>The receive side and the send side of a connection.\<close>

definition rcv_of :: "tcpConn \<Rightarrow> u32 \<times> bytes \<times> (u32 \<times> bytes) list \<times> bool \<times> u32 \<times> bool" where
  "rcv_of c = (tc_rcvNxt c, tc_recvBuf c, tc_reorder c, tc_hasPendingFIN c, tc_pendingFINSeq c,
     tc_peerClosed c)"

definition snd_of :: "tcpConn \<Rightarrow> u32 \<times> bytes \<times> u32 \<times> bool \<times> u32" where
  "snd_of c = (tc_sndUna c, tc_outBuf c, tc_sentBytes c, tc_finSent c, tc_finSeq c)"

lemma rcv_frame [simp]:
  "rcv_of (broadcastLocked c) = rcv_of c" "rcv_of (stopTimersLocked c) = rcv_of c"
  "rcv_of (startTimeWaitLocked c) = rcv_of c" "rcv_of (retire_acked a c) = rcv_of c"
  "rcv_of (note_fin_acked a c) = rcv_of c" "rcv_of (fst (sendPendingLocked b c)) = rcv_of c"
  by (simp_all add: rcv_of_def broadcastLocked_def stopTimersLocked_def startTimeWaitLocked_def
      retire_acked_def note_fin_acked_def sendPendingLocked_def Let_def split: prod.split)

lemma rcv_frame_updates [simp]:
  "rcv_of (c\<lparr>tc_state := st\<rparr>) = rcv_of c" "rcv_of (c\<lparr>tc_err := e\<rparr>) = rcv_of c"
  "rcv_of (c\<lparr>tc_timer := t\<rparr>) = rcv_of c" "rcv_of (c\<lparr>tc_timerArmed := b\<rparr>) = rcv_of c"
  "rcv_of (c\<lparr>tc_sndUna := q\<rparr>) = rcv_of c" "rcv_of (c\<lparr>tc_sndWnd := q\<rparr>) = rcv_of c"
  "rcv_of (c\<lparr>tc_persistProbeCount := n\<rparr>) = rcv_of c" "rcv_of (c\<lparr>tc_retransmitCount := n\<rparr>) = rcv_of c"
  "rcv_of (c\<lparr>tc_rto := d\<rparr>) = rcv_of c" "rcv_of (c\<lparr>tc_outBuf := x\<rparr>) = rcv_of c"
  "rcv_of (c\<lparr>tc_closeWriteDone := b\<rparr>) = rcv_of c"
  by (simp_all add: rcv_of_def)

lemma handleAck_rcv [simp]: "rcv_of (fst (handleAckLocked seg c)) = rcv_of c"
  by (simp add: handleAckLocked_def Let_def)

lemma sendFIN_rcv [simp]: "rcv_of (fst (sendFINLocked c)) = rcv_of c"
  by (simp add: rcv_of_def sendFINLocked_def Let_def)

section \<open>Receiving a stream\<close>

text \<open>
  The receive side after the application has read \<open>got\<close> of the peer's stream \<open>S\<close>: what was
  read and what is buffered is the stream up to the next expected byte, the reorder buffer
  holds pieces of the stream, and the end of the stream is known only at its end.
\<close>

definition stream_piece :: "u32 \<Rightarrow> bytes \<Rightarrow> u32 \<Rightarrow> bytes \<Rightarrow> bool" where
  "stream_piece isn S q d \<longleftrightarrow>
     (\<exists>k. q = isn + 1 + of_nat k \<and> k + length d \<le> length S \<and> d = take (length d) (drop k S))"

definition rx_ok :: "u32 \<Rightarrow> bytes \<Rightarrow> bytes \<Rightarrow> tcpConn \<Rightarrow> bool" where
  "rx_ok isn S got c \<longleftrightarrow>
     got @ tc_recvBuf c = take (length got + length (tc_recvBuf c)) S
     \<and> tc_rcvNxt c = isn + 1 + of_nat (length got + length (tc_recvBuf c) + of_bool (tc_peerClosed c))
     \<and> (tc_peerClosed c \<longrightarrow> length got + length (tc_recvBuf c) = length S)
     \<and> (\<forall>(q, d)\<in>set (tc_reorder c). stream_piece isn S q d)
     \<and> (tc_hasPendingFIN c \<longrightarrow> tc_pendingFINSeq c = isn + 1 + of_nat (length S))"

definition valid_rx :: "u32 \<Rightarrow> bytes \<Rightarrow> tcpSegment \<Rightarrow> bool" where
  "valid_rx isn S seg \<longleftrightarrow>
     (sg_payload seg = [] \<and> \<not> has_flag flagFIN seg)
     \<or> stream_piece isn S (sg_seq seg) (sg_payload seg)
       \<and> (has_flag flagFIN seg \<longrightarrow> sg_seq seg + of_nat (length (sg_payload seg)) = isn + 1 + of_nat (length S))"

definition rx_at :: "u32 \<Rightarrow> bytes \<Rightarrow> bytes \<Rightarrow> tcpConn \<Rightarrow> bool" where
  "rx_at isn S all c \<longleftrightarrow> all = take (length all) S
     \<and> tc_rcvNxt c = isn + 1 + of_nat (length all + of_bool (tc_peerClosed c))
     \<and> (tc_peerClosed c \<longrightarrow> length all = length S)
     \<and> (\<forall>(q, d)\<in>set (tc_reorder c). stream_piece isn S q d)
     \<and> (tc_hasPendingFIN c \<longrightarrow> tc_pendingFINSeq c = isn + 1 + of_nat (length S))"

lemma rx_ok_at: "rx_ok isn S got c \<longleftrightarrow> rx_at isn S (got @ tc_recvBuf c) c"
  by (simp add: rx_ok_def rx_at_def)

lemma rx_at_recvBuf: "rx_at isn S all (c\<lparr>tc_recvBuf := x\<rparr>) = rx_at isn S all c"
  by (simp add: rx_at_def)

lemma rx_ok_frame: "rcv_of c' = rcv_of c \<Longrightarrow> rx_ok isn S got c' = rx_ok isn S got c"
  by (simp add: rx_ok_def rcv_of_def)

lemma rx_got_le:
  assumes "rx_ok isn S got c"
  shows "length got + length (tc_recvBuf c) \<le> length S"
proof -
  have "length (got @ tc_recvBuf c) = min (length S) (length got + length (tc_recvBuf c))"
    using assms unfolding rx_ok_def by (metis length_take)
  then show ?thesis
    by simp
qed

lemma of_nat_u32_inject:
  "m < 4294967296 \<Longrightarrow> n < 4294967296 \<Longrightarrow> (of_nat m :: u32) = of_nat n \<longleftrightarrow> m = n"
proof
  assume m: "m < 4294967296" "n < 4294967296" and eq: "(of_nat m :: u32) = of_nat n"
  have u: "unat (of_nat k :: u32) = k" if "k < 4294967296" for k
    using that by (simp add: unsigned_of_nat take_bit_eq_mod)
  show "m = n"
    using arg_cong [OF eq, of unat] unfolding u [OF m(1)] u [OF m(2)] .
qed simp

text \<open>A piece at the next expected byte continues the stream.\<close>

lemma piece_at_next:
  assumes rx: "rx_ok isn S got c" and S: "length S < 2147483647"
    and p: "stream_piece isn S (tc_rcvNxt c) d"
  shows "\<not> tc_peerClosed c" and "d = take (length d) (drop (length got + length (tc_recvBuf c)) S)"
    and "length got + length (tc_recvBuf c) + length d \<le> length S"
proof -
  let ?r = "length got + length (tc_recvBuf c)"
  obtain k where k: "tc_rcvNxt c = isn + 1 + of_nat k" "k + length d \<le> length S"
    "d = take (length d) (drop k S)"
    using p by (auto simp: stream_piece_def)
  have "(of_nat k :: u32) = of_nat (?r + of_bool (tc_peerClosed c))"
    using k(1) rx by (simp add: rx_ok_def)
  moreover have "k < 4294967296" "?r + of_bool (tc_peerClosed c) < 4294967296"
    using k(2) S rx_got_le [OF rx] by (simp_all add: of_bool_def)
  ultimately have kr: "k = ?r + of_bool (tc_peerClosed c)"
    using of_nat_u32_inject by blast
  show nc: "\<not> tc_peerClosed c"
    using kr k(2) rx by (auto simp: rx_ok_def)
  show "d = take (length d) (drop ?r S)" "?r + length d \<le> length S"
    using kr nc k(2,3) by simp_all
qed

lemma rx_append:
  assumes rx: "rx_ok isn S got c" and nc: "\<not> tc_peerClosed c"
    and d: "d = take (length d) (drop (length got + length (tc_recvBuf c)) S)"
    and sub: "set m \<subseteq> set (tc_reorder c)"
  shows "rx_ok isn S got (c\<lparr>tc_reorder := m, tc_recvBuf := tc_recvBuf c @ d,
    tc_rcvNxt := tc_rcvNxt c + of_nat (length d)\<rparr>)"
proof -
  let ?r = "length got + length (tc_recvBuf c)"
  have "got @ tc_recvBuf c @ d = take (?r + length d) S"
    using rx d take_add [of ?r "length d" S] by (simp add: rx_ok_def)
  then show ?thesis
    using rx nc sub by (auto simp: rx_ok_def add.assoc)
qed

lemma rx_drain:
  assumes "rx_ok isn S got c" and "\<not> tc_peerClosed c" and "length S < 2147483647"
  shows "rx_ok isn S got (drain_reorder c) \<and> \<not> tc_peerClosed (drain_reorder c)"
  using assms
proof (induction c rule: drain_reorder.induct)
  case (1 c)
  show ?case
  proof (cases "map_of (tc_reorder c) (tc_rcvNxt c)")
    case None
    then show ?thesis
      by (subst (1 2) drain_reorder.simps) (simp add: 1)
  next
    case (Some d)
    show ?thesis
    proof (cases "of_nat (length d) > recvWindowRemainingLocked c")
      case True
      with Some show ?thesis
        by (subst (1 2) drain_reorder.simps) (simp add: 1)
    next
      case False
      let ?c = "c\<lparr>tc_reorder := reorder_delete (tc_rcvNxt c) (tc_reorder c),
          tc_recvBuf := tc_recvBuf c @ d, tc_rcvNxt := tc_rcvNxt c + of_nat (length d)\<rparr>"
      have "stream_piece isn S (tc_rcvNxt c) d"
        using "1.prems"(1) map_of_SomeD [OF Some] by (auto simp: rx_ok_def)
      note p = piece_at_next [OF "1.prems"(1,3) this]
      have "rx_ok isn S got ?c"
        by (rule rx_append [OF "1.prems"(1) p(1,2)]) (auto simp: reorder_delete_def)
      with "1.IH" [OF Some False] p(1) "1.prems"(3) Some False show ?thesis
        by (subst (1 2) drain_reorder.simps) simp
    qed
  qed
qed

lemma rx_take_fin:
  assumes rx: "rx_ok isn S got c" and nc: "\<not> tc_peerClosed c" and S: "length S < 2147483647"
    and fin: "has_flag flagFIN seg \<longrightarrow>
      sg_seq seg + of_nat (length (sg_payload seg)) = isn + 1 + of_nat (length S)"
    and res: "take_fin seg c = (c', b)"
  shows "rx_ok isn S got c'" and "b \<longleftrightarrow> tc_peerClosed c'"
proof -
  let ?r = "length got + length (tc_recvBuf c)"
  have "?r = length S" if "tc_rcvNxt c = isn + 1 + of_nat (length S)"
  proof -
    have "(of_nat ?r :: u32) = of_nat (length S)"
      using that rx nc by (simp add: rx_ok_def)
    then show ?thesis
      using of_nat_u32_inject [of ?r "length S"] rx_got_le [OF rx] S by simp
  qed
  note at_end = this
  have closes: "rx_ok isn S got (c\<lparr>tc_rcvNxt := tc_rcvNxt c + 1, tc_peerClosed := True, tc_hasPendingFIN := b\<rparr>)"
    if "tc_rcvNxt c = isn + 1 + of_nat (length S)" "b \<longrightarrow> tc_hasPendingFIN c" for b
    using rx nc at_end [OF that(1)] that(2) by (simp add: rx_ok_def)
  consider (fin) "has_flag flagFIN seg" "sg_seq seg + of_nat (length (sg_payload seg)) = tc_rcvNxt c"
    | (pending) "\<not> (has_flag flagFIN seg \<and> sg_seq seg + of_nat (length (sg_payload seg)) = tc_rcvNxt c)"
      "tc_hasPendingFIN c" "tc_rcvNxt c = tc_pendingFINSeq c"
    | (none) "take_fin seg c = (c, False)"
    unfolding take_fin_def by presburger
  then have "rx_ok isn S got c' \<and> (b \<longleftrightarrow> tc_peerClosed c')"
  proof cases
    case fin
    then have "tc_rcvNxt c = isn + 1 + of_nat (length S)"
      using assms(4) by simp
    from closes [OF this, of "tc_hasPendingFIN c"] fin res show ?thesis
      by (auto simp: take_fin_def)
  next
    case pending
    have "tc_pendingFINSeq c = isn + 1 + of_nat (length S)"
      using rx pending(2) unfolding rx_ok_def by blast
    with pending(3) have "tc_rcvNxt c = isn + 1 + of_nat (length S)"
      by (rule trans)
    from closes [OF this, of False] pending res show ?thesis
      by (auto simp: take_fin_def)
  next
    case none
    with res rx nc show ?thesis
      by auto
  qed
  then show "rx_ok isn S got c'" "b \<longleftrightarrow> tc_peerClosed c'"
    by blast+
qed

lemma unat_len_u32: "length xs < 4294967296 \<Longrightarrow> unat (of_nat (length xs) :: u32) = length xs"
  by (simp add: unsigned_of_nat take_bit_eq_mod)

lemma len_u32_pos: "length xs < 4294967296 \<Longrightarrow> (of_nat (length xs) :: u32) > 0 \<longleftrightarrow> xs \<noteq> []"
  using of_nat_u32_inject [of "length xs" 0] by (simp add: word_gt_0)

lemma rx_admit:
  assumes rx: "rx_ok isn S got c" and S: "length S < 2147483647" and nc: "\<not> tc_peerClosed c"
    and p: "sg_payload seg = take (length (sg_payload seg)) (drop (length got + length (tc_recvBuf c)) S)"
    and res: "admit_payload seg c = (c1, full)"
  shows "rx_ok isn S got c1 \<and> \<not> tc_peerClosed c1"
proof (cases "(of_nat (length (sg_payload seg)) :: u32) > 0")
  case True
  let ?n = "of_nat (length (sg_payload seg)) :: u32"
  define acc where "acc = (if ?n > recvWindowRemainingLocked c then recvWindowRemainingLocked c else ?n)"
  define d where "d = take (unat acc) (sg_payload seg)"
  have "length (sg_payload seg) \<le> length S"
    using arg_cong [OF p, of length] by (simp only: length_take length_drop)
  then have "unat ?n = length (sg_payload seg)"
    using S by (intro unat_len_u32) linarith
  then have le: "unat acc \<le> length (sg_payload seg)"
    by (auto simp: acc_def word_less_nat_alt)
  then have ld: "length d = unat acc" and "min (unat acc) (length (sg_payload seg)) = unat acc"
    unfolding d_def by simp_all
  then have "d = take (unat acc) (drop (length got + length (tc_recvBuf c)) S)"
    using arg_cong [OF p, of "take (unat acc)"] unfolding d_def by (simp only: take_take)
  with ld have dS: "d = take (length d) (drop (length got + length (tc_recvBuf c)) S)"
    by (simp only:)
  have "c1 = c\<lparr>tc_reorder := tc_reorder c, tc_recvBuf := tc_recvBuf c @ d,
      tc_rcvNxt := tc_rcvNxt c + of_nat (length d)\<rparr>"
    using res True ld unfolding admit_payload_def Let_def acc_def [symmetric] d_def [symmetric]
    by (cases "acc > 0") (auto simp: word_gt_0)
  with rx_append [OF rx nc dS order_refl] nc show ?thesis
    by simp
next
  case False
  with res rx nc show ?thesis
    by (auto simp: admit_payload_def)
qed

lemma rx_data:
  assumes rx: "rx_ok isn S got c" and S: "length S < 2147483647" and v: "valid_rx isn S seg"
    and res: "handleEstablishedDataLocked seg c = (c', segs, fin, dropped)"
  shows "rx_ok isn S got c'"
proof (cases "sg_payload seg = [] \<and> \<not> has_flag flagFIN seg")
  case True
  with rx res show ?thesis
    by (auto simp: handleEstablishedDataLocked_def)
next
  case False
  then have p: "stream_piece isn S (sg_seq seg) (sg_payload seg)"
    and f: "has_flag flagFIN seg \<longrightarrow>
      sg_seq seg + of_nat (length (sg_payload seg)) = isn + 1 + of_nat (length S)"
    using v by (auto simp: valid_rx_def)
  let ?n = "of_nat (length (sg_payload seg)) :: u32"
  have "length (sg_payload seg) < 4294967296"
    using p S by (auto simp: stream_piece_def)
  then have use: "?n > 0 \<or> has_flag flagFIN seg"
    using False len_u32_pos by blast
  show ?thesis
  proof (cases "sg_seq seg = tc_rcvNxt c")
    case now: True
    note q = piece_at_next [OF rx S p [unfolded now]]
    obtain c1 full where c1: "admit_payload seg c = (c1, full)"
      by fastforce
    note rx1 = rx_admit [OF rx S q(1,2) c1]
    obtain c2 b where c2: "(if full then take_fin seg (drain_reorder c1) else (c1, False)) = (c2, b)"
      by fastforce
    have "c' = broadcastLocked c2"
      using res use now c1 c2 unfolding handleEstablishedDataLocked_def handle_in_order_def Let_def by auto
    moreover have "rx_ok isn S got c2"
      using c2 rx1 rx_take_fin(1) [OF _ _ S f] rx_drain [OF conjunct1 [OF rx1] conjunct2 [OF rx1] S]
      by (auto split: if_splits)
    ultimately show ?thesis
      using rx_ok_frame [of "broadcastLocked c2" c2] by simp
  next
    case later: False
    let ?c = "c\<lparr>tc_reorder := (sg_seq seg, sg_payload seg) # tc_reorder c\<rparr>"
    have c: "rx_ok isn S got ?c"
      using rx p by (simp add: rx_ok_def)
    have cf: "rx_ok isn S got (?c\<lparr>tc_hasPendingFIN := True, tc_pendingFINSeq := sg_seq seg + ?n\<rparr>)"
      if "has_flag flagFIN seg"
      using c f that by (simp add: rx_ok_def)
    have "c' = c \<or> c' = ?c \<or> has_flag flagFIN seg
        \<and> c' = ?c\<lparr>tc_hasPendingFIN := True, tc_pendingFINSeq := sg_seq seg + ?n\<rparr>"
      using res use later unfolding handleEstablishedDataLocked_def handle_out_of_order_def Let_def
      by (auto split: if_splits)
    with rx c cf show ?thesis
      by blast
  qed
qed

section \<open>Sending a stream\<close>

text \<open>
  The send side when the application has written \<open>W\<close>: the buffer is what is not yet
  acknowledged, and a FIN comes right after the last byte.
\<close>

definition tx_ok :: "u32 \<Rightarrow> bytes \<Rightarrow> tcpConn \<Rightarrow> bool" where
  "tx_ok iss W c \<longleftrightarrow>
     (\<exists>a. a \<le> length W \<and> tc_sndUna c = iss + 1 + of_nat a \<and> tc_outBuf c = drop a W)
     \<and> unat (tc_sentBytes c) \<le> length (tc_outBuf c) \<and> length (tc_outBuf c) \<le> maxInFlightBytes
     \<and> (tc_finSent c \<longrightarrow> tc_finSeq c = iss + 1 + of_nat (length W))"

definition seg_ok :: "u32 \<Rightarrow> bytes \<Rightarrow> bool \<Rightarrow> tcpSegment \<Rightarrow> bool" where
  "seg_ok iss W fin seg \<longleftrightarrow> valid_rx iss W seg \<and> (has_flag flagFIN seg \<longrightarrow> fin)"

lemma tx_okI:
  assumes "a \<le> length W" and "tc_sndUna c = iss + 1 + of_nat a" and "tc_outBuf c = drop a W"
    and "unat (tc_sentBytes c) \<le> length (tc_outBuf c)" and "length (tc_outBuf c) \<le> maxInFlightBytes"
    and "tc_finSent c \<Longrightarrow> tc_finSeq c = iss + 1 + of_nat (length W)"
  shows "tx_ok iss W c"
  using assms unfolding tx_ok_def by blast

lemma tx_ok_frame: "snd_of c' = snd_of c \<Longrightarrow> tx_ok iss W c' = tx_ok iss W c"
  by (simp add: tx_ok_def snd_of_def)

lemma snd_frame [simp]:
  "snd_of (broadcastLocked c) = snd_of c" "snd_of (stopTimersLocked c) = snd_of c"
  "snd_of (startTimeWaitLocked c) = snd_of c" "snd_of (note_fin_acked a c) = snd_of c"
  "snd_of (c\<lparr>tc_state := st\<rparr>) = snd_of c" "snd_of (c\<lparr>tc_err := e\<rparr>) = snd_of c"
  "snd_of (c\<lparr>tc_timer := t\<rparr>) = snd_of c" "snd_of (c\<lparr>tc_timerArmed := b\<rparr>) = snd_of c"
  "snd_of (c\<lparr>tc_sndWnd := q\<rparr>) = snd_of c" "snd_of (c\<lparr>tc_persistProbeCount := n\<rparr>) = snd_of c"
  "snd_of (c\<lparr>tc_retransmitCount := n\<rparr>) = snd_of c" "snd_of (c\<lparr>tc_rto := d\<rparr>) = snd_of c"
  "snd_of (c\<lparr>tc_recvBuf := x\<rparr>) = snd_of c" "snd_of (c\<lparr>tc_rcvNxt := q\<rparr>) = snd_of c"
  "snd_of (c\<lparr>tc_reorder := m\<rparr>) = snd_of c" "snd_of (c\<lparr>tc_peerClosed := b\<rparr>) = snd_of c"
  "snd_of (c\<lparr>tc_hasPendingFIN := b\<rparr>) = snd_of c" "snd_of (c\<lparr>tc_pendingFINSeq := q\<rparr>) = snd_of c"
  "snd_of (c\<lparr>tc_closeWriteDone := b\<rparr>) = snd_of c"
  by (simp_all add: snd_of_def broadcastLocked_def stopTimersLocked_def startTimeWaitLocked_def
      note_fin_acked_def Let_def)

lemma drain_snd [simp]: "snd_of (drain_reorder c) = snd_of c"
proof (induction c rule: drain_reorder.induct)
  case (1 c)
  then show ?case
    by (subst drain_reorder.simps) (auto split: option.split)
qed

lemma data_snd:
  assumes "handleEstablishedDataLocked seg c = (c', segs, fin, dropped)"
  shows "snd_of c' = snd_of c"
proof -
  have a: "snd_of (fst (admit_payload seg c)) = snd_of c"
    by (simp add: admit_payload_def Let_def)
  have t: "snd_of (fst (take_fin seg x)) = snd_of x" for x
    by (simp add: take_fin_def)
  obtain c1 full where c1: "admit_payload seg c = (c1, full)" by fastforce
  obtain c2 b where c2: "take_fin seg (drain_reorder c1) = (c2, b)" by fastforce
  have "snd_of c2 = snd_of c" "snd_of c1 = snd_of c"
    using a t [of "drain_reorder c1"] c1 c2 by simp_all
  then show ?thesis
    using assms c1 c2
    by (auto simp: handleEstablishedDataLocked_def handle_in_order_def handle_out_of_order_def Let_def
        split: if_splits)
qed

text \<open>Segments without payload and FIN are pieces of any stream.\<close>

definition bare :: "tcpSegment \<Rightarrow> bool" where
  "bare seg \<longleftrightarrow> sg_payload seg = [] \<and> \<not> has_flag flagFIN seg"

lemma bare_ok [simp]: "bare seg \<Longrightarrow> seg_ok iss W fin seg"
  by (simp add: bare_def seg_ok_def valid_rx_def)

lemma bare_segments [simp]:
  "bare (buildACKLocked c)" "bare (buildRSTSegment seg)" "bare (rstSegment c)" "bare (synAckSegment m c)"
  by (simp_all add: bare_def buildACKLocked_def conn_segment_def has_flag_def tcp_flags buildRSTSegment_def
      rstSegment_def synAckSegment_def Let_def)

lemma data_bare:
  assumes "handleEstablishedDataLocked seg c = (c', segs, fin, dropped)"
  shows "list_all bare segs"
  using assms
  by (auto simp: handleEstablishedDataLocked_def handle_in_order_def handle_out_of_order_def Let_def
      split: if_splits prod.splits)

section \<open>Pushing queued bytes\<close>

lemma of_nat_unat_u32: "of_nat (unat (x :: u32)) = x"
  by simp

lemma data_segment_piece:
  assumes a: "a \<le> length W" "tc_sndUna c = iss + 1 + of_nat a" "tc_outBuf c = drop a W"
    and i: "i \<le> j" "j \<le> length (tc_outBuf c)"
  shows "seg_ok iss W fin (conn_segment c (tc_sndUna c + of_nat i) flagACK w (slice i j (tc_outBuf c)))"
proof -
  let ?d = "slice i j (tc_outBuf c)"
  have len: "length ?d = j - i"
    using i by simp
  have "?d = take (length ?d) (drop (a + i) W)"
    unfolding len by (simp add: slice_def a(3) add.commute)
  moreover have "a + i + length ?d \<le> length W"
    using len i a by simp
  moreover have "tc_sndUna c + of_nat i = iss + 1 + of_nat (a + i)"
    using a(2) by simp
  ultimately have "stream_piece iss W (tc_sndUna c + of_nat i) ?d"
    unfolding stream_piece_def by blast
  then show ?thesis
    by (simp add: seg_ok_def valid_rx_def conn_segment_def has_flag_def tcp_flags)
qed

lemma word_add_within:
  fixes a b k :: u32
  assumes "a \<le> b" and "k \<le> b - a"
  shows "unat (a + k) = unat a + unat k" and "a + k \<le> b" and "a \<le> a + k"
proof -
  have "unat (b - a) = unat b - unat a"
    by (rule unat_sub [OF assms(1)])
  then have le: "unat a + unat k \<le> unat b"
    using assms by (simp add: word_le_nat_alt)
  then have "unat a + unat k < 4294967296"
    using unat_u32_less [of b] by linarith
  then show u: "unat (a + k) = unat a + unat k"
    by (simp add: unat_word_ariths)
  show "a + k \<le> b" "a \<le> a + k"
    using le by (simp_all add: word_le_nat_alt u)
qed

lemma send_loop_ok:
  assumes a: "a \<le> length W" "tc_sndUna c = iss + 1 + of_nat a" "tc_outBuf c = drop a W"
    and len: "length (tc_outBuf c) < 4294967296" and "sent \<le> of_nat (length (tc_outBuf c))"
    and "send_loop c limit force sent = (sent', segs)"
  shows "list_all (seg_ok iss W fin) segs \<and> sent \<le> sent' \<and> sent' \<le> of_nat (length (tc_outBuf c))
    \<and> (sent' \<le> limit \<or> sent' = sent)"
  using assms(5,6) a len
proof (induction c limit force sent arbitrary: sent' segs rule: send_loop.induct)
  case (1 c limit force sent)
  let ?av = "of_nat (length (tc_outBuf c)) :: u32"
  define chunk where "chunk = send_chunk c limit sent"
  note ch = send_chunk_le [of c limit sent, folded chunk_def]
  show ?case
  proof (cases "sent < limit \<and> sent < ?av \<and> chunk \<noteq> 0")
    case False
    then have "send_loop c limit force sent = (sent, [])"
      unfolding chunk_def by (subst send_loop.simps) auto
    with 1 show ?thesis
      by simp
  next
    case True
    let ?seg = "conn_segment c (tc_sndUna c + sent) flagACK (advertisedWindowLocked c)
        (slice (unat sent) (unat (sent + chunk)) (tc_outBuf c))"
    have no: "sent + chunk \<le> ?av" "sent + chunk \<le> limit" "sent \<le> sent + chunk"
      using word_add_within [of sent ?av chunk] word_add_within [of sent limit chunk] ch True
      by (simp_all add: less_imp_le)
    have av: "unat ?av = length (tc_outBuf c)"
      using "1.prems"(6) by (rule unat_len_u32)
    have ok: "seg_ok iss W fin ?seg"
      using data_segment_piece [OF "1.prems"(3,4,5), of "unat sent" "unat (sent + chunk)"] no av
      by (simp add: word_le_nat_alt)
    show ?thesis
    proof (cases force)
      case f: True
      have "send_loop c limit force sent = (sent + chunk, [?seg])"
        using True f unfolding chunk_def by (subst send_loop.simps) (simp add: Let_def)
      then have "sent' = sent + chunk" "segs = [?seg]"
        using "1.prems"(2) by simp_all
      with ok no show ?thesis
        by simp
    next
      case f: False
      obtain s2 r where r: "send_loop c limit force (sent + chunk) = (s2, r)"
        by fastforce
      have "send_loop c limit force sent = (s2, ?seg # r)"
        using True f r unfolding chunk_def by (subst send_loop.simps) (simp add: Let_def)
      then have res: "sent' = s2" "segs = ?seg # r"
        using "1.prems"(2) by simp_all
      have "list_all (seg_ok iss W fin) r \<and> sent + chunk \<le> s2 \<and> s2 \<le> ?av \<and> (s2 \<le> limit \<or> s2 = sent + chunk)"
        using "1.IH" [OF _ refl refl f _ _ "1.prems"(3-6), folded chunk_def, OF True no(1) r] .
      with res ok no show ?thesis
        by auto
    qed
  qed
qed

lemma sendPending_ok:
  assumes tx: "tx_ok iss W c" and res: "sendPendingLocked force c = (c', segs)"
  shows "tx_ok iss W c'" and "list_all (seg_ok iss W fin) segs" and "tc_finSent c' = tc_finSent c"
    and "tc_sndWnd c' = tc_sndWnd c"
proof -
  let ?limit = "if allowedInFlightLocked c = 0 then tc_sentBytes c + 1 else allowedInFlightLocked c"
  obtain sent sl where sl: "send_loop c ?limit force (tc_sentBytes c) = (sent, sl)"
    by fastforce
  obtain a where a: "a \<le> length W" "tc_sndUna c = iss + 1 + of_nat a" "tc_outBuf c = drop a W"
    using tx by (auto simp: tx_ok_def)
  have len: "length (tc_outBuf c) < 4294967296"
    and sb: "tc_sentBytes c \<le> of_nat (length (tc_outBuf c))"
    using tx unat_len_u32 [of "tc_outBuf c"] by (simp_all add: tx_ok_def govpn_consts word_le_nat_alt)
  note sl_ok = send_loop_ok [OF a len sb sl, of fin]
  have "unat sent \<le> length (tc_outBuf c)"
    using sl_ok unat_len_u32 [OF len] by (simp add: word_le_nat_alt)
  then have txs: "tx_ok iss W (c\<lparr>tc_sentBytes := sent\<rparr>)"
    using tx by (simp add: tx_ok_def)
  consider (same) "snd_of c' = snd_of c" "segs = []" "tc_sndWnd c' = tc_sndWnd c"
    | (sent) "snd_of c' = snd_of (c\<lparr>tc_sentBytes := sent\<rparr>)" "segs = sl" "tc_sndWnd c' = tc_sndWnd c"
    using res sl by (auto simp: sendPendingLocked_def Let_def snd_of_def split: if_splits)
  then show "tx_ok iss W c'" "list_all (seg_ok iss W fin) segs" "tc_finSent c' = tc_finSent c"
    "tc_sndWnd c' = tc_sndWnd c"
    using tx txs sl_ok tx_ok_frame [of c' c] tx_ok_frame [of c' "c\<lparr>tc_sentBytes := sent\<rparr>"]
    by (cases; simp add: snd_of_def)+
qed

section \<open>Acknowledgements\<close>

lemma signed_residue:
  fixes u :: int
  assumes "0 \<le> u" and "u < 4294967296"
  shows "(u + 2147483648) mod 4294967296 - 2147483648 = (if u < 2147483648 then u else u - 4294967296)"
proof (cases "u < 2147483648")
  case True
  with assms show ?thesis
    by simp
next
  case False
  have "(u + 2147483648) mod 4294967296 = (u - 2147483648) mod 4294967296"
    using mod_add_self2 [of "u - 2147483648" 4294967296] by (simp add: add.commute)
  also have "\<dots> = u - 2147483648"
    using assms False by (intro mod_pos_pos_trivial) linarith+
  finally show ?thesis
    using False by simp
qed

lemma sint_pos_u32: "sint (x :: u32) > 0 \<longleftrightarrow> 0 < unat x \<and> unat x < 2147483648"
proof -
  have u: "uint x = int (unat x)" "unat x < 4294967296"
    using unat_u32_less [of x] by simp_all
  have "sint x = (uint x + 2147483648) mod 4294967296 - 2147483648"
    by (simp add: sint_uint signed_take_bit_eq_take_bit_shift take_bit_eq_mod)
  also have "\<dots> = (if uint x < 2147483648 then uint x else uint x - 4294967296)"
    using u by (intro signed_residue) linarith+
  finally have "sint x = (if uint x < 2147483648 then uint x else uint x - 4294967296)" .
  then show ?thesis
    unfolding u(1) using u(2) by (split if_split_asm) linarith+
qed

lemma covered_amount:
  assumes "seqGT ack una" and "\<not> seqGT ack (una + s)" and "unat s \<le> 65535"
  shows "ack - una \<le> s"
proof (rule ccontr)
  assume "\<not> ack - una \<le> s"
  then have lt: "s < ack - una"
    by simp
  have "unat (ack - una - s) = unat (ack - una) - unat s"
    using lt by (intro unat_sub) simp
  moreover have "0 < unat (ack - una)" "unat (ack - una) < 2147483648"
    using assms(1) by (simp_all add: seqGT_def sint_pos_u32)
  ultimately have "0 < unat (ack - una - s) \<and> unat (ack - una - s) < 2147483648"
    using lt by (simp add: word_less_nat_alt)
  then show False
    using assms(2) by (simp add: seqGT_def sint_pos_u32 diff_diff_eq)
qed

lemma retire_ok:
  assumes tx: "tx_ok iss W c"
  shows "tx_ok iss W (retire_acked ack c)" and "tc_finSent (retire_acked ack c) = tc_finSent c"
proof -
  define covered where "covered = (if seqGT ack (tc_sndUna c + tc_sentBytes c)
    then tc_sndUna c + tc_sentBytes c else ack)"
  define amount where "amount = covered - tc_sndUna c"
  obtain a where a: "a \<le> length W" "tc_sndUna c = iss + 1 + of_nat a" "tc_outBuf c = drop a W"
    using tx by (auto simp: tx_ok_def)
  have sb: "unat (tc_sentBytes c) \<le> length (tc_outBuf c)" "length (tc_outBuf c) \<le> 65535"
    using tx by (simp_all add: tx_ok_def govpn_consts)
  show "tc_finSent (retire_acked ack c) = tc_finSent c"
    by (simp add: retire_acked_def Let_def broadcastLocked_def)
  show "tx_ok iss W (retire_acked ack c)"
  proof (cases "tc_sentBytes c > 0 \<and> seqGT ack (tc_sndUna c) \<and> amount > 0")
    case True
    have am: "amount \<le> tc_sentBytes c"
      using covered_amount [of ack "tc_sndUna c" "tc_sentBytes c"] True sb
      by (auto simp: amount_def covered_def)
    let ?c = "c\<lparr>tc_outBuf := drop (unat amount) (tc_outBuf c), tc_sentBytes := tc_sentBytes c - amount,
        tc_sndUna := covered\<rparr>"
    have "unat (tc_sentBytes c - amount) = unat (tc_sentBytes c) - unat amount"
      by (rule unat_sub [OF am])
    moreover have "covered = iss + 1 + of_nat (a + unat amount)"
      using a(2) by (simp add: amount_def algebra_simps)
    moreover have "drop (unat amount) (tc_outBuf c) = drop (a + unat amount) W" "a + unat amount \<le> length W"
      using a am sb(1) by (simp_all add: word_le_nat_alt add.commute)
    moreover have "tc_finSent c \<Longrightarrow> tc_finSeq c = iss + 1 + of_nat (length W)"
      using tx by (simp add: tx_ok_def)
    ultimately have "tx_ok iss W ?c"
      using sb a(3) by (intro tx_okI [of "a + unat amount"]) (simp_all add: govpn_consts)
    moreover have "snd_of (retire_acked ack c) = snd_of ?c"
      using True unfolding retire_acked_def Let_def covered_def [symmetric] amount_def [symmetric]
      by (simp add: snd_of_def broadcastLocked_def)
    ultimately show ?thesis
      using tx_ok_frame by blast
  next
    case False
    then have "retire_acked ack c = c"
      unfolding retire_acked_def Let_def covered_def [symmetric] amount_def [symmetric] by auto
    with tx show ?thesis
      by simp
  qed
qed

lemma handleAck_ok:
  assumes tx: "tx_ok iss W c" and res: "handleAckLocked seg c = (c', segs)"
  shows "tx_ok iss W c'" and "list_all (seg_ok iss W fin) segs" and "tc_finSent c' = tc_finSent c"
proof -
  let ?c1 = "note_fin_acked (sg_ack seg) (retire_acked (sg_ack seg) c)"
  let ?c2 = "if tc_sndWnd ?c1 = 0 \<and> sg_window seg > 0 then ?c1\<lparr>tc_persistProbeCount := 0\<rparr> else ?c1"
  let ?c3 = "?c2\<lparr>tc_sndWnd := ucast (sg_window seg)\<rparr>"
  have snd: "snd_of ?c3 = snd_of (retire_acked (sg_ack seg) c)"
    by simp
  then have "tx_ok iss W ?c3" "tc_finSent ?c3 = tc_finSent c"
    using retire_ok [OF tx, of "sg_ack seg"] tx_ok_frame [OF snd, of iss W] by (simp_all add: snd_of_def)
  then show "tx_ok iss W c'" "list_all (seg_ok iss W fin) segs" "tc_finSent c' = tc_finSent c"
    using tx res sendPending_ok(1,3) [of iss W ?c3 False c' segs] sendPending_ok(2) [of iss W ?c3 False c' segs fin]
    by (auto simp: handleAckLocked_def Let_def split: if_splits)
qed

section \<open>The operations on both streams\<close>

fun sent_segments :: "tcp_effect \<Rightarrow> tcpSegment list" where
  "sent_segments (SendSegments segs) = segs"
| "sent_segments _ = []"

definition sent_of :: "tcp_effect list \<Rightarrow> tcpSegment list" where
  "sent_of effs = concat (map sent_segments effs)"

lemma sent_of_simps [simp]:
  "sent_of [] = []" "sent_of (e # es) = sent_segments e @ sent_of es" "sent_of (es @ fs) = sent_of es @ sent_of fs"
  "sent_of (drop_count b) = []" "sent_of (send_effect segs) = segs"
  by (simp_all add: sent_of_def drop_count_def send_effect_def)

text \<open>What an operation does to the send side: it keeps the stream and sends pieces of it.\<close>

definition tx_step :: "u32 \<Rightarrow> bytes \<Rightarrow> tcpConn \<Rightarrow> tcpSegment list \<Rightarrow> tcpConn \<Rightarrow> bool" where
  "tx_step iss W c segs c' \<longleftrightarrow> tx_ok iss W c' \<and> list_all (seg_ok iss W (tc_finSent c')) segs
     \<and> tc_finSent c' = tc_finSent c"

lemma tx_step_frame:
  assumes "tx_ok iss W c" and "snd_of c' = snd_of c" and "list_all bare segs"
  shows "tx_step iss W c segs c'"
  using assms tx_ok_frame [OF assms(2)]
  by (auto simp: tx_step_def snd_of_def list_all_iff)

lemma tx_step_ack:
  "tx_ok iss W c \<Longrightarrow> handleAckLocked seg c = (c', segs) \<Longrightarrow> tx_step iss W c segs c'"
  using handleAck_ok by (simp add: tx_step_def)

lemma tx_step_after:
  assumes "tx_step iss W c segs c1" and "snd_of c2 = snd_of c1" and "list_all bare segs'"
  shows "tx_step iss W c (segs @ segs') c2"
  using assms tx_ok_frame [OF assms(2)]
  by (auto simp: tx_step_def snd_of_def list_all_iff)

lemma tx_step_after0: "tx_step iss W c segs c1 \<Longrightarrow> snd_of c2 = snd_of c1 \<Longrightarrow> tx_step iss W c segs c2"
  using tx_step_after [of iss W c segs c1 c2 "[]"] by simp

lemma ack_and_data_step:
  assumes "ack_and_data seg c = (c', segs, fin, dropped)"
  shows "tx_ok iss W c \<Longrightarrow> tx_step iss W c segs c'"
    and "rx_ok isn S got c \<Longrightarrow> length S < 2147483647 \<Longrightarrow> valid_rx isn S seg \<Longrightarrow> rx_ok isn S got c'"
proof -
  obtain c1 s1 where a: "handleAckLocked seg c = (c1, s1)"
    by fastforce
  obtain s2 where d: "handleEstablishedDataLocked seg c1 = (c', s2, fin, dropped)" and s: "segs = s1 @ s2"
    using assms a by (auto simp: ack_and_data_def split: prod.splits)
  show "tx_step iss W c segs c'" if "tx_ok iss W c"
    unfolding s by (rule tx_step_after [OF tx_step_ack [OF that a] data_snd [OF d] data_bare [OF d]])
  have "rcv_of c1 = rcv_of c"
    using handleAck_rcv [of seg c] a by simp
  then show "rx_ok isn S got c'"
    if "rx_ok isn S got c" "length S < 2147483647" "valid_rx isn S seg"
    using rx_data [OF _ that(2,3) d] that(1) rx_ok_frame by blast
qed

text \<open>
  The result of \<open>handleSegment\<close> differs from one of three results only outside the two
  sides: nothing, an acknowledgement, or an acknowledgement and data.
\<close>

lemma handleSegment_shape:
  assumes "handleSegment seg c = (c', effs)" and "tc_state c \<noteq> stateSynRcvd"
  shows "(\<exists>c1 segs fin dropped. ack_and_data seg c = (c1, segs, fin, dropped) \<and> snd_of c' = snd_of c1
        \<and> rcv_of c' = rcv_of c1 \<and> sent_of effs = segs)
    \<or> (\<exists>c1 segs. handleAckLocked seg c = (c1, segs) \<and> snd_of c' = snd_of c1 \<and> rcv_of c' = rcv_of c1
        \<and> sent_of effs = segs)
    \<or> (snd_of c' = snd_of c \<and> rcv_of c' = rcv_of c \<and> list_all bare (sent_of effs))"
proof -
  obtain a sa fin dr where ad: "ack_and_data seg c = (a, sa, fin, dr)"
    by (rule prod_cases4)
  obtain b sb where ack: "handleAckLocked seg c = (b, sb)"
    by fastforce
  show ?thesis
  proof (cases "has_flag flagRST seg")
    case True
    with assms show ?thesis
      by (auto simp: handleSegment_def split: if_splits)
  next
    case False
    have "snd_of c' = snd_of a \<and> rcv_of c' = rcv_of a \<and> sent_of effs = sa"
      if "tc_state c \<in> {stateEstablished, stateFinWait1, stateFinWait2}"
      using that assms(1) False ad by (auto simp: handleSegment_def Let_def)
    moreover have "snd_of c' = snd_of b \<and> rcv_of c' = rcv_of b \<and> sent_of effs = sb"
      if "tc_state c \<in> {stateClosing, stateCloseWait, stateLastAck}"
      using that assms(1) False ack by (auto simp: handleSegment_def Let_def split: if_splits)
    moreover have "snd_of c' = snd_of c \<and> rcv_of c' = rcv_of c \<and> list_all bare (sent_of effs)"
      if "tc_state c \<in> {stateTimeWait, stateClosed, stateListen}"
      using that assms(1) False by (auto simp: handleSegment_def Let_def)
    moreover have "tc_state c \<in> {stateEstablished, stateFinWait1, stateFinWait2}
        \<or> tc_state c \<in> {stateClosing, stateCloseWait, stateLastAck}
        \<or> tc_state c \<in> {stateTimeWait, stateClosed, stateListen}"
      using assms(2) by (cases "tc_state c") auto
    ultimately show ?thesis
      using ad ack by blast
  qed
qed

lemma handleSegment_streams:
  assumes "handleSegment seg c = (c', effs)" and "tc_state c \<noteq> stateSynRcvd"
  shows "tx_ok iss W c \<Longrightarrow> tx_step iss W c (sent_of effs) c'"
    and "rx_ok isn S got c \<Longrightarrow> length S < 2147483647 \<Longrightarrow> valid_rx isn S seg \<Longrightarrow> rx_ok isn S got c'"
proof -
  consider (data) c1 segs fin dropped where "ack_and_data seg c = (c1, segs, fin, dropped)"
      "snd_of c' = snd_of c1" "rcv_of c' = rcv_of c1" "sent_of effs = segs"
    | (ack) c1 segs where "handleAckLocked seg c = (c1, segs)" "snd_of c' = snd_of c1"
      "rcv_of c' = rcv_of c1" "sent_of effs = segs"
    | (none) "snd_of c' = snd_of c" "rcv_of c' = rcv_of c" "list_all bare (sent_of effs)"
    using handleSegment_shape [OF assms] by blast
  note cases = this
  show "tx_step iss W c (sent_of effs) c'" if tx: "tx_ok iss W c"
    using cases
  proof cases
    case data
    with tx_step_after0 [OF ack_and_data_step(1) [OF data(1) tx]] show ?thesis by simp
  next
    case ack
    with tx_step_after0 [OF tx_step_ack [OF tx ack(1)]] show ?thesis by simp
  next
    case none
    with tx show ?thesis by (simp add: tx_step_frame)
  qed
  show "rx_ok isn S got c'" if rx: "rx_ok isn S got c" "length S < 2147483647" "valid_rx isn S seg"
    using cases
  proof cases
    case data
    with ack_and_data_step(2) [OF data(1) rx] rx_ok_frame [OF data(3)] show ?thesis by simp
  next
    case ack
    have "rcv_of c1 = rcv_of c"
      using handleAck_rcv [of seg c] ack(1) by simp
    with ack(3) rx(1) rx_ok_frame show ?thesis by metis
  next
    case none
    with rx rx_ok_frame [OF none(2)] show ?thesis by simp
  qed
qed

text \<open>The handshake's last segment, on a connection as \<^verbatim>\<open>handleSYN\<close> creates it.\<close>

lemma handshake_streams:
  assumes res: "handleSegment seg (newTCPConn l a key iss isn w mss) = (c, effs)"
    and est: "tc_state c = stateEstablished"
  shows "tx_step iss [] c (sent_of effs) c" and "\<not> tc_finSent c"
    and "length S < 2147483647 \<Longrightarrow> valid_rx isn S seg \<Longrightarrow> rx_ok isn S [] c"
proof -
  let ?c0 = "newTCPConn l a key iss isn w mss"
  let ?c1 = "?c0\<lparr>tc_sndUna := sg_ack seg, tc_state := stateEstablished, tc_timer := None, tc_timerArmed := False\<rparr>"
  obtain c2 segs fin dr where d: "handleEstablishedDataLocked seg ?c1 = (c2, segs, fin, dr)"
    by (rule prod_cases4)
  have "tc_state ?c0 = stateSynRcvd" "tc_sndUna ?c0 = iss"
    by (simp_all add: newTCPConn_def)
  then have c: "c = broadcastLocked c2" "sent_of effs = segs" "sg_ack seg = iss + 1"
    using res est d
    by (auto simp: handleSegment_def Let_def broadcastLocked_def stopTimersLocked_def split: if_splits)
  have tx: "tx_ok iss [] ?c1"
    using c(3) by (intro tx_okI [of 0]) (simp_all add: newTCPConn_def)
  have snd: "snd_of c = snd_of ?c1"
    using data_snd [OF d] c(1) by simp
  then have "tx_step iss [] ?c1 (sent_of effs) c"
    using tx data_bare [OF d] c(2) by (simp add: tx_step_frame)
  then show "tx_step iss [] c (sent_of effs) c"
    unfolding tx_step_def by blast
  show "\<not> tc_finSent c"
    using snd by (simp add: snd_of_def newTCPConn_def)
  show "rx_ok isn S [] c" if S: "length S < 2147483647" and v: "valid_rx isn S seg"
  proof -
    have "rx_ok isn S [] ?c1"
      by (simp add: rx_ok_def newTCPConn_def)
    from rx_data [OF this S v d] show ?thesis
      using c(1) rx_ok_frame [of c c2] by simp
  qed
qed

definition quiet_effect :: "tcpConn \<Rightarrow> tcp_effect list \<Rightarrow> tcpConn \<Rightarrow> bool" where
  "quiet_effect c effs c' \<longleftrightarrow> snd_of c' = snd_of c \<and> rcv_of c' = rcv_of c \<and> list_all bare (sent_of effs)
     \<and> (tc_state c' = tc_state c \<or> tc_state c' = stateClosed)"

lemma closing_effects:
  "quiet_effect x (snd (give_up x)) (fst (give_up x))"
  "quiet_effect x [RemoveConn] (broadcastLocked (stopTimersLocked (x\<lparr>tc_err := e, tc_state := stateClosed\<rparr>)))"
  "quiet_effect x [RemoveConn] (broadcastLocked (stopTimersLocked (x\<lparr>tc_state := stateClosed\<rparr>)))"
  by (simp_all add: quiet_effect_def give_up_def broadcastLocked_def stopTimersLocked_def snd_of_def rcv_of_def)

lemma give_up_effect:
  "give_up x = (c', effs) \<Longrightarrow> snd_of x = snd_of c \<Longrightarrow> rcv_of x = rcv_of c \<Longrightarrow> quiet_effect c effs c'"
  using closing_effects(1) [of x]
  by (auto simp: quiet_effect_def give_up_def broadcastLocked_def stopTimersLocked_def)

lemma backoff_frame:
  "backoff c = Some c' \<Longrightarrow> snd_of c' = snd_of c \<and> rcv_of c' = rcv_of c \<and> tc_state c' = tc_state c"
  by (auto simp: backoff_def Let_def snd_of_def rcv_of_def split: if_splits)

lemma sendPending_state: "tc_state (fst (sendPendingLocked b c)) = tc_state c"
  by (simp add: sendPendingLocked_def Let_def split: prod.split)

text \<open>The outcomes of the timer on a connection past the handshake.\<close>

lemma onRTO_shape:
  assumes res: "onRTOFired m c = (c', effs)" and st: "tc_state c \<noteq> stateSynRcvd"
  obtains (quiet) "quiet_effect c effs c'"
    | (data) k where "snd_of c' = snd_of c" "rcv_of c' = rcv_of c" "tc_state c' = tc_state c"
        "k \<le> unat (tc_sentBytes c)"
        "sent_of effs = [conn_segment c (tc_sndUna c) flagACK (advertisedWindowLocked c) (take k (tc_outBuf c))]"
    | (fin) "snd_of c' = snd_of c" "rcv_of c' = rcv_of c" "tc_state c' = tc_state c" "tc_finSent c"
        "sent_of effs = [conn_segment c (tc_finSeq c) (flagFIN OR flagACK) (advertisedWindowLocked c) []]"
    | (probe) p where "sendPendingLocked True (c\<lparr>tc_persistProbeCount := tc_persistProbeCount c + 1\<rparr>) = (p, sent_of effs)"
        "snd_of c' = snd_of p" "rcv_of c' = rcv_of p" "tc_state c' = tc_state c"
proof -
  let ?g = "c\<lparr>tc_retransmitCount := tc_retransmitCount c + 1\<rparr>"
  have up: "quiet_effect c effs c'" if "give_up ?g = (c', effs)"
    by (rule give_up_effect [OF that]) simp_all
  consider "tc_state c = stateClosed \<or> tc_inTimeWait c"
    | (d) "tc_state c \<noteq> stateClosed" "\<not> tc_inTimeWait c" "tc_sentBytes c > 0"
    | (f) "tc_state c \<noteq> stateClosed" "\<not> tc_inTimeWait c" "\<not> tc_sentBytes c > 0" "tc_finSent c \<and> \<not> tc_finAcked c"
    | (p) "tc_state c \<noteq> stateClosed" "\<not> tc_inTimeWait c" "\<not> tc_sentBytes c > 0" "\<not> (tc_finSent c \<and> \<not> tc_finAcked c)"
    by blast
  then show thesis
  proof cases
    case 1
    then have "quiet_effect c effs c'"
      using res closing_effects(3) [of c] by (auto simp: onRTOFired_def quiet_effect_def split: if_splits)
    then show thesis by (rule quiet)
  next
    case d
    let ?k = "if ucast (tc_sndMSS c) < tc_sentBytes c then ucast (tc_sndMSS c) else tc_sentBytes c"
    have k: "unat ?k \<le> unat (tc_sentBytes c)"
      by (simp add: word_less_nat_alt)
    show thesis
    proof (cases "backoff c")
      case None
      with d res st up show thesis
        by (intro quiet) (simp add: onRTOFired_def)
    next
      case (Some c1)
      with d res st k backoff_frame [OF Some] show thesis
        by (intro data [of "unat ?k"]) (auto simp: onRTOFired_def Let_def)
    qed
  next
    case f
    show thesis
    proof (cases "backoff c")
      case None
      with f res st up show thesis
        by (intro quiet) (simp add: onRTOFired_def)
    next
      case (Some c1)
      with f res st backoff_frame [OF Some] show thesis
        by (intro fin) (auto simp: onRTOFired_def)
    qed
  next
    case p
    let ?c = "c\<lparr>tc_persistProbeCount := tc_persistProbeCount c + 1\<rparr>"
    obtain q ps where q: "sendPendingLocked True ?c = (q, ps)"
      by fastforce
    have "tc_state q = tc_state c"
      using sendPending_state [of True ?c] q by simp
    then consider "quiet_effect c effs c'" | "c' = q\<lparr>tc_timer := Some (tc_rto q)\<rparr>" "sent_of effs = ps" "tc_state c' = tc_state c"
      using p res st q give_up_effect [of ?c c' effs c]
      by (auto simp: onRTOFired_def Let_def quiet_effect_def split: if_splits)
    then show thesis
      using quiet probe [of q] q by cases simp_all
  qed
qed

lemma timer_streams:
  assumes res: "timer_fires m c = (c', effs)" and st: "tc_state c \<noteq> stateSynRcvd"
  shows "tx_ok iss W c \<Longrightarrow> tx_step iss W c (sent_of effs) c'" and "rcv_of c' = rcv_of c"
    and "tc_state c' \<noteq> stateSynRcvd"
proof -
  let ?c = "c\<lparr>tc_timer := None\<rparr>"
  have f: "onRTOFired m ?c = (c', effs)" "tc_state ?c \<noteq> stateSynRcvd"
    using res st by (simp_all add: timer_fires_def)
  note shape = onRTO_shape [OF f]
  show "rcv_of c' = rcv_of c"
  proof (rule shape)
    fix p
    assume p: "sendPendingLocked True (?c\<lparr>tc_persistProbeCount := tc_persistProbeCount ?c + 1\<rparr>) = (p, sent_of effs)"
      "rcv_of c' = rcv_of p"
    have "rcv_of (fst (p, sent_of effs)) = rcv_of c"
      unfolding p(1) [symmetric] by simp
    with p(2) show ?thesis
      by simp
  qed (simp_all add: quiet_effect_def)
  show "tc_state c' \<noteq> stateSynRcvd"
    by (rule shape) (use st in \<open>auto simp: quiet_effect_def\<close>)
  show "tx_step iss W c (sent_of effs) c'" if tx: "tx_ok iss W c"
  proof -
    obtain a where a: "a \<le> length W" "tc_sndUna c = iss + 1 + of_nat a" "tc_outBuf c = drop a W"
      using tx by (auto simp: tx_ok_def)
    have txc: "tx_ok iss W ?c"
      using tx tx_ok_frame [of ?c c] by simp
    show ?thesis
    proof (rule shape)
      assume "quiet_effect ?c effs c'"
      then show ?thesis
        using tx by (intro tx_step_frame) (simp_all add: quiet_effect_def)
    next
      fix k
      assume k: "snd_of c' = snd_of ?c" "k \<le> unat (tc_sentBytes ?c)" and s: "sent_of effs =
        [conn_segment ?c (tc_sndUna ?c) flagACK (advertisedWindowLocked ?c) (take k (tc_outBuf ?c))]"
      have "k \<le> length (tc_outBuf c)"
        using k(2) tx by (simp add: tx_ok_def)
      from data_segment_piece [of a W ?c iss 0 k "tc_finSent c'"] a this
      have "seg_ok iss W (tc_finSent c') (conn_segment ?c (tc_sndUna ?c) flagACK (advertisedWindowLocked ?c)
          (take k (tc_outBuf ?c)))"
        by (simp add: slice_def)
      then show ?thesis
        using s tx_step_frame [of iss W c c' "[]"] tx k(1) by (simp add: tx_step_def)
    next
      assume k: "snd_of c' = snd_of ?c" "tc_finSent ?c" and s: "sent_of effs =
        [conn_segment ?c (tc_finSeq ?c) (flagFIN OR flagACK) (advertisedWindowLocked ?c) []]"
      have "tc_finSeq c = iss + 1 + of_nat (length W)"
        using tx k(2) by (simp add: tx_ok_def)
      then have "stream_piece iss W (tc_finSeq c) []"
        by (auto simp: stream_piece_def)
      moreover have "tc_finSent c'"
        using k by (simp add: snd_of_def)
      ultimately have "seg_ok iss W (tc_finSent c') (conn_segment ?c (tc_finSeq ?c) (flagFIN OR flagACK)
          (advertisedWindowLocked ?c) [])"
        using \<open>tc_finSeq c = iss + 1 + of_nat (length W)\<close>
        by (simp add: seg_ok_def valid_rx_def conn_segment_def)
      then show ?thesis
        using s tx_step_frame [of iss W c c' "[]"] tx k(1) by (simp add: tx_step_def)
    next
      fix p
      assume p: "sendPendingLocked True (?c\<lparr>tc_persistProbeCount := tc_persistProbeCount ?c + 1\<rparr>) = (p, sent_of effs)"
        "snd_of c' = snd_of p"
      have "tx_ok iss W (?c\<lparr>tc_persistProbeCount := tc_persistProbeCount ?c + 1\<rparr>)"
        using tx tx_ok_frame [of "?c\<lparr>tc_persistProbeCount := tc_persistProbeCount ?c + 1\<rparr>" c] by simp
      note q = sendPending_ok [OF this p(1)]
      have "tx_step iss W c (sent_of effs) p"
        using q by (simp add: tx_step_def)
      then show ?thesis
        using p(2) by (rule tx_step_after0)
    qed
  qed
qed

lemma stream_piece_extend: "stream_piece iss W q d \<Longrightarrow> stream_piece iss (W @ X) q d"
  unfolding stream_piece_def by (elim exE, rule_tac x = k in exI) (auto simp: take_append)

lemma seg_ok_extend: "seg_ok iss W False seg \<Longrightarrow> seg_ok iss (W @ X) fin seg"
  by (auto simp: seg_ok_def valid_rx_def intro: stream_piece_extend)

lemma seg_ok_mono: "seg_ok iss W fin seg \<Longrightarrow> (fin \<Longrightarrow> fin') \<Longrightarrow> seg_ok iss W fin' seg"
  by (auto simp: seg_ok_def)

lemma write_streams:
  assumes res: "Write_pass rest c = (r, n, c', effs)" and nf: "\<not> tc_finSent c"
  shows "tx_ok iss W c \<Longrightarrow> tx_step iss (W @ take n rest) c (sent_of effs) c'" and "rcv_of c' = rcv_of c"
    and "tc_state c' = tc_state c" and "n \<le> length rest"
proof -
  let ?n = "min (maxInFlightBytes - length (tc_outBuf c)) (length rest)"
  let ?c = "c\<lparr>tc_outBuf := tc_outBuf c @ take ?n rest\<rparr>"
  obtain p ps where p: "sendPendingLocked False ?c = (p, ps)"
    by fastforce
  consider (idle) "c' = c" "n = 0" "effs = []" | (more) "n = ?n" "c' = p" "sent_of effs = ps"
    using res p by (auto simp: Write_pass_def Let_def split: if_splits option.splits)
  note cases = this
  have "rcv_of p = rcv_of c" "tc_state p = tc_state c"
    using arg_cong [OF p, of "rcv_of \<circ> fst"] arg_cong [OF p, of "tc_state \<circ> fst"] by (simp_all add: sendPending_state)
  note pf = this
  show "rcv_of c' = rcv_of c"
    by (rule cases) (simp_all add: pf)
  show "tc_state c' = tc_state c"
    by (rule cases) (simp_all add: pf)
  show "n \<le> length rest"
    by (rule cases) simp_all
  show "tx_step iss (W @ take n rest) c (sent_of effs) c'" if tx: "tx_ok iss W c"
    using cases
  proof cases
    case idle
    with tx show ?thesis
      by (simp add: tx_step_frame)
  next
    case more
    obtain a where a: "a \<le> length W" "tc_sndUna c = iss + 1 + of_nat a" "tc_outBuf c = drop a W"
      using tx by (auto simp: tx_ok_def)
    have b: "unat (tc_sentBytes c) \<le> length (tc_outBuf c)" "length (tc_outBuf c) \<le> maxInFlightBytes"
      using tx by (simp_all add: tx_ok_def)
    have "tx_ok iss (W @ take ?n rest) ?c"
      using a b nf by (intro tx_okI [of a]) simp_all
    from sendPending_ok [OF this p] show ?thesis
      using more by (simp add: tx_step_def)
  qed
qed

lemma fin_streams:
  assumes res: "sendFINLocked c = (c', segs)" and tx: "tx_ok iss W c"
  shows "tx_ok iss W c'" and "list_all (seg_ok iss W True) segs" and "tc_finSent c'"
proof -
  obtain a where a: "a \<le> length W" "tc_sndUna c = iss + 1 + of_nat a" "tc_outBuf c = drop a W"
    using tx by (auto simp: tx_ok_def)
  have f: "tc_sndUna c + of_nat (length (tc_outBuf c)) = iss + 1 + of_nat (length W)"
  proof -
    have "(of_nat a :: u32) + of_nat (length W - a) = of_nat (length W)"
      using a(1) by (simp flip: of_nat_add)
    then show ?thesis
      using a by (simp add: add.assoc)
  qed
  show "tc_finSent c'"
    using res by (auto simp: sendFINLocked_def Let_def)
  have "unat (tc_sentBytes c') \<le> length (tc_outBuf c')" "length (tc_outBuf c') \<le> maxInFlightBytes"
    "tc_finSeq c' = iss + 1 + of_nat (length W)" "tc_sndUna c' = tc_sndUna c" "tc_outBuf c' = tc_outBuf c"
    using res tx f by (auto simp: sendFINLocked_def Let_def tx_ok_def)
  with a show "tx_ok iss W c'"
    by (intro tx_okI [of a]) simp_all
  have "stream_piece iss W (iss + 1 + of_nat (length W)) []"
    by (auto simp: stream_piece_def)
  then show "list_all (seg_ok iss W True) segs"
    using res f by (auto simp: sendFINLocked_def Let_def seg_ok_def valid_rx_def conn_segment_def)
qed

lemma closeWrite_streams:
  assumes res: "TCP_CloseWrite c = (c', effs)"
  shows "tx_ok iss W c \<Longrightarrow> tx_ok iss W c' \<and> list_all (seg_ok iss W (tc_finSent c')) (sent_of effs)"
    and "tc_finSent c \<Longrightarrow> tc_finSent c'" and "rcv_of c' = rcv_of c"
    and "tc_state c \<noteq> stateSynRcvd \<Longrightarrow> tc_state c' \<noteq> stateSynRcvd"
proof -
  obtain f fs where f: "sendFINLocked c = (f, fs)"
    by fastforce
  have fr: "rcv_of f = rcv_of c" "tc_finSent f"
    using f by (auto simp: sendFINLocked_def Let_def rcv_of_def)
  consider (none) "snd_of c' = snd_of c" "rcv_of c' = rcv_of c" "sent_of effs = []" "tc_state c' = tc_state c"
    | (fin) "snd_of c' = snd_of f" "rcv_of c' = rcv_of f" "sent_of effs = fs"
        "tc_state c' \<in> {stateFinWait1, stateLastAck}"
    using res f
    by (cases "tc_state c") (auto simp: TCP_CloseWrite_def Let_def broadcastLocked_def snd_of_def rcv_of_def split: if_splits)
  note cases = this
  show "rcv_of c' = rcv_of c"
    using cases fr by cases simp_all
  show "tc_state c' \<noteq> stateSynRcvd" if "tc_state c \<noteq> stateSynRcvd"
    using cases that by cases auto
  show "tc_finSent c'" if "tc_finSent c"
    using cases that fr by cases (simp_all add: snd_of_def)
  show "tx_ok iss W c' \<and> list_all (seg_ok iss W (tc_finSent c')) (sent_of effs)" if tx: "tx_ok iss W c"
    using cases
  proof cases
    case none
    with tx tx_ok_frame [OF none(1)] show ?thesis by simp
  next
    case fin
    with tx_ok_frame [OF fin(1)] fin_streams [OF f tx] show ?thesis
      by (simp add: snd_of_def)
  qed
qed

lemma close_streams:
  assumes res: "TCP_Close c = (c', effs)" and st: "tc_state c \<noteq> stateSynRcvd"
  shows "TCP_CloseWrite c = (c', effs)"
  using assms by (simp add: TCP_Close_def)

lemma detach_streams:
  "onAttachmentDetached c = (c', effs) \<Longrightarrow> quiet_effect c effs c'"
  "tcp_abort c = (c', effs) \<Longrightarrow> quiet_effect c effs c'"
  using closing_effects(2) [of c "Some ErrTCPConnReset"] give_up_effect [of c c' effs c]
  by (auto simp: onAttachmentDetached_def tcp_abort_def quiet_effect_def split: if_splits)

section \<open>Runs of a connection\<close>

text \<open>
  The history of a connection from the end of its handshake: the segments received, the
  bytes written and read, the segments sent. Writes stop with the FIN, as they do unless
  \<open>CloseWrite\<close> is called while another call of \<open>Write\<close> is blocked.
\<close>

inductive tcp_run :: "u32 \<Rightarrow> u32 \<Rightarrow> tcpSegment list \<Rightarrow> bytes \<Rightarrow> bytes \<Rightarrow> tcpSegment list \<Rightarrow> tcpConn \<Rightarrow> bool"
  for iss isn where
  tr_established: "handleSegment seg (newTCPConn l a key iss isn w mss) = (c, effs) \<Longrightarrow>
    tc_state c = stateEstablished \<Longrightarrow> tcp_run iss isn [seg] [] [] (sent_of effs) c"
| tr_segment: "tcp_run iss isn rcvd W got sent c \<Longrightarrow> handleSegment seg c = (c', effs) \<Longrightarrow>
    tcp_run iss isn (rcvd @ [seg]) W got (sent @ sent_of effs) c'"
| tr_timer: "tcp_run iss isn rcvd W got sent c \<Longrightarrow> timer_fires m c = (c', effs) \<Longrightarrow>
    tcp_run iss isn rcvd W got (sent @ sent_of effs) c'"
| tr_read: "tcp_run iss isn rcvd W got sent c \<Longrightarrow> Read_iter n c = (TRead b, c') \<Longrightarrow>
    tcp_run iss isn rcvd W (got @ b) sent c'"
| tr_write: "tcp_run iss isn rcvd W got sent c \<Longrightarrow> \<not> tc_finSent c \<Longrightarrow>
    Write_pass rest c = (r, n, c', effs) \<Longrightarrow>
    tcp_run iss isn rcvd (W @ take n rest) got (sent @ sent_of effs) c'"
| tr_closeWrite: "tcp_run iss isn rcvd W got sent c \<Longrightarrow> TCP_CloseWrite c = (c', effs) \<Longrightarrow>
    tcp_run iss isn rcvd W got (sent @ sent_of effs) c'"
| tr_close: "tcp_run iss isn rcvd W got sent c \<Longrightarrow> TCP_Close c = (c', effs) \<Longrightarrow>
    tcp_run iss isn rcvd W got (sent @ sent_of effs) c'"
| tr_abort: "tcp_run iss isn rcvd W got sent c \<Longrightarrow> tcp_abort c = (c', effs) \<Longrightarrow>
    tcp_run iss isn rcvd W got (sent @ sent_of effs) c'"
| tr_detach: "tcp_run iss isn rcvd W got sent c \<Longrightarrow> onAttachmentDetached c = (c', effs) \<Longrightarrow>
    tcp_run iss isn rcvd W got (sent @ sent_of effs) c'"
| tr_other: "tcp_run iss isn rcvd W got sent c \<Longrightarrow>
    tcp_run iss isn rcvd W got sent (c\<lparr>tc_readDeadline := rd, tc_writeDeadline := wd,
      tc_halfOpenCounted := h, tc_halfOpenIP := ip, tc_liveCounted := lv\<rparr>)"

definition tx_inv :: "u32 \<Rightarrow> bytes \<Rightarrow> tcpSegment list \<Rightarrow> tcpConn \<Rightarrow> bool" where
  "tx_inv iss W sent c \<longleftrightarrow> tx_ok iss W c \<and> list_all (seg_ok iss W (tc_finSent c)) sent
     \<and> tc_state c \<noteq> stateSynRcvd"

lemma tx_inv_step:
  assumes "tx_inv iss W sent c" and "tx_step iss W c segs c'" and "tc_state c' \<noteq> stateSynRcvd"
  shows "tx_inv iss W (sent @ segs) c'"
  using assms unfolding tx_inv_def tx_step_def by (elim conjE) (simp only: list_all_append simp_thms)

lemma tx_inv_quiet:
  assumes "tx_inv iss W sent c" and "quiet_effect c effs c'"
  shows "tx_inv iss W (sent @ sent_of effs) c'"
proof (rule tx_inv_step [OF assms(1)])
  show "tx_step iss W c (sent_of effs) c'"
    using assms by (intro tx_step_frame) (simp_all add: tx_inv_def quiet_effect_def)
  show "tc_state c' \<noteq> stateSynRcvd"
    using assms by (auto simp: tx_inv_def quiet_effect_def)
qed

lemma handleAck_state: "tc_state (fst (handleAckLocked seg c)) = tc_state c"
  by (simp add: handleAckLocked_def Let_def sendPending_state retire_acked_def note_fin_acked_def
      broadcastLocked_def)

lemma drain_state: "tc_state (drain_reorder c) = tc_state c"
proof (induction c rule: drain_reorder.induct)
  case (1 c)
  then show ?case
    by (subst drain_reorder.simps) (auto split: option.split)
qed

lemma data_state:
  assumes "handleEstablishedDataLocked seg c = (c', segs, fin, dropped)"
  shows "tc_state c' = tc_state c"
proof -
  have a: "tc_state (fst (admit_payload seg c)) = tc_state c"
    by (simp add: admit_payload_def Let_def)
  have t: "tc_state (fst (take_fin seg x)) = tc_state x" for x
    by (simp add: take_fin_def)
  obtain c1 full where c1: "admit_payload seg c = (c1, full)" by fastforce
  obtain c2 b where c2: "take_fin seg (drain_reorder c1) = (c2, b)" by fastforce
  have "tc_state c2 = tc_state c" "tc_state c1 = tc_state c"
    using a t [of "drain_reorder c1"] c1 c2 by (simp_all add: drain_state)
  then show ?thesis
    using assms c1 c2
    by (auto simp: handleEstablishedDataLocked_def handle_in_order_def handle_out_of_order_def Let_def
        broadcastLocked_def split: if_splits)
qed

lemma ack_and_data_state:
  assumes "ack_and_data seg c = (c', segs, fin, dropped)"
  shows "tc_state c' = tc_state c"
proof -
  obtain c1 s1 where a: "handleAckLocked seg c = (c1, s1)"
    by fastforce
  obtain s2 where "handleEstablishedDataLocked seg c1 = (c', s2, fin, dropped)"
    using assms a by (auto simp: ack_and_data_def split: prod.splits)
  then show ?thesis
    using handleAck_state [of seg c] a by (simp add: data_state)
qed

lemma handleSegment_state:
  assumes "handleSegment seg c = (c', effs)" and "tc_state c \<noteq> stateSynRcvd"
  shows "tc_state c' \<noteq> stateSynRcvd"
proof -
  obtain a sa fin dr where ad: "ack_and_data seg c = (a, sa, fin, dr)"
    by (rule prod_cases4)
  obtain b sb where ack: "handleAckLocked seg c = (b, sb)"
    by fastforce
  have "tc_state a = tc_state c" "tc_state b = tc_state c"
    using ack_and_data_state [OF ad] handleAck_state [of seg c] ack by simp_all
  then show ?thesis
    using assms ad ack
    by (cases "tc_state c") (auto simp: handleSegment_def Let_def broadcastLocked_def stopTimersLocked_def
        startTimeWaitLocked_def split: if_splits)
qed

lemma tcp_run_tx: "tcp_run iss isn rcvd W got sent c \<Longrightarrow> tx_inv iss W sent c"
proof (induction rule: tcp_run.induct)
  case (tr_established seg l a key w mss c effs)
  from handshake_streams(1) [OF this] this(2) show ?case
    by (simp add: tx_inv_def tx_step_def)
next
  case (tr_segment rcvd W got sent c seg c' effs)
  then have "tx_ok iss W c" "tc_state c \<noteq> stateSynRcvd"
    by (simp_all add: tx_inv_def)
  with handleSegment_streams(1) [OF tr_segment.hyps(2)] handleSegment_state [OF tr_segment.hyps(2)]
    tx_inv_step [OF tr_segment.IH] show ?case
    by blast
next
  case (tr_timer rcvd W got sent c m c' effs)
  then have "tx_ok iss W c" "tc_state c \<noteq> stateSynRcvd"
    by (simp_all add: tx_inv_def)
  with timer_streams(1,3) [OF tr_timer.hyps(2)] tx_inv_step [OF tr_timer.IH] show ?case
    by blast
next
  case (tr_read rcvd W got sent c n b c')
  then have "snd_of c' = snd_of c" "tc_state c' = tc_state c"
    by (auto simp: Read_iter_def snd_of_def split: if_splits option.splits)
  with tr_read.IH tx_ok_frame [of c' c] show ?case
    by (simp add: tx_inv_def snd_of_def)
next
  case (tr_write rcvd W got sent c rest r n c' effs)
  then have tx: "tx_ok iss W c" "tc_state c \<noteq> stateSynRcvd" "list_all (seg_ok iss W False) sent"
    by (simp_all add: tx_inv_def)
  note w = write_streams [OF tr_write.hyps(3,2)]
  have "tx_ok iss (W @ take n rest) c'"
    "list_all (seg_ok iss (W @ take n rest) (tc_finSent c')) (sent_of effs)"
    using w(1) [OF tx(1)] unfolding tx_step_def by blast+
  moreover have "list_all (seg_ok iss (W @ take n rest) (tc_finSent c')) sent"
    using tx(3) by (auto simp: list_all_iff intro: seg_ok_extend)
  ultimately show ?case
    using w(3) tx(2) by (simp add: tx_inv_def)
next
  case (tr_closeWrite rcvd W got sent c c' effs)
  note cw = closeWrite_streams [OF tr_closeWrite.hyps(2)]
  have "list_all (seg_ok iss W (tc_finSent c')) sent"
    using tr_closeWrite.IH cw(2) by (auto simp: tx_inv_def list_all_iff intro: seg_ok_mono)
  with cw(1) [of iss W] cw(4) tr_closeWrite.IH show ?case
    by (simp add: tx_inv_def)
next
  case (tr_close rcvd W got sent c c' effs)
  then have "tc_state c \<noteq> stateSynRcvd"
    by (simp add: tx_inv_def)
  note cw = closeWrite_streams [OF close_streams [OF tr_close.hyps(2) this]]
  have "list_all (seg_ok iss W (tc_finSent c')) sent"
    using tr_close.IH cw(2) by (auto simp: tx_inv_def list_all_iff intro: seg_ok_mono)
  with cw(1) [of iss W] cw(4) tr_close.IH show ?case
    by (simp add: tx_inv_def)
next
  case (tr_abort rcvd W got sent c c' effs)
  then show ?case by (blast intro: tx_inv_quiet detach_streams)
next
  case (tr_detach rcvd W got sent c c' effs)
  then show ?case by (blast intro: tx_inv_quiet detach_streams)
next
  case (tr_other rcvd W got sent c rd wd h ip lv)
  then show ?case by (simp add: tx_inv_def tx_ok_def)
qed

lemma tcp_run_rx:
  assumes "tcp_run iss isn rcvd W got sent c" and "list_all (valid_rx isn S) rcvd" and "length S < 2147483647"
  shows "rx_ok isn S got c"
  using assms(1,2)
proof (induction rule: tcp_run.induct)
  case (tr_established seg l a key w mss c effs)
  with handshake_streams(3) [OF tr_established.hyps assms(3)] show ?case by simp
next
  case (tr_segment rcvd W got sent c seg c' effs)
  have "tc_state c \<noteq> stateSynRcvd"
    using tcp_run_tx [OF tr_segment.hyps(1)] by (simp add: tx_inv_def)
  with handleSegment_streams(2) [OF tr_segment.hyps(2) _ _ assms(3)] tr_segment.IH tr_segment.prems show ?case
    by simp
next
  case (tr_timer rcvd W got sent c m c' effs)
  have "tc_state c \<noteq> stateSynRcvd"
    using tcp_run_tx [OF tr_timer.hyps(1)] by (simp add: tx_inv_def)
  with timer_streams(2) [OF tr_timer.hyps(2)] rx_ok_frame [of c' c] tr_timer.IH tr_timer.prems show ?case
    by simp
next
  case (tr_read rcvd W got sent c n b c')
  then have r: "b = take n (tc_recvBuf c)" "c' = c\<lparr>tc_recvBuf := drop n (tc_recvBuf c)\<rparr>"
    by (auto simp: Read_iter_def split: if_splits option.splits)
  have app: "(got @ take n (tc_recvBuf c)) @ drop n (tc_recvBuf c) = got @ tc_recvBuf c"
    by simp
  have "rx_ok isn S got c"
    using tr_read.IH tr_read.prems by simp
  then have "rx_at isn S (got @ tc_recvBuf c) c'"
    unfolding rx_ok_at r rx_at_recvBuf .
  then show ?case
    unfolding rx_ok_at using r app by (simp del: append_assoc)
next
  case (tr_write rcvd W got sent c rest r n c' effs)
  with write_streams(2) [OF tr_write.hyps(3,2)] rx_ok_frame [of c' c] show ?case by simp
next
  case (tr_closeWrite rcvd W got sent c c' effs)
  with closeWrite_streams(3) [OF tr_closeWrite.hyps(2)] rx_ok_frame [of c' c] show ?case by simp
next
  case (tr_close rcvd W got sent c c' effs)
  have "tc_state c \<noteq> stateSynRcvd"
    using tcp_run_tx [OF tr_close.hyps(1)] by (simp add: tx_inv_def)
  from closeWrite_streams(3) [OF close_streams [OF tr_close.hyps(2) this]] rx_ok_frame [of c' c]
    tr_close.IH tr_close.prems show ?case by simp
next
  case (tr_abort rcvd W got sent c c' effs)
  with detach_streams(2) [OF tr_abort.hyps(2)] rx_ok_frame [of c' c] show ?case
    by (simp add: quiet_effect_def)
next
  case (tr_detach rcvd W got sent c c' effs)
  with detach_streams(1) [OF tr_detach.hyps(2)] rx_ok_frame [of c' c] show ?case
    by (simp add: quiet_effect_def)
next
  case (tr_other rcvd W got sent c rd wd h ip lv)
  then show ?case by (simp add: rx_ok_def)
qed

section \<open>The connection's error\<close>

lemma drain_err: "tc_err (drain_reorder c) = tc_err c"
proof (induction c rule: drain_reorder.induct)
  case (1 c)
  then show ?case
    by (subst drain_reorder.simps) (auto split: option.split)
qed

lemma sendPending_err: "tc_err (fst (sendPendingLocked b c)) = tc_err c"
  by (auto simp: sendPendingLocked_def Let_def split: prod.splits)

lemma ack_err: "tc_err (fst (handleAckLocked seg c)) = tc_err c"
  by (simp add: handleAckLocked_def Let_def sendPending_err retire_acked_def note_fin_acked_def
      broadcastLocked_def)

lemma data_err:
  assumes "handleEstablishedDataLocked seg c = (c', segs, fin, dropped)"
  shows "tc_err c' = tc_err c"
proof -
  obtain c1 full where c1: "admit_payload seg c = (c1, full)" by fastforce
  obtain c2 b where c2: "take_fin seg (drain_reorder c1) = (c2, b)" by fastforce
  have "tc_err (fst (admit_payload seg c)) = tc_err c" "tc_err (fst (take_fin seg x)) = tc_err x" for x
    by (simp_all add: admit_payload_def take_fin_def Let_def)
  then have "tc_err c2 = tc_err c" "tc_err c1 = tc_err c"
    using c1 c2 drain_err [of c1] by (metis fst_conv)+
  then show ?thesis
    using assms c1 c2
    by (auto simp: handleEstablishedDataLocked_def handle_in_order_def handle_out_of_order_def Let_def
        broadcastLocked_def split: if_splits)
qed

lemma ack_and_data_err:
  assumes "ack_and_data seg c = (c', segs, fin, dropped)"
  shows "tc_err c' = tc_err c"
proof -
  obtain c1 s1 where a: "handleAckLocked seg c = (c1, s1)"
    by fastforce
  obtain s2 where "handleEstablishedDataLocked seg c1 = (c', s2, fin, dropped)"
    using assms a by (auto simp: ack_and_data_def split: prod.splits)
  from data_err [OF this] ack_err [of seg c] a show ?thesis by simp
qed

lemma handleSegment_err:
  assumes "handleSegment seg c = (c', effs)"
  shows "tc_err c' \<in> {tc_err c, Some ErrTCPConnReset}"
proof -
  obtain c1 s1 where a: "handleAckLocked seg c = (c1, s1)"
    by fastforce
  obtain c2 s2 f2 d2 where d: "ack_and_data seg c = (c2, s2, f2, d2)"
    by (rule prod_cases4)
  define h where "h = c\<lparr>tc_sndUna := sg_ack seg, tc_state := stateEstablished, tc_timer := None,
                          tc_timerArmed := False\<rparr>"
  obtain c3 s3 f3 d3 where e: "handleEstablishedDataLocked seg h = (c3, s3, f3, d3)"
    by (rule prod_cases4)
  have "tc_err c1 = tc_err c" "tc_err c2 = tc_err c" "tc_err c3 = tc_err c"
    using ack_err [of seg c] a ack_and_data_err [OF d] data_err [OF e] by (simp_all add: h_def)
  then show ?thesis
    using assms a d e unfolding handleSegment_def h_def [symmetric]
    by (auto simp: broadcastLocked_def stopTimersLocked_def startTimeWaitLocked_def Let_def
        split: if_splits tcpState.splits)
qed

lemma closeWrite_err: "TCP_CloseWrite c = (c', effs) \<Longrightarrow> tc_err c' = tc_err c"
  by (auto simp: TCP_CloseWrite_def sendFINLocked_def broadcastLocked_def Let_def split: if_splits tcpState.splits)

lemma timer_err: "timer_fires m c = (c', effs) \<Longrightarrow> tc_err c' \<in> {tc_err c, Some ErrTCPConnReset}"
  using sendPending_err [of True "c\<lparr>tc_timer := None, tc_persistProbeCount := Suc (tc_persistProbeCount c)\<rparr>"]
  by (auto simp: timer_fires_def onRTOFired_def backoff_def give_up_def broadcastLocked_def stopTimersLocked_def
      Let_def split: if_splits option.splits prod.splits)

lemma tcp_run_err: "tcp_run iss isn rcvd W got sent c \<Longrightarrow> tc_err c \<noteq> Some TCPErrEOF"
proof (induction rule: tcp_run.induct)
  case (tr_established seg l a key w mss c effs)
  from handleSegment_err [OF this(1)] show ?case
    by (auto simp: newTCPConn_def)
next
  case (tr_segment rcvd W got sent c seg c' effs)
  from handleSegment_err [OF this(2)] this(3) show ?case by auto
next
  case (tr_timer rcvd W got sent c m c' effs)
  from timer_err [OF this(2)] this(3) show ?case by auto
next
  case (tr_read rcvd W got sent c n b c')
  then show ?case by (auto simp: Read_iter_def split: if_splits option.splits)
next
  case (tr_write rcvd W got sent c rest r n c' effs)
  have "tc_err c' = tc_err c"
    using tr_write.hyps(3) sendPending_err [of False "c\<lparr>tc_outBuf := x\<rparr>" for x]
    by (auto simp: Write_pass_def Let_def split: if_splits option.splits prod.splits) (metis fst_conv)
  with tr_write.IH show ?case by simp
next
  case (tr_closeWrite rcvd W got sent c c' effs)
  with closeWrite_err [OF tr_closeWrite.hyps(2)] show ?case by simp
next
  case (tr_close rcvd W got sent c c' effs)
  then show ?case
    using closeWrite_err [of c c' effs]
    by (auto simp: TCP_Close_def broadcastLocked_def stopTimersLocked_def split: if_splits)
next
  case (tr_abort rcvd W got sent c c' effs)
  then show ?case
    by (auto simp: tcp_abort_def give_up_def broadcastLocked_def stopTimersLocked_def split: if_splits)
next
  case (tr_detach rcvd W got sent c c' effs)
  then show ?case
    by (auto simp: onAttachmentDetached_def broadcastLocked_def stopTimersLocked_def split: if_splits)
qed simp

section \<open>Both ends of a connection\<close>

definition demo_key :: fourTuple where
  "demo_key = \<lparr>ft_remoteIP = 0x0A080002, ft_remotePort = 40000, ft_localPort = 80\<rparr>"

definition demo_seg :: "u32 \<Rightarrow> u32 \<Rightarrow> u8 \<Rightarrow> bytes \<Rightarrow> tcpSegment" where
  "demo_seg q a fl d = \<lparr>sg_srcPort = 40000, sg_dstPort = 80, sg_seq = q, sg_ack = a, sg_flags = fl,
     sg_window = 65535, sg_hasMSS = False, sg_mss = 0, sg_payload = d\<rparr>"

definition demo_est :: "u32 \<Rightarrow> u32 \<Rightarrow> tcpConn" where
  "demo_est iss isn = (newTCPConn 0 0 demo_key iss isn 65535 1460)
     \<lparr>tc_sndUna := iss + 1, tc_state := stateEstablished, tc_timer := None, tc_timerArmed := False, tc_notify := 1\<rparr>"

lemmas tcp_eval = handleSegment_def handleEstablishedDataLocked_def handle_in_order_def handle_out_of_order_def
  ack_and_data_def handleAckLocked_def retire_acked_def note_fin_acked_def sendPendingLocked_def send_loop.simps
  send_chunk_def admit_payload_def drain_reorder.simps take_fin_def broadcastLocked_def stopTimersLocked_def
  startTimeWaitLocked_def drop_count_def send_effect_def buildACKLocked_def conn_segment_def
  advertisedWindowLocked_def recvWindowRemainingLocked_def reorder_bytes_def reorder_delete_def
  allowedInFlightLocked_def seqGT_def seqGE_def has_flag_def Let_def govpn_consts slice_def tcp_flags

lemma demo_established:
  "handleSegment (demo_seg (isn + 1) (iss + 1) flagACK []) (newTCPConn 0 0 demo_key iss isn 65535 1460)
    = (demo_est iss isn, [ReleaseHalfOpen, EnqueueListener])"
  by (simp add: tcp_eval demo_seg_def demo_est_def newTCPConn_def)

lemma demo_run: "tcp_run iss isn [demo_seg (isn + 1) (iss + 1) flagACK []] [] [] [] (demo_est iss isn)"
  using tr_established [OF demo_established] by (simp add: demo_est_def)

definition demo_wrote :: tcpConn where
  "demo_wrote = (demo_est 200 100)\<lparr>tc_outBuf := [1, 2, 3], tc_sentBytes := 3, tc_timer := Some initialRTO,
     tc_timerArmed := True\<rparr>"

lemma demo_write: "Write_pass [1, 2, 3] (demo_est 200 100) = (TWriteMore, 3, demo_wrote,
   [SendSegments [(demo_seg 201 101 flagACK [1, 2, 3])\<lparr>sg_srcPort := 80, sg_dstPort := 40000\<rparr>]])"
  by (simp add: tcp_eval Write_pass_def demo_est_def demo_wrote_def demo_seg_def demo_key_def newTCPConn_def
    dl_due_def newDeadlineTimer_def)

definition demo_closed :: tcpConn where
  "demo_closed = demo_wrote\<lparr>tc_finSent := True, tc_finSeq := 204, tc_state := stateFinWait1,
     tc_closeWriteDone := True, tc_notify := 2\<rparr>"

lemma demo_close: "TCP_CloseWrite demo_wrote = (demo_closed,
   [SendSegments [(demo_seg 204 101 (flagFIN OR flagACK) [])\<lparr>sg_srcPort := 80, sg_dstPort := 40000\<rparr>]])"
  by (simp add: tcp_eval TCP_CloseWrite_def sendFINLocked_def demo_est_def demo_wrote_def demo_closed_def demo_seg_def demo_key_def newTCPConn_def)

definition demo_data_seg :: tcpSegment where
  "demo_data_seg = (demo_seg 201 101 flagACK [1, 2, 3])\<lparr>sg_srcPort := 80, sg_dstPort := 40000\<rparr>"

definition demo_fin_seg :: tcpSegment where
  "demo_fin_seg = (demo_seg 204 101 (flagFIN OR flagACK) [])\<lparr>sg_srcPort := 80, sg_dstPort := 40000\<rparr>"

lemma demo_sender:
  "tcp_run 200 100 [demo_seg 101 201 flagACK []] [1, 2, 3] [] [demo_data_seg, demo_fin_seg] demo_closed"
proof -
  have "tcp_run 200 100 [demo_seg 101 201 flagACK []] [1, 2, 3] []
     [demo_data_seg] demo_wrote"
    using tr_write [OF demo_run [of 200 100] _ demo_write] by (simp add: demo_est_def newTCPConn_def demo_data_seg_def)
  from tr_closeWrite [OF this demo_close] show ?thesis
    by (simp add: demo_fin_seg_def)
qed

text \<open>
  The receiving end gets the FIN first, then the data, and reads.
\<close>

definition demo_early :: tcpConn where
  "demo_early = (demo_est 100 200)\<lparr>tc_reorder := [(204, [])], tc_hasPendingFIN := True,
     tc_pendingFINSeq := 204, tc_notify := 2\<rparr>"

lemma demo_fin_first: "handleSegment demo_fin_seg (demo_est 100 200)
  = (demo_early, [SendSegments [(demo_seg 101 201 flagACK [])\<lparr>sg_srcPort := 80, sg_dstPort := 40000\<rparr>]])"
  by (simp add: tcp_eval demo_early_def demo_est_def demo_fin_seg_def demo_seg_def demo_key_def newTCPConn_def)

definition demo_full :: tcpConn where
  "demo_full = (demo_est 100 200)\<lparr>tc_rcvNxt := 205, tc_recvBuf := [1, 2, 3], tc_peerClosed := True,
     tc_pendingFINSeq := 204, tc_state := stateCloseWait, tc_notify := 4\<rparr>"

lemma demo_data_next: "handleSegment demo_data_seg demo_early
  = (demo_full, [SendSegments [(demo_seg 101 205 flagACK [])
       \<lparr>sg_srcPort := 80, sg_dstPort := 40000, sg_window := 65532\<rparr>]])"
  by (simp add: tcp_eval demo_early_def demo_full_def demo_est_def demo_data_seg_def demo_seg_def demo_key_def
      newTCPConn_def)

lemma demo_receiver:
  "\<exists>sent. tcp_run 100 200 [demo_seg 201 101 flagACK [], demo_fin_seg, demo_data_seg] [] [1, 2, 3] sent
     (demo_full\<lparr>tc_recvBuf := []\<rparr>)"
proof -
  have "Read_iter 10 demo_full = (TRead [1, 2, 3], demo_full\<lparr>tc_recvBuf := []\<rparr>)"
    by (simp add: Read_iter_def demo_full_def demo_est_def newTCPConn_def dl_due_def newDeadlineTimer_def)
  from tr_read [OF tr_segment [OF tr_segment [OF demo_run [of 100 200] demo_fin_first] demo_data_next] this]
  show ?thesis by auto
qed

section \<open>End to end\<close>

text \<open>
  C19. Two connections of the stack on a network that loses, repeats and reorders segments
  and may also deliver bare acknowledgements: whatever the histories of the two ends (any
  segments, timers, reads, writes, closes and resets in any order), the bytes one end has
  read are the first bytes the other end's application has written, in order and without
  gaps, and when \<^verbatim>\<open>Read\<close> reports the end of the stream they are all of them. Writes are the
  ones that start while the FIN has not been sent; a stream is shorter than two gigabytes.
\<close>

theorem tcp_stream_end_to_end:
  assumes reader: "tcp_run issA issB rcvdA WA gotA sentA ca"
    and writer: "tcp_run issB issA rcvdB WB gotB sentB cb"
    and net: "list_all (\<lambda>seg. seg \<in> set sentB \<or> sg_payload seg = [] \<and> \<not> has_flag flagFIN seg) rcvdA"
    and len: "length WB < 2147483647"
  shows "take (length gotA) WB = gotA
    \<and> (fst (Read_iter n ca) = TReadErr TCPErrEOF \<longrightarrow> gotA = WB)"
proof -
  have "list_all (valid_rx issB WB) sentB"
    using tcp_run_tx [OF writer] by (auto simp: tx_inv_def list_all_iff seg_ok_def)
  then have "list_all (valid_rx issB WB) rcvdA"
    using net by (auto simp: list_all_iff valid_rx_def)
  from tcp_run_rx [OF reader this len] have rx: "rx_ok issB WB gotA ca" .
  then have "take (length gotA) (gotA @ tc_recvBuf ca) = take (length gotA) (take (length gotA + length (tc_recvBuf ca)) WB)"
    unfolding rx_ok_def by (elim conjE) (rule arg_cong)
  then have pre: "take (length gotA) WB = gotA"
    by (simp add: min_def)
  moreover have "gotA = WB" if "fst (Read_iter n ca) = TReadErr TCPErrEOF"
  proof -
    have "tc_recvBuf ca = []" "tc_peerClosed ca"
      using that tcp_run_err [OF reader] by (auto simp: Read_iter_def split: if_splits option.splits)
    then have "length gotA = length WB"
      using rx by (simp add: rx_ok_def)
    then show ?thesis
      using pre by simp
  qed
  ultimately show ?thesis by blast
qed

theorem tcp_stream_end_to_end_witness:
  "\<exists>sent. tcp_run 100 200 [demo_seg 201 101 flagACK [], demo_fin_seg, demo_data_seg] [] [1, 2, 3] sent
     (demo_full\<lparr>tc_recvBuf := []\<rparr>)
   \<and> take (length [1 :: u8, 2, 3]) [1 :: u8, 2, 3] = [1, 2, 3]
   \<and> fst (Read_iter 10 (demo_full\<lparr>tc_recvBuf := []\<rparr>)) = TReadErr TCPErrEOF"
proof -
  obtain sent where run: "tcp_run 100 200 [demo_seg 201 101 flagACK [], demo_fin_seg, demo_data_seg] []
      [1, 2, 3] sent (demo_full\<lparr>tc_recvBuf := []\<rparr>)"
    using demo_receiver by blast
  have "fst (Read_iter 10 (demo_full\<lparr>tc_recvBuf := []\<rparr>)) = TReadErr TCPErrEOF"
    by (simp add: Read_iter_def demo_full_def demo_est_def newTCPConn_def dl_due_def newDeadlineTimer_def)
  with run tcp_stream_end_to_end [OF run demo_sender, of 10] show ?thesis
    by (auto simp: demo_seg_def has_flag_def tcp_flags)
qed

end
