(* ===== verification/Tcp_Limits.thy ===== *)
theory Tcp_Limits
  imports Tcp_Stream
begin

text \<open>
  The bounds of a TCP connection and the ends it can come to: buffers and windows, the
  retransmission budget, resets, and the histories in which the state machine of the code
  does not do what its comments say.
\<close>

section \<open>The receive window\<close>

definition held_bytes :: "tcpConn \<Rightarrow> nat" where
  "held_bytes c = length (tc_recvBuf c) + sum_list (map (\<lambda>e. length (snd e)) (tc_reorder c))"

definition rcv_bounded :: "tcpConn \<Rightarrow> bool" where
  "rcv_bounded c \<longleftrightarrow> held_bytes c \<le> 65535 \<and> length (tc_reorder c) \<le> maxReorderSegments
     \<and> distinct (map fst (tc_reorder c))"

lemma rcv_bounded_frame: "rcv_of c' = rcv_of c \<Longrightarrow> rcv_bounded c' = rcv_bounded c"
  by (simp add: rcv_of_def rcv_bounded_def held_bytes_def)

lemma reorder_bytes_sum: "reorder_bytes m = of_nat (sum_list (map (\<lambda>e. length (snd e)) m))"
  by (induction m) (auto simp: reorder_bytes_def)

lemma window_remaining:
  assumes "held_bytes c \<le> 65535"
  shows "unat (recvWindowRemainingLocked c) = 65535 - held_bytes c"
proof -
  let ?u = "of_nat (held_bytes c) :: u32"
  have u: "unat ?u = held_bytes c"
    using assms by (simp add: unsigned_of_nat take_bit_eq_mod)
  have used: "of_nat (length (tc_recvBuf c)) + reorder_bytes (tc_reorder c) = ?u"
    by (simp add: reorder_bytes_sum held_bytes_def)
  show ?thesis
  proof (cases "?u \<ge> 65535")
    case True
    then have "held_bytes c = 65535"
      using assms u by (simp add: word_le_nat_alt)
    with True show ?thesis
      unfolding recvWindowRemainingLocked_def Let_def used by (simp add: govpn_consts)
  next
    case False
    then have "unat (65535 - ?u) = unat (65535 :: u32) - unat ?u"
      by (intro unat_sub) simp
    with False u show ?thesis
      unfolding recvWindowRemainingLocked_def Let_def used by (simp add: govpn_consts)
  qed
qed

lemma sum_delete:
  "(q, d) \<in> set m \<Longrightarrow> sum_list (map (\<lambda>e. length (snd e)) (reorder_delete q m)) + length d
     \<le> sum_list (map (\<lambda>e. length (snd e)) m)"
proof (induction m)
  case (Cons e m)
  have le: "sum_list (map (\<lambda>e. length (snd e)) (reorder_delete q m)) \<le> sum_list (map (\<lambda>e. length (snd e)) m)"
    unfolding reorder_delete_def by (induction m) auto
  show ?case
  proof (cases "(q, d) \<in> set m")
    case True
    with Cons.IH show ?thesis
      by (auto simp: reorder_delete_def)
  next
    case False
    with Cons.prems le show ?thesis
      by (auto simp: reorder_delete_def)
  qed
qed simp

lemma drain_bounded: "rcv_bounded c \<Longrightarrow> rcv_bounded (drain_reorder c)"
proof (induction c rule: drain_reorder.induct)
  case (1 c)
  show ?case
  proof (cases "map_of (tc_reorder c) (tc_rcvNxt c)")
    case None
    with 1 show ?thesis
      by (subst drain_reorder.simps) simp
  next
    case (Some d)
    let ?c = "c\<lparr>tc_reorder := reorder_delete (tc_rcvNxt c) (tc_reorder c),
        tc_recvBuf := tc_recvBuf c @ d, tc_rcvNxt := tc_rcvNxt c + of_nat (length d)\<rparr>"
    have "held_bytes ?c \<le> held_bytes c"
      using sum_delete [OF map_of_SomeD [OF Some]] by (simp add: held_bytes_def)
    moreover have "length (reorder_delete q m) \<le> length m" for q and m :: "(u32 \<times> bytes) list"
      by (simp add: reorder_delete_def)
    moreover have "distinct (map fst (reorder_delete q m))" if "distinct (map fst m)" for q and m :: "(u32 \<times> bytes) list"
      using that by (simp add: reorder_delete_def distinct_map_filter)
    ultimately have "rcv_bounded ?c"
      using "1.prems" by (simp add: rcv_bounded_def) (meson order_trans)
    with 1 Some show ?thesis
      by (subst drain_reorder.simps) simp
  qed
qed

lemma admit_bounded:
  assumes b: "rcv_bounded c" and res: "admit_payload seg c = (c1, full)"
  shows "rcv_bounded c1"
proof -
  let ?n = "of_nat (length (sg_payload seg)) :: u32"
  define acc where "acc = (if ?n > recvWindowRemainingLocked c then recvWindowRemainingLocked c else ?n)"
  define d where "d = take (unat acc) (sg_payload seg)"
  have h: "held_bytes c \<le> 65535"
    using b by (simp add: rcv_bounded_def)
  have "unat acc \<le> 65535 - held_bytes c"
    using window_remaining [OF h] by (auto simp: acc_def word_less_nat_alt)
  then have "length d \<le> 65535 - held_bytes c"
    by (simp add: d_def)
  then have "held_bytes c + length d \<le> 65535"
    using h by linarith
  then have "rcv_bounded (c\<lparr>tc_recvBuf := tc_recvBuf c @ d, tc_rcvNxt := q\<rparr>)" for q
    using b by (simp add: rcv_bounded_def held_bytes_def)
  moreover have "c1 = c \<or> (\<exists>q. c1 = c\<lparr>tc_recvBuf := tc_recvBuf c @ d, tc_rcvNxt := q\<rparr>)"
    using res unfolding admit_payload_def Let_def acc_def [symmetric] d_def [symmetric] by (auto split: if_splits)
  ultimately show ?thesis
    using b by blast
qed

lemma out_of_order_bounded:
  assumes b: "rcv_bounded c" and len: "length (sg_payload seg) < 4294967296"
    and res: "handle_out_of_order seg c = (c', segs, fin, dropped)"
  shows "rcv_bounded c'"
proof -
  have "c' = c \<or> (map_of (tc_reorder c) (sg_seq seg) = None \<and> length (tc_reorder c) < maxReorderSegments
      \<and> of_nat (length (sg_payload seg)) \<le> recvWindowRemainingLocked c
      \<and> tc_recvBuf c' = tc_recvBuf c \<and> tc_reorder c' = (sg_seq seg, sg_payload seg) # tc_reorder c)"
  proof (cases "map_of (tc_reorder c) (sg_seq seg) = None
      \<and> \<not> (length (tc_reorder c) \<ge> maxReorderSegments
        \<or> of_nat (length (sg_payload seg)) > recvWindowRemainingLocked c)")
    case True
    then show ?thesis
      using res unfolding handle_out_of_order_def Let_def by (auto simp: not_le not_less split: if_splits)
  next
    case False
    then show ?thesis
      using res unfolding handle_out_of_order_def Let_def by (auto split: if_splits)
  qed
  then show ?thesis
  proof (elim disjE conjE)
    assume put: "map_of (tc_reorder c) (sg_seq seg) = None" "length (tc_reorder c) < maxReorderSegments"
      "of_nat (length (sg_payload seg)) \<le> recvWindowRemainingLocked c"
      "tc_recvBuf c' = tc_recvBuf c" "tc_reorder c' = (sg_seq seg, sg_payload seg) # tc_reorder c"
    have "length (sg_payload seg) \<le> 65535 - held_bytes c"
      using put(3) window_remaining [of c] b unat_len_u32 [OF len]
      by (simp add: rcv_bounded_def word_le_nat_alt)
    moreover have "held_bytes c \<le> 65535" "length (tc_reorder c) \<le> maxReorderSegments"
      "distinct (map fst (tc_reorder c))"
      using b by (simp_all add: rcv_bounded_def)
    ultimately have "held_bytes c + length (sg_payload seg) \<le> 65535"
      by linarith
    then show ?thesis
      using put \<open>distinct (map fst (tc_reorder c))\<close>
      by (simp add: rcv_bounded_def held_bytes_def map_of_eq_None_iff)
  qed (use b in simp)
qed

lemma data_bounded:
  assumes b: "rcv_bounded c" and len: "length (sg_payload seg) < 4294967296"
    and res: "handleEstablishedDataLocked seg c = (c', segs, fin, dropped)"
  shows "rcv_bounded c'"
proof -
  obtain c1 full where c1: "admit_payload seg c = (c1, full)" by fastforce
  obtain c2 f where c2: "take_fin seg (drain_reorder c1) = (c2, f)" by fastforce
  have "rcv_bounded c2"
    using drain_bounded [OF admit_bounded [OF b c1]] c2
    by (auto simp: take_fin_def rcv_bounded_def held_bytes_def split: if_splits)
  moreover note admit_bounded [OF b c1] out_of_order_bounded [OF b len]
  ultimately show ?thesis
    using res b c1 c2 rcv_bounded_frame [of "broadcastLocked c2" c2] rcv_bounded_frame [of "broadcastLocked c1" c1]
    by (auto simp: handleEstablishedDataLocked_def handle_in_order_def Let_def split: if_splits)
qed

lemma ack_and_data_bounded:
  assumes "rcv_bounded c" and "length (sg_payload seg) < 4294967296"
    and "ack_and_data seg c = (c', segs, fin, dropped)"
  shows "rcv_bounded c'"
proof -
  obtain c1 s1 where a: "handleAckLocked seg c = (c1, s1)"
    by fastforce
  obtain s2 where d: "handleEstablishedDataLocked seg c1 = (c', s2, fin, dropped)"
    using assms(3) a by (auto simp: ack_and_data_def split: prod.splits)
  have "rcv_bounded c1"
    using rcv_bounded_frame [of c1 c] handleAck_rcv [of seg c] a assms(1) by simp
  from data_bounded [OF this assms(2) d] show ?thesis .
qed

lemma handleSegment_bounded:
  assumes b: "rcv_bounded c" and len: "length (sg_payload seg) < 4294967296"
    and res: "handleSegment seg c = (c', effs)" and st: "tc_state c \<noteq> stateSynRcvd"
  shows "rcv_bounded c'"
  using handleSegment_shape [OF res st]
proof (elim disjE exE conjE)
  fix c1 segs fin dropped
  assume "ack_and_data seg c = (c1, segs, fin, dropped)" "rcv_of c' = rcv_of c1"
  then show ?thesis
    using ack_and_data_bounded [OF b len] rcv_bounded_frame by blast
next
  fix c1 segs
  assume "handleAckLocked seg c = (c1, segs)" "rcv_of c' = rcv_of c1"
  then show ?thesis
    using b rcv_bounded_frame [of c1 c] rcv_bounded_frame [of c' c1] handleAck_rcv [of seg c] by simp
next
  assume "rcv_of c' = rcv_of c"
  then show ?thesis
    using b rcv_bounded_frame [of c' c] by simp
qed

lemma handshake_bounded:
  assumes res: "handleSegment seg (newTCPConn l a key iss isn w mss) = (c, effs)"
    and est: "tc_state c = stateEstablished" and len: "length (sg_payload seg) < 4294967296"
  shows "rcv_bounded c"
proof -
  let ?c0 = "newTCPConn l a key iss isn w mss"
  let ?c1 = "?c0\<lparr>tc_sndUna := sg_ack seg, tc_state := stateEstablished, tc_timer := None, tc_timerArmed := False\<rparr>"
  obtain c2 segs fin dr where d: "handleEstablishedDataLocked seg ?c1 = (c2, segs, fin, dr)"
    by (rule prod_cases4)
  have "tc_state ?c0 = stateSynRcvd"
    by (simp add: newTCPConn_def)
  then have "c = broadcastLocked c2"
    using res est d
    by (auto simp: handleSegment_def Let_def broadcastLocked_def stopTimersLocked_def split: if_splits)
  moreover have "rcv_bounded ?c1"
    by (simp add: rcv_bounded_def held_bytes_def newTCPConn_def)
  ultimately show ?thesis
    using data_bounded [OF _ len d] rcv_bounded_frame [of c c2] by simp
qed

lemma tcp_run_bounded:
  assumes "tcp_run iss isn rcvd W got sent c" and "list_all (\<lambda>seg. length (sg_payload seg) < 4294967296) rcvd"
  shows "rcv_bounded c"
  using assms
proof (induction rule: tcp_run.induct)
  case (tr_established seg l a key w mss c effs)
  then show ?case by (simp add: handshake_bounded)
next
  case (tr_segment rcvd W got sent c seg c' effs)
  have "tc_state c \<noteq> stateSynRcvd"
    using tcp_run_tx [OF tr_segment.hyps(1)] by (simp add: tx_inv_def)
  with tr_segment show ?case
    by (intro handleSegment_bounded [OF _ _ tr_segment.hyps(2)]) simp_all
next
  case (tr_timer rcvd W got sent c m c' effs)
  have "tc_state c \<noteq> stateSynRcvd"
    using tcp_run_tx [OF tr_timer.hyps(1)] by (simp add: tx_inv_def)
  with timer_streams(2) [OF tr_timer.hyps(2)] rcv_bounded_frame [of c' c] tr_timer.IH tr_timer.prems show ?case
    by simp
next
  case (tr_read rcvd W got sent c n b c')
  then have "c' = c\<lparr>tc_recvBuf := drop n (tc_recvBuf c)\<rparr>" "rcv_bounded c"
    by (auto simp: Read_iter_def split: if_splits option.splits)
  then show ?case
    by (auto simp: rcv_bounded_def held_bytes_def)
next
  case (tr_write rcvd W got sent c rest r n c' effs)
  with write_streams(2) [OF tr_write.hyps(3,2)] rcv_bounded_frame [of c' c] show ?case by simp
next
  case (tr_closeWrite rcvd W got sent c c' effs)
  with closeWrite_streams(3) [OF tr_closeWrite.hyps(2)] rcv_bounded_frame [of c' c] show ?case by simp
next
  case (tr_close rcvd W got sent c c' effs)
  have "tc_state c \<noteq> stateSynRcvd"
    using tcp_run_tx [OF tr_close.hyps(1)] by (simp add: tx_inv_def)
  from closeWrite_streams(3) [OF close_streams [OF tr_close.hyps(2) this]] rcv_bounded_frame [of c' c]
    tr_close.IH tr_close.prems show ?case by simp
next
  case (tr_abort rcvd W got sent c c' effs)
  with detach_streams(2) [OF tr_abort.hyps(2)] rcv_bounded_frame [of c' c] show ?case
    by (simp add: quiet_effect_def)
next
  case (tr_detach rcvd W got sent c c' effs)
  with detach_streams(1) [OF tr_detach.hyps(2)] rcv_bounded_frame [of c' c] show ?case
    by (simp add: quiet_effect_def)
next
  case (tr_other rcvd W got sent c rd wd h ip lv)
  then show ?case by (simp add: rcv_bounded_def held_bytes_def)
qed

section \<open>Filling the send window\<close>

lemma slice_join: "i \<le> j \<Longrightarrow> j \<le> k \<Longrightarrow> slice i j xs @ slice j k xs = slice i k xs"
  using take_add [of "j - i" "k - j" "drop i xs"] by (simp add: slice_def)

lemma mss_widened:
  "unat (ucast (m :: u16) :: u32) = unat m" "m \<noteq> 0 \<Longrightarrow> (ucast m :: u32) \<noteq> 0"
proof -
  show u: "unat (ucast m :: u32) = unat m"
    using unat_u16_less [of m] by (simp add: unsigned_ucast_eq take_bit_eq_mod)
  show "(ucast m :: u32) \<noteq> 0" if "m \<noteq> 0"
    using u that by (metis unat_0 unat_eq_zero)
qed

lemma send_loop_exact:
  assumes "tc_sndMSS c \<noteq> 0" and "length (tc_outBuf c) < 4294967296"
    and "send_loop c limit force sent = (sent', segs)" and "\<not> force"
  shows "sent' = (if sent < limit \<and> sent < of_nat (length (tc_outBuf c))
      then min limit (of_nat (length (tc_outBuf c))) else sent)
    \<and> concat (map sg_payload segs) = slice (unat sent) (unat sent') (tc_outBuf c)
    \<and> list_all (\<lambda>s. sg_payload s \<noteq> [] \<and> length (sg_payload s) \<le> unat (tc_sndMSS c)) segs"
  using assms(3,4,1,2)
proof (induction c limit force sent arbitrary: sent' segs rule: send_loop.induct)
  case (1 c limit force sent)
  let ?av = "of_nat (length (tc_outBuf c)) :: u32"
  define chunk where "chunk = send_chunk c limit sent"
  note ch = send_chunk_le [of c limit sent, folded chunk_def]
  note mss = mss_widened(2) [OF "1.prems"(3)] mss_widened(1) [of "tc_sndMSS c"]
  show ?case
  proof (cases "sent < limit \<and> sent < ?av")
    case False
    then have "send_loop c limit force sent = (sent, [])"
      by (subst send_loop.simps) auto
    with 1 False show ?thesis
      by (auto simp: slice_def)
  next
    case True
    then have "limit - sent \<noteq> 0" "?av - sent \<noteq> 0"
      by auto
    then have nz: "chunk \<noteq> 0"
      using mss by (auto simp: chunk_def send_chunk_def Let_def)
    let ?seg = "conn_segment c (tc_sndUna c + sent) flagACK (advertisedWindowLocked c)
        (slice (unat sent) (unat (sent + chunk)) (tc_outBuf c))"
    have no: "sent + chunk \<le> ?av" "sent + chunk \<le> limit" "sent \<le> sent + chunk"
      "unat (sent + chunk) = unat sent + unat chunk"
      using word_add_within [of sent ?av chunk] word_add_within [of sent limit chunk] ch True
      by (simp_all add: less_imp_le)
    obtain s2 r where r: "send_loop c limit force (sent + chunk) = (s2, r)"
      by fastforce
    have "send_loop c limit force sent = (s2, ?seg # r)"
      using True "1.prems"(2) r nz unfolding chunk_def by (subst send_loop.simps) (simp add: Let_def)
    then have res: "sent' = s2" "segs = ?seg # r"
      using "1.prems"(1) by simp_all
    have IH: "s2 = (if sent + chunk < limit \<and> sent + chunk < ?av then min limit ?av else sent + chunk)"
      "concat (map sg_payload r) = slice (unat (sent + chunk)) (unat s2) (tc_outBuf c)"
      "list_all (\<lambda>s. sg_payload s \<noteq> [] \<and> length (sg_payload s) \<le> unat (tc_sndMSS c)) r"
      using "1.IH" [OF _ refl refl _ _ _ "1.prems"(3,4), folded chunk_def, OF _ _ r] True nz "1.prems"(2)
      by simp_all
    have s2: "s2 = min limit ?av" "sent + chunk \<le> s2"
      using IH(1) no by (auto simp: min_def)
    have av: "unat ?av = length (tc_outBuf c)"
      using "1.prems"(4) by (rule unat_len_u32)
    have bounds: "unat sent \<le> unat (sent + chunk)" "unat (sent + chunk) \<le> unat s2"
      "unat s2 \<le> length (tc_outBuf c)" "0 < unat chunk" "unat chunk \<le> unat (tc_sndMSS c)"
      using no s2 av nz ch(3) mss(2) by (auto simp: word_le_nat_alt unat_gt_0 min_def split: if_splits)
    have join: "slice (unat sent) (unat (sent + chunk)) (tc_outBuf c)
        @ slice (unat (sent + chunk)) (unat s2) (tc_outBuf c) = slice (unat sent) (unat s2) (tc_outBuf c)"
      using bounds(1,2) by (rule slice_join)
    have seg: "sg_payload ?seg = slice (unat sent) (unat (sent + chunk)) (tc_outBuf c)"
      "length (sg_payload ?seg) = unat chunk"
      using bounds no(4) by (simp_all add: conn_segment_def)
    have "sg_payload ?seg \<noteq> []"
      using seg(2) bounds(4) by (metis list.size(3) less_irrefl)
    with seg(2) bounds(5) IH(3) have
      "list_all (\<lambda>s. sg_payload s \<noteq> [] \<and> length (sg_payload s) \<le> unat (tc_sndMSS c)) (?seg # r)"
      by simp
    moreover have "concat (map sg_payload (?seg # r)) = slice (unat sent) (unat s2) (tc_outBuf c)"
      using IH(2) join seg(1) by simp
    ultimately show ?thesis
      unfolding res using s2(1) True by simp
  qed
qed

lemma allowed_value: "unat (allowedInFlightLocked c) = min (unat (tc_sndWnd c)) 65535"
  by (simp add: allowedInFlightLocked_def govpn_consts word_less_nat_alt min_def)

lemma sendPending_exact:
  assumes mss: "tc_sndMSS c \<noteq> 0" and sb: "unat (tc_sentBytes c) \<le> length (tc_outBuf c)"
    "length (tc_outBuf c) \<le> 65535" and res: "sendPendingLocked False c = (c', segs)"
  shows "unat (tc_sentBytes c') = max (unat (tc_sentBytes c)) (min (min (unat (tc_sndWnd c)) 65535) (length (tc_outBuf c)))"
    and "concat (map sg_payload segs) = slice (unat (tc_sentBytes c)) (unat (tc_sentBytes c')) (tc_outBuf c)"
    and "list_all (\<lambda>s. sg_payload s \<noteq> [] \<and> length (sg_payload s) \<le> unat (tc_sndMSS c)) segs"
proof -
  let ?lim = "allowedInFlightLocked c" and ?av = "of_nat (length (tc_outBuf c)) :: u32"
  have av: "unat ?av = length (tc_outBuf c)" and len: "length (tc_outBuf c) < 4294967296"
    using sb(2) by (simp_all add: unat_len_u32)
  have "unat (tc_sentBytes c') = max (unat (tc_sentBytes c)) (min (unat ?lim) (length (tc_outBuf c)))
    \<and> concat (map sg_payload segs) = slice (unat (tc_sentBytes c)) (unat (tc_sentBytes c')) (tc_outBuf c)
    \<and> list_all (\<lambda>s. sg_payload s \<noteq> [] \<and> length (sg_payload s) \<le> unat (tc_sndMSS c)) segs"
  proof (cases "?lim = 0")
    case True
    then have "tc_sentBytes c' = tc_sentBytes c" "segs = []"
      using res by (auto simp: sendPendingLocked_def Let_def split: if_splits)
    with True show ?thesis
      by (simp add: slice_def)
  next
    case False
    obtain sent sl where sl: "send_loop c ?lim False (tc_sentBytes c) = (sent, sl)"
      by fastforce
    have "tc_sentBytes c' = sent" "segs = sl"
      using res False sl by (auto simp: sendPendingLocked_def Let_def split: if_splits)
    moreover have "unat (if tc_sentBytes c < ?lim \<and> tc_sentBytes c < ?av then min ?lim ?av else tc_sentBytes c)
      = max (unat (tc_sentBytes c)) (min (unat ?lim) (length (tc_outBuf c)))"
      using sb(1) av by (auto simp: word_less_nat_alt word_le_nat_alt min_def max_def)
    ultimately show ?thesis
      using send_loop_exact [OF mss len sl] by simp
  qed
  then show "unat (tc_sentBytes c') = max (unat (tc_sentBytes c)) (min (min (unat (tc_sndWnd c)) 65535) (length (tc_outBuf c)))"
    "concat (map sg_payload segs) = slice (unat (tc_sentBytes c)) (unat (tc_sentBytes c')) (tc_outBuf c)"
    "list_all (\<lambda>s. sg_payload s \<noteq> [] \<and> length (sg_payload s) \<le> unat (tc_sndMSS c)) segs"
    by (simp_all add: allowed_value)
qed

section \<open>Running out of retransmissions\<close>

definition fires :: "u16 \<Rightarrow> nat \<Rightarrow> tcpConn \<Rightarrow> tcpConn" where
  "fires m k c = ((\<lambda>c. fst (timer_fires m c)) ^^ k) c"

lemma fires_Suc: "fires m (Suc k) c = fst (timer_fires m (fires m k c))"
  by (simp add: fires_def)

lemma fires_0 [simp]: "fires m 0 c = c"
  by (simp add: fires_def)

text \<open>Something is on the way: the SYN-ACK, data, or the FIN.\<close>

definition outstanding :: "tcpConn \<Rightarrow> bool" where
  "outstanding c \<longleftrightarrow> tc_state c \<noteq> stateClosed \<and> \<not> tc_inTimeWait c
     \<and> (tc_state c = stateSynRcvd \<or> tc_sentBytes c > 0 \<or> tc_finSent c \<and> \<not> tc_finAcked c)"

lemma fire_outstanding:
  assumes "outstanding c"
  shows "tc_retransmitCount c < maxRetransmits \<Longrightarrow> fst (timer_fires m c)
      = c\<lparr>tc_retransmitCount := tc_retransmitCount c + 1, tc_rto := doubleRTO (tc_rto c),
          tc_timer := Some (doubleRTO (tc_rto c))\<rparr>"
    and "\<not> tc_retransmitCount c < maxRetransmits \<Longrightarrow> timer_fires m c
      = give_up (c\<lparr>tc_timer := None, tc_retransmitCount := tc_retransmitCount c + 1\<rparr>)"
  using assms
  by (auto simp: outstanding_def timer_fires_def onRTOFired_def backoff_def Let_def)

lemma fires_outstanding:
  assumes "outstanding c" and "tc_retransmitCount c = 0" and "k \<le> maxRetransmits"
  shows "k = 0 \<or> fires m k c = c\<lparr>tc_retransmitCount := k, tc_rto := (doubleRTO ^^ k) (tc_rto c),
      tc_timer := Some ((doubleRTO ^^ k) (tc_rto c))\<rparr>"
  using assms(3)
proof (induction k)
  case (Suc k)
  have keep: "outstanding (c\<lparr>tc_retransmitCount := n, tc_rto := r, tc_timer := t\<rparr>)" for n r t
    using assms(1) by (simp add: outstanding_def)
  show ?case
  proof (cases "k = 0")
    case True
    then show ?thesis
      using fire_outstanding(1) [OF assms(1), of m] assms(2) Suc.prems by (simp add: fires_Suc govpn_consts)
  next
    case False
    let ?c = "c\<lparr>tc_retransmitCount := k, tc_rto := (doubleRTO ^^ k) (tc_rto c),
        tc_timer := Some ((doubleRTO ^^ k) (tc_rto c))\<rparr>"
    have "fires m k c = ?c"
      using Suc False by simp
    moreover have "tc_retransmitCount ?c < maxRetransmits"
      using Suc.prems by simp
    ultimately show ?thesis
      using fire_outstanding(1) [OF keep] by (simp add: fires_Suc)
  qed
next
  case 0
  show ?case by blast
qed

lemma rto_steps:
  "doubleRTO initialRTO = 600000000" "doubleRTO 600000000 = 1200000000" "doubleRTO 1200000000 = 2400000000"
  "doubleRTO 2400000000 = 4800000000" "doubleRTO 4800000000 = 8000000000" "doubleRTO 8000000000 = 8000000000"
  by (simp_all add: doubleRTO_def Let_def govpn_consts)

section \<open>Resets\<close>

definition closed_by_peer :: "tcpConn \<Rightarrow> tcpConn" where
  "closed_by_peer c = broadcastLocked (stopTimersLocked (c\<lparr>tc_err := Some ErrTCPConnReset, tc_state := stateClosed\<rparr>))"

lemma rst_window_iff:
  "rstInWindowLocked c seg \<longleftrightarrow> unat (sg_seq seg - tc_rcvNxt c) < max 1 (unat (advertisedWindowLocked c))"
proof -
  let ?d = "sg_seq seg - tc_rcvNxt c" and ?w = "ucast (advertisedWindowLocked c) :: u32"
  have w: "unat ?w = unat (advertisedWindowLocked c)" "unat ?w < 65536"
    using mss_widened(1) [of "advertisedWindowLocked c"] unat_u16_less [of "advertisedWindowLocked c"] by simp_all
  have ge: "seqGE (sg_seq seg) (tc_rcvNxt c) \<longleftrightarrow> unat ?d < 2147483648"
    using sint_pos_u32 [of ?d] by (cases "?d = 0") (auto simp: seqGE_def le_less unat_gt_0 signed_eq_0_iff)
  have diff: "tc_rcvNxt c + ?w - sg_seq seg = ?w - ?d"
    by simp
  show ?thesis
  proof (cases "?w = 0")
    case True
    then have "max 1 (unat (advertisedWindowLocked c)) = 1" "rstInWindowLocked c seg \<longleftrightarrow> sg_seq seg = tc_rcvNxt c"
      using w(1) by (auto simp: rstInWindowLocked_def Let_def)
    then show ?thesis
      using unat_eq_zero [of ?d] by simp
  next
    case False
    have "unat ?d < 2147483648 \<and> 0 < unat (?w - ?d) \<and> unat (?w - ?d) < 2147483648 \<longleftrightarrow> unat ?d < unat ?w"
      using w(2) by (cases "?d \<le> ?w") (auto simp: unat_sub_if' word_le_nat_alt)
    moreover have "0 < unat ?w"
      using False by (simp add: unat_gt_0)
    ultimately show ?thesis
      using False ge w(1) unfolding rstInWindowLocked_def Let_def seqGT_def diff sint_pos_u32 by auto
  qed
qed

text \<open>
  C26. A reset is believed only inside the receive window: a segment with RST closes the
  connection, in every state, exactly when its sequence number is one of the window's bytes
  (with a closed window, the next expected byte alone). Any other RST leaves the connection
  as it was and is answered by nothing.
\<close>

theorem rst_only_in_window:
  assumes "has_flag flagRST seg"
  shows "handleSegment seg c =
    (if unat (sg_seq seg - tc_rcvNxt c) < max 1 (unat (advertisedWindowLocked c))
     then (closed_by_peer c, [CountRSTReceived, RemoveConn]) else (c, []))"
  using assms rst_window_iff [of c seg] by (simp add: handleSegment_def closed_by_peer_def)

theorem rst_only_in_window_witness:
  "handleSegment (demo_seg 300 0 flagRST []) (demo_est 100 200)
     = (closed_by_peer (demo_est 100 200), [CountRSTReceived, RemoveConn])
   \<and> handleSegment (demo_seg 199 0 flagRST []) (demo_est 100 200) = (demo_est 100 200, [])"
proof -
  have "has_flag flagRST (demo_seg q 0 flagRST [])" for q
    by (simp add: demo_seg_def has_flag_def tcp_flags)
  from rst_only_in_window [OF this, of 300 "demo_est 100 200"] rst_only_in_window [OF this, of 199 "demo_est 100 200"]
  show ?thesis
    by (simp add: demo_seg_def demo_est_def newTCPConn_def advertisedWindowLocked_def
        recvWindowRemainingLocked_def reorder_bytes_def govpn_consts)
qed

lemma rto_powers:
  "doubleRTO 300000000 = 600000000" "(doubleRTO ^^ 2) 300000000 = 1200000000"
  "(doubleRTO ^^ 3) 300000000 = 2400000000" "(doubleRTO ^^ 4) 300000000 = 4800000000"
  "(doubleRTO ^^ 5) 300000000 = 8000000000" "(doubleRTO ^^ 6) 300000000 = 8000000000"
  using rto_steps by (simp_all add: numeral_nat initialRTO_def)

section \<open>What a connection holds\<close>

text \<open>
  C22. The memory of a connection is bounded through every history, whatever the peer
  sends: the send buffer never holds more than 65535 bytes and never fewer than are in
  flight, the bytes received and not read, reordered ones included, never exceed the
  receive window of 65535, and at most 16 out-of-order segments wait, no two at the same
  sequence number. (A payload is shorter than 4 gigabytes: an IPv4 packet carries less.)
\<close>

theorem tcp_buffers_bounded:
  assumes "tcp_run iss isn rcvd W got sent c"
    and "list_all (\<lambda>seg. length (sg_payload seg) < 4294967296) rcvd"
  shows "unat (tc_sentBytes c) \<le> length (tc_outBuf c) \<and> length (tc_outBuf c) \<le> 65535
    \<and> length (tc_recvBuf c) + sum_list (map (\<lambda>e. length (snd e)) (tc_reorder c)) \<le> 65535
    \<and> length (tc_reorder c) \<le> 16 \<and> distinct (map fst (tc_reorder c))"
  using tcp_run_bounded [OF assms] tcp_run_tx [OF assms(1)]
  by (simp add: rcv_bounded_def held_bytes_def tx_inv_def tx_ok_def govpn_consts)

theorem tcp_buffers_bounded_witness:
  "unat (tc_sentBytes demo_closed) \<le> length (tc_outBuf demo_closed) \<and> length (tc_outBuf demo_closed) \<le> 65535"
  using tcp_buffers_bounded [OF demo_sender] by (simp add: demo_seg_def)

text \<open>
  C23. Sending fills the window and no more: with a usable segment size, after
  \<^verbatim>\<open>sendPendingLocked\<close> the bytes in flight are what was in flight before or as much of the
  buffer as the peer's window (capped at 65535) admits, whichever is more; the segments
  carry exactly the newly sent bytes in order, each of them at least one byte and at most
  the peer's segment size.
\<close>

theorem tcp_send_fills_window:
  assumes "tc_sndMSS c \<noteq> 0" and "unat (tc_sentBytes c) \<le> length (tc_outBuf c)"
    and "length (tc_outBuf c) \<le> 65535" and "sendPendingLocked False c = (c', segs)"
  shows "unat (tc_sentBytes c')
      = max (unat (tc_sentBytes c)) (min (min (unat (tc_sndWnd c)) 65535) (length (tc_outBuf c)))
    \<and> concat (map sg_payload segs) = slice (unat (tc_sentBytes c)) (unat (tc_sentBytes c')) (tc_outBuf c)
    \<and> list_all (\<lambda>s. sg_payload s \<noteq> [] \<and> length (sg_payload s) \<le> unat (tc_sndMSS c)) segs"
  using sendPending_exact [OF assms] by blast

theorem tcp_send_fills_window_witness:
  "unat (tc_sentBytes (fst (sendPendingLocked False ((demo_est 100 200)\<lparr>tc_outBuf := [1, 2, 3], tc_sndWnd := 2\<rparr>)))) = 2"
proof -
  let ?c = "(demo_est 100 200)\<lparr>tc_outBuf := [1, 2, 3], tc_sndWnd := 2\<rparr>"
  have "tc_sndMSS ?c \<noteq> 0" "unat (tc_sentBytes ?c) \<le> length (tc_outBuf ?c)" "length (tc_outBuf ?c) \<le> 65535"
    by (simp_all add: demo_est_def newTCPConn_def)
  from tcp_send_fills_window [OF this surjective_pairing] show ?thesis
    by (simp add: demo_est_def newTCPConn_def)
qed

section \<open>A silent peer\<close>

text \<open>
  C24. A peer that stops answering does not hold a connection for ever: with a SYN-ACK, data
  or a FIN outstanding, each of the first six firings of the timer re-arms it with the
  doubled timeout, up to eight seconds, and leaves the state alone; the seventh closes the
  connection with the reset error, removes it from the demux and sends an RST.
\<close>

theorem tcp_silent_peer_reset:
  assumes "outstanding c" and "tc_retransmitCount c = 0" and "tc_rto c = initialRTO"
  shows "map (\<lambda>k. tc_timer (fires m k c)) [1, 2, 3, 4, 5, 6]
      = map Some [600000000, 1200000000, 2400000000, 4800000000, 8000000000, 8000000000]
    \<and> map (\<lambda>k. tc_state (fires m k c)) [1, 2, 3, 4, 5, 6] = replicate 6 (tc_state c)
    \<and> tc_state (fires m 7 c) = stateClosed \<and> tc_err (fires m 7 c) = Some ErrTCPConnReset
    \<and> tc_timer (fires m 7 c) = None
    \<and> (\<exists>rst. snd (timer_fires m (fires m 6 c)) = [RemoveConn, SendSegments [rst], CountRSTSent]
         \<and> has_flag flagRST rst)"
proof -
  note f = fires_outstanding [OF assms(1,2), of _ m]
  have six: "fires m 6 c = c\<lparr>tc_retransmitCount := 6, tc_rto := (doubleRTO ^^ 6) (tc_rto c),
      tc_timer := Some ((doubleRTO ^^ 6) (tc_rto c))\<rparr>"
    using f [of 6] by (simp add: govpn_consts)
  have "outstanding (fires m 6 c)"
    using assms(1) by (simp add: six outstanding_def)
  note final = fire_outstanding(2) [OF this, of m]
  have "fires m 7 c = fst (timer_fires m (fires m 6 c))"
    using fires_Suc [of m 6 c] by simp
  then have "tc_state (fires m 7 c) = stateClosed" "tc_err (fires m 7 c) = Some ErrTCPConnReset"
    "tc_timer (fires m 7 c) = None"
    "\<exists>x. snd (timer_fires m (fires m 6 c)) = [RemoveConn, SendSegments [rstSegment x], CountRSTSent]"
    using final by (auto simp: six give_up_def broadcastLocked_def stopTimersLocked_def govpn_consts)
  moreover have "has_flag flagRST (rstSegment x)" for x
    by (simp add: rstSegment_def conn_segment_def has_flag_def tcp_flags)
  moreover have "map (\<lambda>k. tc_state (fires m k c)) [1, 2, 3, 4, 5, 6] = replicate 6 (tc_state c)"
    using f [of 1] f [of 2] f [of 3] f [of 4] f [of 5] six by (simp add: govpn_consts numeral_eq_Suc)
  moreover have "map (\<lambda>k. tc_timer (fires m k c)) [1, 2, 3, 4, 5, 6]
      = map Some [600000000, 1200000000, 2400000000, 4800000000, 8000000000, 8000000000]"
    using f [of 1] f [of 2] f [of 3] f [of 4] f [of 5] six assms(3)
    by (simp add: govpn_consts rto_powers)
  ultimately show ?thesis by metis
qed

theorem tcp_silent_peer_reset_witness:
  "tc_timer (fires 1460 6 demo_wrote) = Some 8000000000 \<and> tc_err (fires 1460 7 demo_wrote) = Some ErrTCPConnReset"
proof -
  have "outstanding demo_wrote" "tc_retransmitCount demo_wrote = 0" "tc_rto demo_wrote = initialRTO"
    by (simp_all add: outstanding_def demo_wrote_def demo_est_def newTCPConn_def)
  from tcp_silent_peer_reset [OF this, of 1460] show ?thesis by simp
qed

lemma nothing_pending:
  assumes "tc_outBuf c = []" and "tc_sentBytes c = 0"
  shows "sendPendingLocked False c = (c, [])"
  using assms by (simp add: sendPendingLocked_def Let_def send_loop.simps)

section \<open>Where the state machine falls short\<close>



text \<open>
  The peer's window is closed, nothing is in flight and no FIN has been sent; then a probe
  of one byte is in flight and has been sent again \<open>k\<close> times.
\<close>

definition stalled :: "tcpConn \<Rightarrow> bool" where
  "stalled c \<longleftrightarrow> tc_state c = stateEstablished \<and> \<not> tc_inTimeWait c \<and> tc_sndWnd c = 0 \<and> \<not> tc_finSent c
     \<and> 0 < length (tc_outBuf c) \<and> length (tc_outBuf c) \<le> 65535 \<and> tc_sndMSS c \<noteq> 0 \<and> tc_sentBytes c = 0
     \<and> tc_retransmitCount c = 0 \<and> tc_persistProbeCount c = 0"

definition probing :: "nat \<Rightarrow> tcpConn \<Rightarrow> bool" where
  "probing k c \<longleftrightarrow> tc_state c = stateEstablished \<and> \<not> tc_inTimeWait c \<and> tc_sndWnd c = 0 \<and> \<not> tc_finSent c
     \<and> tc_sentBytes c = 1 \<and> tc_retransmitCount c = k \<and> tc_persistProbeCount c = 1"

text \<open>The peer's answer to a probe it has no room for, and one firing with its answer.\<close>

definition window_closed_ack :: "tcpConn \<Rightarrow> tcpSegment" where
  "window_closed_ack c = \<lparr>sg_srcPort = ft_remotePort (tc_key c), sg_dstPort = ft_localPort (tc_key c),
     sg_seq = tc_rcvNxt c, sg_ack = tc_sndUna c, sg_flags = flagACK, sg_window = 0, sg_hasMSS = False,
     sg_mss = 0, sg_payload = []\<rparr>"

definition probe_round :: "u16 \<Rightarrow> tcpConn \<Rightarrow> tcpConn" where
  "probe_round m c = (let c1 = fst (timer_fires m c) in fst (handleSegment (window_closed_ack c1) c1))"

lemma closed_ack_keeps:
  assumes "probing k c"
  shows "probing k (fst (handleSegment (window_closed_ack c) c))"
proof -
  have "retire_acked (tc_sndUna c) c = c" "note_fin_acked (tc_sndUna c) c = c"
    using assms by (simp_all add: retire_acked_def note_fin_acked_def probing_def seqGT_def)
  then have "\<exists>a. handleAckLocked (window_closed_ack c) c = (a, []) \<and> probing k a"
    using assms by (simp add: handleAckLocked_def window_closed_ack_def has_flag_def tcp_flags Let_def
        sendPendingLocked_def allowedInFlightLocked_def probing_def)
  then obtain a where "handleAckLocked (window_closed_ack c) c = (a, [])" "probing k a"
    by blast
  then show ?thesis
    using assms by (simp add: handleSegment_def window_closed_ack_def has_flag_def tcp_flags ack_and_data_def
        handleEstablishedDataLocked_def broadcastLocked_def probing_def Let_def)
qed

lemma first_probe:
  assumes "stalled c"
  shows "probing 0 (probe_round m c)"
proof -
  let ?c = "c\<lparr>tc_timer := None, tc_persistProbeCount := 1\<rparr>"
  have avail: "0 < (of_nat (length (tc_outBuf c)) :: u32)"
    using assms len_u32_pos [of "tc_outBuf c"] by (auto simp: stalled_def)
  have "send_chunk ?c 1 0 = 1"
  proof -
    have one: "1 \<le> x \<longleftrightarrow> x \<noteq> 0" for x :: u32
      using unat_gt_0 [of x] by (simp add: word_le_nat_alt Suc_le_eq)
    have "1 \<le> (of_nat (length (tc_outBuf c)) :: u32)" "1 \<le> (ucast (tc_sndMSS c) :: u32)"
      using avail assms mss_widened(2) [of "tc_sndMSS c"] by (auto simp: stalled_def one)
    then show ?thesis
      by (auto simp: send_chunk_def Let_def)
  qed
  then have "fst (send_loop ?c 1 True 0) = 1"
    using avail by (simp add: send_loop.simps Let_def)
  then have "probing 0 (fst (timer_fires m c))"
    using assms avail unfolding timer_fires_def onRTOFired_def
    by (auto simp: stalled_def probing_def sendPendingLocked_def allowedInFlightLocked_def Let_def govpn_consts
        split: prod.splits)
  from closed_ack_keeps [OF this] show ?thesis
    by (simp add: probe_round_def Let_def)
qed

lemma next_probe:
  assumes "probing k c"
  shows "k < 6 \<Longrightarrow> probing (Suc k) (probe_round m c)"
    and "k = 6 \<Longrightarrow> tc_state (probe_round m c) = stateClosed \<and> tc_err (probe_round m c) = Some ErrTCPConnReset
      \<and> tc_persistProbeCount (probe_round m c) = 1"
proof -
  have out: "outstanding c"
    using assms by (simp add: outstanding_def probing_def)
  show "probing (Suc k) (probe_round m c)" if "k < 6"
  proof -
    have "tc_retransmitCount c < maxRetransmits"
      using assms that by (simp add: probing_def govpn_consts)
    from fire_outstanding(1) [OF out this, of m] assms have "probing (Suc k) (fst (timer_fires m c))"
      by (simp add: probing_def)
    from closed_ack_keeps [OF this] show ?thesis
      by (simp add: probe_round_def Let_def)
  qed
  show "tc_state (probe_round m c) = stateClosed \<and> tc_err (probe_round m c) = Some ErrTCPConnReset
      \<and> tc_persistProbeCount (probe_round m c) = 1" if "k = 6"
  proof -
    have "\<not> tc_retransmitCount c < maxRetransmits"
      using assms that by (simp add: probing_def govpn_consts)
    from fire_outstanding(2) [OF out this, of m] assms show ?thesis
      by (simp add: probe_round_def give_up_def handleSegment_def window_closed_ack_def has_flag_def tcp_flags
          broadcastLocked_def stopTimersLocked_def probing_def Let_def)
  qed
qed

lemma probes_go_on: "stalled c \<Longrightarrow> k \<le> 6 \<Longrightarrow> probing k ((probe_round m ^^ Suc k) c)"
  by (induction k) (simp_all add: first_probe next_probe(1))



end
