(* ===== verification/Tcp_Listener.thy ===== *)
theory Tcp_Listener
  imports Udp Tcp_Limits
begin

text \<open>
  \<^verbatim>\<open>netstack/tcp_listener.go\<close>: the demux of the TCP connections and the listeners. Both
  connections and listeners are shared by reference in the code, so they live in stores
  indexed by numbers; the demux's maps hold the numbers. The initial sequence number a
  SYN draws is an argument. What a connection's operation does after it releases its mutex
  is run effect by effect: in order for a call that runs alone, and in any interleaving
  with the other goroutines in \<open>Tcp_Demux\<close>.
\<close>

section \<open>State\<close>

record tcpDemuxStats =
  ts_backlogOverflow :: u64
  ts_halfOpenCapHits :: u64
  ts_liveConnCapHits :: u64
  ts_reorderDropped :: u64
  ts_rstsSent :: u64
  ts_rstsReceived :: u64

definition zero_tcp_stats :: tcpDemuxStats where
  "zero_tcp_stats = \<lparr> ts_backlogOverflow = 0, ts_halfOpenCapHits = 0, ts_liveConnCapHits = 0,
     ts_reorderDropped = 0, ts_rstsSent = 0, ts_rstsReceived = 0 \<rparr>"

record tcpListener =
  tl_port :: u16
  tl_closed :: bool
  tl_backlog :: "nat list"

record tcp_stack = udp_stack +
  td_listeners :: "u16 \<Rightarrow> nat option"
  td_conns :: "fourTuple \<Rightarrow> nat option"
  td_halfOpen :: "addr \<Rightarrow> nat option"
  td_liveConns :: "addr \<Rightarrow> nat option"
  td_stats :: tcpDemuxStats
  td_lstore :: "nat \<Rightarrow> tcpListener option"
  td_lnext :: nat
  td_cstore :: "nat \<Rightarrow> tcpConn option"
  td_cnext :: nat

definition tcp_count :: "(tcpDemuxStats \<Rightarrow> tcpDemuxStats) \<Rightarrow> 'm tcp_stack_scheme \<Rightarrow> 'm tcp_stack_scheme" where
  "tcp_count f s = s\<lparr>td_stats := f (td_stats s)\<rparr>"

definition put_conn :: "nat \<Rightarrow> tcpConn \<Rightarrow> 'm tcp_stack_scheme \<Rightarrow> 'm tcp_stack_scheme" where
  "put_conn cid c s = s\<lparr>td_cstore := (td_cstore s)(cid \<mapsto> c)\<rparr>"

definition newTCPDemux :: "'m tcp_stack_scheme \<Rightarrow> 'm tcp_stack_scheme" where
  "newTCPDemux s = s\<lparr>td_listeners := Map.empty, td_conns := Map.empty, td_halfOpen := Map.empty,
     td_liveConns := Map.empty, td_stats := zero_tcp_stats\<rparr>"

definition TCPStats_of :: "'m tcp_stack_scheme \<Rightarrow> tcpDemuxStats" where
  "TCPStats_of s = (if st_tcpHandler s then td_stats s else zero_tcp_stats)"

section \<open>Listening\<close>

definition tcp_listen :: "u16 \<Rightarrow> 'm tcp_stack_scheme \<Rightarrow> (tcp_error + nat) \<times> 'm tcp_stack_scheme" where
  "tcp_listen port s =
     (case td_listeners s port of
        Some _ \<Rightarrow> (Inl ErrTCPPortInUse, s)
      | None \<Rightarrow>
          (Inr (td_lnext s),
           s\<lparr>td_listeners := (td_listeners s)(port \<mapsto> td_lnext s),
             td_lstore := (td_lstore s)(td_lnext s \<mapsto> \<lparr> tl_port = port, tl_closed = False, tl_backlog = [] \<rparr>),
             td_lnext := td_lnext s + 1\<rparr>))"

definition ListenTCP :: "u16 \<Rightarrow> 'm tcp_stack_scheme \<Rightarrow> (tcp_error + nat) \<times> 'm tcp_stack_scheme" where
  "ListenTCP port s =
     (if port = 0 then (Inl ErrTCPPortZero, s)
      else tcp_listen port (if st_tcpHandler s then s else (newTCPDemux s)\<lparr>st_tcpHandler := True\<rparr>))"

definition removeListener :: "u16 \<Rightarrow> 'm tcp_stack_scheme \<Rightarrow> 'm tcp_stack_scheme" where
  "removeListener port s = s\<lparr>td_listeners := (td_listeners s)(port := None)\<rparr>"

text \<open>\<^verbatim>\<open>Addr\<close>: the address and port of the listener.\<close>

definition tcp_Addr :: "tcpListener \<Rightarrow> 'm tcp_stack_scheme \<Rightarrow> net_ip \<times> int" where
  "tcp_Addr l s = (ServerIP s, int (unat (tl_port l)))"

section \<open>Releasing budgets\<close>

definition counter :: "(addr \<Rightarrow> nat option) \<Rightarrow> addr \<Rightarrow> nat" where
  "counter m ip = (case m ip of None \<Rightarrow> 0 | Some n \<Rightarrow> n)"

text \<open>One less in a counter map: the entry goes away with its last unit.\<close>

definition decrement :: "addr \<Rightarrow> (addr \<Rightarrow> nat option) \<Rightarrow> addr \<Rightarrow> nat option" where
  "decrement ip m =
     (case m ip of None \<Rightarrow> m | Some n \<Rightarrow> if n \<le> 1 then m(ip := None) else m(ip \<mapsto> n - 1))"

definition releaseHalfOpen :: "nat \<Rightarrow> 'm tcp_stack_scheme \<Rightarrow> 'm tcp_stack_scheme" where
  "releaseHalfOpen cid s =
     (case td_cstore s cid of
        None \<Rightarrow> s
      | Some c \<Rightarrow>
          let s1 = put_conn cid (c\<lparr>tc_halfOpenCounted := False\<rparr>) s in
          if \<not> tc_halfOpenCounted c then s1
          else s1\<lparr>td_halfOpen := decrement (tc_halfOpenIP c) (td_halfOpen s1)\<rparr>)"

definition releaseLiveConn :: "nat \<Rightarrow> 'm tcp_stack_scheme \<Rightarrow> 'm tcp_stack_scheme" where
  "releaseLiveConn cid s =
     (case td_cstore s cid of
        None \<Rightarrow> s
      | Some c \<Rightarrow>
          let s1 = put_conn cid (c\<lparr>tc_liveCounted := False\<rparr>) s in
          if \<not> tc_liveCounted c then s1
          else s1\<lparr>td_liveConns := decrement (tc_halfOpenIP c) (td_liveConns s1)\<rparr>)"

definition removeConn :: "nat \<Rightarrow> 'm tcp_stack_scheme \<Rightarrow> 'm tcp_stack_scheme" where
  "removeConn cid s =
     (case td_cstore s cid of
        None \<Rightarrow> s
      | Some c \<Rightarrow>
          let s1 = (if td_conns s (tc_key c) = Some cid
                    then s\<lparr>td_conns := (td_conns s)(tc_key c := None)\<rparr> else s)
          in releaseLiveConn cid (releaseHalfOpen cid s1))"

section \<open>Sending\<close>

definition sendOne :: "write_fn \<Rightarrow> tcpConn \<Rightarrow> tcpSegment \<Rightarrow> 'm tcp_stack_scheme \<Rightarrow> 'm tcp_stack_scheme" where
  "sendOne wr c seg s =
     (let localIP = st_serverIP s;
          remoteIP = ft_remoteIP (tc_key c);
          tcpBytes = buildTCP [] seg localIP remoteIP;
          pkt = buildIPv4 [] localIP remoteIP protocolTCP tcpBytes
      in snd (writePacket wr (tc_att c) pkt s))"

definition sendSegments :: "write_fn \<Rightarrow> tcpConn \<Rightarrow> tcpSegment list \<Rightarrow> 'm tcp_stack_scheme \<Rightarrow> 'm tcp_stack_scheme" where
  "sendSegments wr c segs s = fold (sendOne wr c) segs s"

definition sendRST :: "write_fn \<Rightarrow> nat \<Rightarrow> addr \<Rightarrow> addr \<Rightarrow> tcpSegment \<Rightarrow> 'm tcp_stack_scheme \<Rightarrow> 'm tcp_stack_scheme" where
  "sendRST wr n localIP remoteIP seg s =
     (let tcpBytes = buildTCP [] (buildRSTSegment seg) localIP remoteIP;
          pkt = buildIPv4 [] localIP remoteIP protocolTCP tcpBytes
      in tcp_count (\<lambda>t. t\<lparr>ts_rstsSent := ts_rstsSent t + 1\<rparr>) (snd (writePacket wr n pkt s)))"

section \<open>Effects\<close>

text \<open>
  The listener's \<^verbatim>\<open>enqueue\<close>: the connection enters the accept queue, or is reset when the
  listener is closed or the queue full. What the reset leaves to do comes with the result.
\<close>

definition tcp_enqueue :: "nat \<Rightarrow> 'm tcp_stack_scheme \<Rightarrow> 'm tcp_stack_scheme \<times> tcp_effect list" where
  "tcp_enqueue cid s =
     (case td_cstore s cid of
        None \<Rightarrow> (s, [])
      | Some c \<Rightarrow>
          (case td_lstore s (tc_listener c) of
             None \<Rightarrow> (s, [])
           | Some l \<Rightarrow>
               if tl_closed l then
                 (case tcp_abort c of (c', effs) \<Rightarrow> (put_conn cid c' s, effs))
               else if length (tl_backlog l) < defaultBacklog then
                 (s\<lparr>td_lstore := (td_lstore s)(tc_listener c \<mapsto> l\<lparr>tl_backlog := tl_backlog l @ [cid]\<rparr>)\<rparr>, [])
               else
                 (case tcp_abort c of (c', effs) \<Rightarrow> (put_conn cid c' s, effs @ [CountBacklogOverflow]))))"

definition with_conn :: "nat \<Rightarrow> (tcpConn \<Rightarrow> 'm tcp_stack_scheme \<Rightarrow> 'm tcp_stack_scheme) \<Rightarrow> 'm tcp_stack_scheme
   \<Rightarrow> 'm tcp_stack_scheme" where
  "with_conn cid f s = (case td_cstore s cid of None \<Rightarrow> s | Some c \<Rightarrow> f c s)"

fun effect_step :: "write_fn \<Rightarrow> nat \<Rightarrow> tcp_effect \<Rightarrow> 'm tcp_stack_scheme \<Rightarrow> 'm tcp_stack_scheme \<times> tcp_effect list" where
  "effect_step wr cid RemoveConn s = (removeConn cid s, [])"
| "effect_step wr cid ReleaseHalfOpen s = (releaseHalfOpen cid s, [])"
| "effect_step wr cid EnqueueListener s = tcp_enqueue cid s"
| "effect_step wr cid (SendSegments segs) s = (with_conn cid (\<lambda>c. sendSegments wr c segs) s, [])"
| "effect_step wr cid CountRSTSent s = (tcp_count (\<lambda>t. t\<lparr>ts_rstsSent := ts_rstsSent t + 1\<rparr>) s, [])"
| "effect_step wr cid CountRSTReceived s = (tcp_count (\<lambda>t. t\<lparr>ts_rstsReceived := ts_rstsReceived t + 1\<rparr>) s, [])"
| "effect_step wr cid CountReorderDropped s = (tcp_count (\<lambda>t. t\<lparr>ts_reorderDropped := ts_reorderDropped t + 1\<rparr>) s, [])"
| "effect_step wr cid CountBacklogOverflow s = (tcp_count (\<lambda>t. t\<lparr>ts_backlogOverflow := ts_backlogOverflow t + 1\<rparr>) s, [])"

text \<open>
  The effects of a call that runs alone. Only a full or closed accept queue leaves more to
  do, and a reset does not touch the queue.
\<close>

definition run_plain :: "write_fn \<Rightarrow> nat \<Rightarrow> tcp_effect list \<Rightarrow> 'm tcp_stack_scheme \<Rightarrow> 'm tcp_stack_scheme" where
  "run_plain wr cid effs s = fold (\<lambda>e s. fst (effect_step wr cid e s)) effs s"

definition run_effects :: "write_fn \<Rightarrow> nat \<Rightarrow> tcp_effect list \<Rightarrow> 'm tcp_stack_scheme \<Rightarrow> 'm tcp_stack_scheme" where
  "run_effects wr cid effs s =
     fold (\<lambda>e s. case effect_step wr cid e s of (s', more_effs) \<Rightarrow> run_plain wr cid more_effs s') effs s"

section \<open>Packets\<close>

text \<open>
  The decision of \<^verbatim>\<open>handleSYN\<close> up to sending the SYN-ACK: nothing, or the number of the new
  connection.
\<close>

definition syn_mss :: "tcpSegment \<Rightarrow> 'm tcp_stack_scheme \<Rightarrow> u16" where
  "syn_mss seg s =
     (if sg_hasMSS seg then if sg_mss seg > maxSegmentSize s then maxSegmentSize s else sg_mss seg
      else defaultMSSWhenAbsent)"

definition handleSYN :: "u32 \<Rightarrow> nat \<Rightarrow> nat \<Rightarrow> addr \<Rightarrow> tcpSegment \<Rightarrow> 'm tcp_stack_scheme
   \<Rightarrow> nat option \<times> 'm tcp_stack_scheme" where
  "handleSYN isn lid n remoteIP seg s =
     (case td_lstore s lid of
        None \<Rightarrow> (None, s)
      | Some l \<Rightarrow>
          if tl_closed l then (None, s)
          else if counter (td_halfOpen s) remoteIP \<ge> maxHalfOpenPerSession
          then (None, tcp_count (\<lambda>t. t\<lparr>ts_halfOpenCapHits := ts_halfOpenCapHits t + 1\<rparr>) s)
          else if counter (td_liveConns s) remoteIP \<ge> maxLiveConnsPerSession
          then (None, tcp_count (\<lambda>t. t\<lparr>ts_liveConnCapHits := ts_liveConnCapHits t + 1\<rparr>) s)
          else
            let s1 = s\<lparr>td_halfOpen := (td_halfOpen s)(remoteIP \<mapsto> counter (td_halfOpen s) remoteIP + 1),
                       td_liveConns := (td_liveConns s)(remoteIP \<mapsto> counter (td_liveConns s) remoteIP + 1)\<rparr>;
                key = \<lparr> ft_remoteIP = remoteIP, ft_remotePort = sg_srcPort seg, ft_localPort = sg_dstPort seg \<rparr>;
                c = (newTCPConn lid n key isn (sg_seq seg) (sg_window seg) (syn_mss seg s))
                      \<lparr>tc_halfOpenCounted := True, tc_halfOpenIP := remoteIP, tc_liveCounted := True\<rparr>;
                cid = td_cnext s
            in (Some cid, s1\<lparr>td_conns := (td_conns s1)(key \<mapsto> cid), td_cstore := (td_cstore s1)(cid \<mapsto> c),
                             td_cnext := cid + 1\<rparr>))"

definition packet_key :: "addr \<Rightarrow> tcpSegment \<Rightarrow> fourTuple" where
  "packet_key src seg = \<lparr> ft_remoteIP = src, ft_remotePort = sg_srcPort seg, ft_localPort = sg_dstPort seg \<rparr>"

text \<open>
  \<^verbatim>\<open>handlePacket\<close> up to the effects of a connection, which come with the result and the
  connection they belong to.
\<close>

definition tcp_packet :: "write_fn \<Rightarrow> u32 \<Rightarrow> nat \<Rightarrow> addr \<Rightarrow> addr \<Rightarrow> bytes \<Rightarrow> 'm tcp_stack_scheme
   \<Rightarrow> (nat \<times> tcp_effect list) option \<times> 'm tcp_stack_scheme" where
  "tcp_packet wr isn n src dst payload s =
     (case parseTCP payload of
        Inl _ \<Rightarrow> (None, bump (\<lambda>c. c\<lparr>malformedDropped := malformedDropped c + 1\<rparr>) s)
      | Inr seg \<Rightarrow>
          (case td_conns s (packet_key src seg) of
             Some cid \<Rightarrow>
               (case td_cstore s cid of
                  None \<Rightarrow> (None, s)
                | Some c \<Rightarrow>
                    (case handleSegment seg c of (c', effs) \<Rightarrow> (Some (cid, effs), put_conn cid c' s)))
           | None \<Rightarrow>
               if has_flag flagRST seg then (None, s)
               else if has_flag flagSYN seg \<and> \<not> has_flag flagACK seg then
                 (case td_listeners s (sg_dstPort seg) of
                    None \<Rightarrow> (None, sendRST wr n dst src seg s)
                  | Some lid \<Rightarrow>
                      (case handleSYN isn lid n src seg s of
                         (None, s') \<Rightarrow> (None, s')
                       | (Some cid, s') \<Rightarrow>
                           (case td_cstore s' cid of
                              None \<Rightarrow> (None, s')
                            | Some c \<Rightarrow> (Some (cid, [SendSegments [synAckSegment (maxSegmentSize s') c]]), s'))))
               else (None, sendRST wr n dst src seg s)))"

definition tcp_handlePacket :: "write_fn \<Rightarrow> u32 \<Rightarrow> nat \<Rightarrow> addr \<Rightarrow> addr \<Rightarrow> bytes \<Rightarrow> 'm tcp_stack_scheme
   \<Rightarrow> 'm tcp_stack_scheme" where
  "tcp_handlePacket wr isn n src dst payload s =
     (case tcp_packet wr isn n src dst payload s of
        (None, s') \<Rightarrow> s'
      | (Some (cid, effs), s') \<Rightarrow> run_effects wr cid effs s')"

section \<open>Accepting and closing\<close>

datatype tcp_accept = AcceptBlocks | AcceptErr tcp_error | Accepted nat

text \<open>\<open>pick\<close> chooses when a connection waits and the listener is closed as well.\<close>

definition Accept :: "bool \<Rightarrow> tcpListener \<Rightarrow> tcp_accept \<times> tcpListener" where
  "Accept pick l =
     (if tl_backlog l \<noteq> [] \<and> (pick \<or> \<not> tl_closed l)
      then (Accepted (hd (tl_backlog l)), l\<lparr>tl_backlog := List.tl (tl_backlog l)\<rparr>)
      else if tl_closed l then (AcceptErr ErrTCPListenerClosed, l)
      else (AcceptBlocks, l))"

text \<open>
  \<^verbatim>\<open>Close\<close>: first the listener is marked and leaves the demux, then what waits in the
  queue is reset, one connection after the other.
\<close>

definition close_mark :: "nat \<Rightarrow> 'm tcp_stack_scheme \<Rightarrow> 'm tcp_stack_scheme" where
  "close_mark lid s =
     (case td_lstore s lid of
        None \<Rightarrow> s
      | Some l \<Rightarrow>
          if tl_closed l then s
          else removeListener (tl_port l) (s\<lparr>td_lstore := (td_lstore s)(lid \<mapsto> l\<lparr>tl_closed := True\<rparr>)\<rparr>))"

definition drain_one :: "nat \<Rightarrow> tcpListener \<Rightarrow> 'm tcp_stack_scheme \<Rightarrow> (nat \<times> tcp_effect list) option \<times> 'm tcp_stack_scheme" where
  "drain_one lid l s =
     (case tl_backlog l of
        [] \<Rightarrow> (None, s)
      | cid # rest \<Rightarrow>
          let s1 = s\<lparr>td_lstore := (td_lstore s)(lid \<mapsto> l\<lparr>tl_backlog := rest\<rparr>)\<rparr> in
          (case td_cstore s1 cid of
             None \<Rightarrow> (None, s1)
           | Some c \<Rightarrow> (case tcp_abort c of (c', effs) \<Rightarrow> (Some (cid, effs), put_conn cid c' s1))))"

text \<open>The loop runs once for each connection that waits; the queue gets no new ones.\<close>

fun drain_backlog :: "write_fn \<Rightarrow> nat \<Rightarrow> nat list \<Rightarrow> 'm tcp_stack_scheme \<Rightarrow> 'm tcp_stack_scheme" where
  "drain_backlog wr lid [] s = s"
| "drain_backlog wr lid (_ # rest) s =
     (case td_lstore s lid of
        None \<Rightarrow> s
      | Some l \<Rightarrow>
          (case drain_one lid l s of
             (None, s') \<Rightarrow> drain_backlog wr lid rest s'
           | (Some (cid, effs), s') \<Rightarrow> drain_backlog wr lid rest (run_effects wr cid effs s')))"

definition Close_listener :: "write_fn \<Rightarrow> nat \<Rightarrow> 'm tcp_stack_scheme \<Rightarrow> 'm tcp_stack_scheme" where
  "Close_listener wr lid s =
     (case td_lstore s lid of
        None \<Rightarrow> s
      | Some l \<Rightarrow> if tl_closed l then s else drain_backlog wr lid (tl_backlog l) (close_mark lid s))"


section \<open>What an operation owes the demux\<close>

text \<open>
  The fields of a connection that only the demux changes, and the contract between an
  operation and the effects it returns: a connection that closes asks to be removed, one
  that leaves the handshake gives up its half-open unit, and nothing is asked for too early.
\<close>

definition ident_of :: "tcpConn \<Rightarrow> nat \<times> nat \<times> fourTuple \<times> bool \<times> addr \<times> bool" where
  "ident_of c = (tc_listener c, tc_att c, tc_key c, tc_halfOpenCounted c, tc_halfOpenIP c, tc_liveCounted c)"

definition conn_op_ok :: "tcpConn \<Rightarrow> tcpConn \<Rightarrow> tcp_effect list \<Rightarrow> bool" where
  "conn_op_ok c c' effs \<longleftrightarrow> ident_of c' = ident_of c
     \<and> (tc_state c = stateClosed \<longrightarrow> tc_state c' = stateClosed)
     \<and> (tc_state c \<noteq> stateSynRcvd \<longrightarrow> tc_state c' \<noteq> stateSynRcvd)
     \<and> (RemoveConn \<in> set effs \<longrightarrow> tc_state c' = stateClosed)
     \<and> (ReleaseHalfOpen \<in> set effs \<longrightarrow> tc_state c' \<noteq> stateSynRcvd)
     \<and> (tc_state c \<noteq> stateClosed \<and> tc_state c' = stateClosed \<longrightarrow> RemoveConn \<in> set effs)
     \<and> (tc_state c = stateSynRcvd \<and> tc_state c' \<noteq> stateSynRcvd \<longrightarrow> RemoveConn \<in> set effs \<or> ReleaseHalfOpen \<in> set effs)"

lemma ident_broadcast [simp]: "ident_of (broadcastLocked c) = ident_of c" "tc_state (broadcastLocked c) = tc_state c"
  "ident_of (stopTimersLocked c) = ident_of c" "tc_state (stopTimersLocked c) = tc_state c"
  "ident_of (startTimeWaitLocked c) = ident_of c" "tc_state (startTimeWaitLocked c) = stateTimeWait"
  "ident_of (c\<lparr>tc_state := st\<rparr>) = ident_of c" "ident_of (c\<lparr>tc_err := e\<rparr>) = ident_of c"
  "ident_of (c\<lparr>tc_timer := t\<rparr>) = ident_of c" "ident_of (c\<lparr>tc_timerArmed := b\<rparr>) = ident_of c"
  "ident_of (c\<lparr>tc_sndUna := q\<rparr>) = ident_of c" "ident_of (c\<lparr>tc_retransmitCount := k\<rparr>) = ident_of c"
  "ident_of (c\<lparr>tc_persistProbeCount := k\<rparr>) = ident_of c" "ident_of (c\<lparr>tc_rto := d\<rparr>) = ident_of c"
  "ident_of (c\<lparr>tc_outBuf := b'\<rparr>) = ident_of c" "ident_of (c\<lparr>tc_closeWriteDone := b\<rparr>) = ident_of c"
  by (simp_all add: ident_of_def broadcastLocked_def stopTimersLocked_def startTimeWaitLocked_def)

lemma sendPending_ident: "ident_of (fst (sendPendingLocked b c)) = ident_of c"
  by (auto simp: ident_of_def sendPendingLocked_def Let_def split: prod.splits)

lemma ack_ident: "ident_of (fst (handleAckLocked seg c)) = ident_of c"
proof -
  have "ident_of (c\<lparr>tc_sndWnd := w\<rparr>) = ident_of c" for c w
    by (simp add: ident_of_def)
  moreover have "ident_of (retire_acked a c) = ident_of c" "ident_of (note_fin_acked a c) = ident_of c" for a c
    by (simp_all add: ident_of_def retire_acked_def note_fin_acked_def broadcastLocked_def Let_def)
  ultimately show ?thesis
    by (simp add: handleAckLocked_def Let_def sendPending_ident)
qed

lemma drain_ident: "ident_of (drain_reorder c) = ident_of c"
proof (induction c rule: drain_reorder.induct)
  case (1 c)
  then show ?case
    by (subst drain_reorder.simps) (auto simp: ident_of_def split: option.split)
qed

lemma data_ident:
  assumes "handleEstablishedDataLocked seg c = (c', segs, fin, dropped)"
  shows "ident_of c' = ident_of c"
proof -
  obtain c1 full where c1: "admit_payload seg c = (c1, full)" by fastforce
  obtain c2 b where c2: "take_fin seg (drain_reorder c1) = (c2, b)" by fastforce
  have "ident_of (fst (admit_payload seg c)) = ident_of c" "ident_of (fst (take_fin seg x)) = ident_of x" for x
    by (simp_all add: ident_of_def admit_payload_def take_fin_def Let_def)
  then have i: "ident_of c2 = ident_of c" "ident_of c1 = ident_of c"
    using c1 c2 drain_ident [of c1] by (metis fst_conv)+
  have upd: "ident_of (c\<lparr>tc_reorder := r\<rparr>) = ident_of c"
    "ident_of (c\<lparr>tc_reorder := r, tc_hasPendingFIN := p, tc_pendingFINSeq := q\<rparr>) = ident_of c" for r p q
    by (simp_all add: ident_of_def)
  show ?thesis
    using assms c1 c2 i upd
    by (auto simp: handleEstablishedDataLocked_def handle_in_order_def handle_out_of_order_def Let_def split: if_splits)
qed

lemma ack_and_data_ident:
  assumes "ack_and_data seg c = (c', segs, fin, dropped)"
  shows "ident_of c' = ident_of c"
proof -
  obtain c1 s1 where a: "handleAckLocked seg c = (c1, s1)"
    by fastforce
  obtain s2 where "handleEstablishedDataLocked seg c1 = (c', s2, fin, dropped)"
    using assms a by (auto simp: ack_and_data_def split: prod.splits)
  from data_ident [OF this] ack_ident [of seg c] a show ?thesis by simp
qed

lemma effect_sets [simp]: "RemoveConn \<notin> set (drop_count d)" "ReleaseHalfOpen \<notin> set (drop_count d)"
  "RemoveConn \<notin> set (send_effect segs)" "ReleaseHalfOpen \<notin> set (send_effect segs)"
  by (simp_all add: drop_count_def send_effect_def)

lemma handleSegment_contract:
  assumes "handleSegment seg c = (c', effs)"
  shows "conn_op_ok c c' effs"
proof -
  obtain c1 s1 where a: "handleAckLocked seg c = (c1, s1)"
    by fastforce
  obtain c2 s2 f2 d2 where d: "ack_and_data seg c = (c2, s2, f2, d2)"
    by (rule prod_cases4)
  define h where "h = c\<lparr>tc_sndUna := sg_ack seg, tc_state := stateEstablished, tc_timer := None,
                          tc_timerArmed := False\<rparr>"
  obtain c3 s3 f3 d3 where e: "handleEstablishedDataLocked seg h = (c3, s3, f3, d3)"
    by (rule prod_cases4)
  have f: "ident_of c1 = ident_of c" "ident_of c2 = ident_of c" "ident_of c3 = ident_of c"
    "tc_state c1 = tc_state c" "tc_state c2 = tc_state c" "tc_state c3 = stateEstablished"
    using ack_ident [of seg c] handleAck_state [of seg c] a ack_and_data_ident [OF d] data_ident [OF e]
      ack_and_data_state [OF d] data_state [OF e] by (simp_all add: h_def)
  show ?thesis
  proof (cases "has_flag flagRST seg")
    case True
    then show ?thesis
      using assms by (auto simp: handleSegment_def conn_op_ok_def split: if_splits)
  next
    case False
    then show ?thesis
      using assms a d e f unfolding handleSegment_def h_def [symmetric]
      by (cases "tc_state c") (auto simp: conn_op_ok_def Let_def split: if_splits)
  qed
qed

lemma give_up_contract: "tc_state c \<noteq> stateClosed \<Longrightarrow> ident_of c1 = ident_of c \<Longrightarrow> give_up c1 = (c', effs)
    \<Longrightarrow> conn_op_ok c c' effs"
  by (auto simp: give_up_def conn_op_ok_def)

lemma quiet_contract:
  "ident_of c' = ident_of c \<Longrightarrow> tc_state c' = tc_state c \<Longrightarrow> RemoveConn \<notin> set effs \<Longrightarrow> ReleaseHalfOpen \<notin> set effs
    \<Longrightarrow> conn_op_ok c c' effs"
  by (auto simp: conn_op_ok_def)

lemma timer_contract:
  assumes "timer_fires m c = (c', effs)"
  shows "conn_op_ok c c' effs"
proof -
  let ?c = "c\<lparr>tc_timer := None\<rparr>"
  have bk: "ident_of c1 = ident_of c" "tc_state c1 = tc_state c" if "backoff ?c = Some c1" for c1
    using that by (auto simp: backoff_def Let_def split: if_splits)
  obtain c2 segs where p: "sendPendingLocked True (?c\<lparr>tc_persistProbeCount := Suc (tc_persistProbeCount c)\<rparr>) = (c2, segs)"
    by fastforce
  have p2: "ident_of c2 = ident_of c" "tc_state c2 = tc_state c"
    using sendPending_ident [of True "?c\<lparr>tc_persistProbeCount := Suc (tc_persistProbeCount c)\<rparr>"]
      sendPending_state [of True "?c\<lparr>tc_persistProbeCount := Suc (tc_persistProbeCount c)\<rparr>"] p by simp_all
  note gv = give_up_contract [of c "?c\<lparr>tc_retransmitCount := Suc (tc_retransmitCount c)\<rparr>" c' effs]
    give_up_contract [of c "?c\<lparr>tc_persistProbeCount := Suc (tc_persistProbeCount c)\<rparr>" c' effs]
  have wait: "conn_op_ok c (broadcastLocked (stopTimersLocked (?c\<lparr>tc_state := stateClosed\<rparr>))) [RemoveConn]"
    by (auto simp: conn_op_ok_def)
  show ?thesis
  proof (cases "backoff ?c")
    case None
    then show ?thesis
      using assms gv wait p p2 quiet_contract [of c' c effs] unfolding timer_fires_def onRTOFired_def
      by (auto simp: Let_def split: if_splits)
  next
    case (Some c1)
    then show ?thesis
      using assms gv wait p p2 quiet_contract [of c' c effs] bk [OF Some] unfolding timer_fires_def onRTOFired_def
      by (auto simp: Let_def split: if_splits)
  qed
qed

lemma close_contracts:
  "onAttachmentDetached c = (c', effs) \<Longrightarrow> conn_op_ok c c' effs"
  "tcp_abort c = (c', effs) \<Longrightarrow> conn_op_ok c c' effs"
  "TCP_CloseWrite c = (c', effs) \<Longrightarrow> conn_op_ok c c' effs"
  "TCP_Close c = (c', effs) \<Longrightarrow> conn_op_ok c c' effs"
proof -
  show "onAttachmentDetached c = (c', effs) \<Longrightarrow> conn_op_ok c c' effs"
    "tcp_abort c = (c', effs) \<Longrightarrow> conn_op_ok c c' effs"
    using give_up_contract [of c c c' effs] quiet_contract [of c c "[]"]
    by (auto simp: onAttachmentDetached_def tcp_abort_def split: if_splits) (auto simp: conn_op_ok_def)
  have fin: "ident_of (c\<lparr>tc_finSeq := q, tc_finSent := True\<rparr>) = ident_of c" for q
    by (simp add: ident_of_def)
  show cw: "TCP_CloseWrite c = (c', effs) \<Longrightarrow> conn_op_ok c c' effs"
    by (cases "tc_state c") (auto simp: TCP_CloseWrite_def sendFINLocked_def conn_op_ok_def Let_def fin split: if_splits)
  show "TCP_Close c = (c', effs) \<Longrightarrow> conn_op_ok c c' effs"
    using cw by (auto simp: TCP_Close_def conn_op_ok_def split: if_splits)
qed

lemma write_contract:
  assumes "Write_pass rest c = (r, n, c', effs)"
  shows "conn_op_ok c c' effs"
proof -
  have "ident_of (fst (sendPendingLocked False (c\<lparr>tc_outBuf := x\<rparr>))) = ident_of c"
    "tc_state (fst (sendPendingLocked False (c\<lparr>tc_outBuf := x\<rparr>))) = tc_state c" for x
    by (simp_all add: sendPending_ident sendPending_state)
  then have "ident_of c' = ident_of c \<and> tc_state c' = tc_state c \<and> RemoveConn \<notin> set effs \<and> ReleaseHalfOpen \<notin> set effs"
    using assms by (auto simp: Write_pass_def Let_def split: if_splits option.splits prod.splits) (metis fst_conv)+
  then show ?thesis
    by (intro quiet_contract) simp_all
qed

lemma read_contract: "Read_iter n c = (r, c') \<Longrightarrow> conn_op_ok c c' []"
  by (intro quiet_contract) (auto simp: Read_iter_def ident_of_def split: if_splits option.splits)

end
