(* ===== verification/Tcp_Demux.thy ===== *)
theory Tcp_Demux
  imports Tcp_Listener
begin

text \<open>
  The demux while its goroutines interleave: the step relation, the invariant that ties the
  budgets to the connections, the isolation of sessions from each other, and the stack with
  both transports.
\<close>

section \<open>The demux under interleaving\<close>

text \<open>
  A thread is what is left of the effects of one call, with the connection they belong to.
  One clause per operation: the part under the mutex is one step that leaves a thread, and
  every effect of a thread is a step of its own, so the threads run in any interleaving. A
  SYN is one step: the packets of one address come from one read loop, and what other
  goroutines do in between only releases units.
\<close>

type_synonym threads = "(nat \<times> tcp_effect list) list"

inductive conn_op :: "tcpConn \<Rightarrow> tcpConn \<Rightarrow> tcp_effect list \<Rightarrow> bool" where
  co_timer: "timer_fires m c = (c', effs) \<Longrightarrow> conn_op c c' effs"
| co_detached: "onAttachmentDetached c = (c', effs) \<Longrightarrow> conn_op c c' effs"
| co_read: "Read_iter n c = (r, c') \<Longrightarrow> conn_op c c' []"
| co_write: "Write_pass rest c = (r, n, c', effs) \<Longrightarrow> conn_op c c' effs"
| co_closeWrite: "TCP_CloseWrite c = (c', effs) \<Longrightarrow> conn_op c c' effs"
| co_close: "TCP_Close c = (c', effs) \<Longrightarrow> conn_op c c' effs"
| co_deadlines: "conn_op c (c\<lparr>tc_readDeadline := r, tc_writeDeadline := w\<rparr>) []"

definition threads_of :: "(nat \<times> tcp_effect list) option \<Rightarrow> threads" where
  "threads_of t = (case t of None \<Rightarrow> [] | Some th \<Rightarrow> [th])"

inductive tcp_sys :: "'m tcp_stack_scheme \<Rightarrow> 'm tcp_stack_scheme \<Rightarrow> threads \<Rightarrow> bool" for s0 where
  ts_start: "tcp_sys s0 s0 []"
| ts_listen: "tcp_sys s0 s ps \<Longrightarrow> ListenTCP port s = (r, s') \<Longrightarrow> tcp_sys s0 s' ps"
| ts_packet: "tcp_sys s0 s ps \<Longrightarrow> st_tcpHandler s \<Longrightarrow> tcp_packet wr isn n src dst payload s = (t, s') \<Longrightarrow>
    tcp_sys s0 s' (ps @ threads_of t)"
| ts_op: "tcp_sys s0 s ps \<Longrightarrow> td_cstore s cid = Some c \<Longrightarrow> conn_op c c' effs \<Longrightarrow>
    tcp_sys s0 (put_conn cid c' s) (ps @ [(cid, effs)])"
| ts_effect: "tcp_sys s0 s (ps @ (cid, e # effs) # qs) \<Longrightarrow> effect_step wr cid e s = (s', more_effs) \<Longrightarrow>
    tcp_sys s0 s' (ps @ (cid, more_effs @ effs) # qs)"
| ts_accept: "tcp_sys s0 s ps \<Longrightarrow> td_lstore s lid = Some l \<Longrightarrow> Accept pick l = (r, l') \<Longrightarrow>
    tcp_sys s0 (s\<lparr>td_lstore := (td_lstore s)(lid \<mapsto> l')\<rparr>) ps"
| ts_close: "tcp_sys s0 s ps \<Longrightarrow> tcp_sys s0 (close_mark lid s) ps"
| ts_drain: "tcp_sys s0 s ps \<Longrightarrow> td_lstore s lid = Some l \<Longrightarrow> tl_closed l \<Longrightarrow> drain_one lid l s = (t, s') \<Longrightarrow>
    tcp_sys s0 s' (ps @ threads_of t)"
| ts_stack: "tcp_sys s0 s ps \<Longrightarrow> udp_stack.more s' = udp_stack.more s \<Longrightarrow> st_tcpHandler s' = st_tcpHandler s \<Longrightarrow>
    tcp_sys s0 s' ps"

lemma conn_op_contract: "conn_op c c' effs \<Longrightarrow> conn_op_ok c c' effs"
proof (induction rule: conn_op.induct)
  case (co_deadlines c r w)
  then show ?case by (intro quiet_contract) (simp_all add: ident_of_def)
qed (auto intro: timer_contract close_contracts read_contract write_contract)

section \<open>The invariant\<close>

definition asked :: "tcp_effect \<Rightarrow> nat \<Rightarrow> threads \<Rightarrow> bool" where
  "asked e cid ps \<longleftrightarrow> (\<exists>effs. (cid, effs) \<in> set ps \<and> e \<in> set effs)"

text \<open>
  A connection that is not closed is in the table and counted, one in the handshake is
  counted as half-open; a closed connection that is still counted or in the table, and a
  half-open unit of a connection past the handshake, are about to be released by a thread.
\<close>

definition conn_inv :: "(fourTuple \<Rightarrow> nat option) \<Rightarrow> threads \<Rightarrow> nat \<Rightarrow> tcpConn \<Rightarrow> bool" where
  "conn_inv table ps cid c \<longleftrightarrow> tc_halfOpenIP c = ft_remoteIP (tc_key c)
     \<and> (tc_state c \<noteq> stateClosed \<longrightarrow> table (tc_key c) = Some cid \<and> tc_liveCounted c)
     \<and> (tc_state c = stateSynRcvd \<longrightarrow> tc_halfOpenCounted c)
     \<and> (tc_state c = stateClosed \<and> (tc_liveCounted c \<or> table (tc_key c) = Some cid) \<longrightarrow> asked RemoveConn cid ps)
     \<and> (tc_state c \<noteq> stateSynRcvd \<and> tc_halfOpenCounted c \<longrightarrow> asked RemoveConn cid ps \<or> asked ReleaseHalfOpen cid ps)
     \<and> (asked RemoveConn cid ps \<longrightarrow> tc_state c = stateClosed)
     \<and> (asked ReleaseHalfOpen cid ps \<longrightarrow> tc_state c \<noteq> stateSynRcvd)"

definition flagged :: "(tcpConn \<Rightarrow> bool) \<Rightarrow> (nat \<Rightarrow> tcpConn option) \<Rightarrow> nat set" where
  "flagged P st = {cid. \<exists>c. st cid = Some c \<and> P c}"

abbreviation half_open_at :: "addr \<Rightarrow> tcpConn \<Rightarrow> bool" where
  "half_open_at ip c \<equiv> tc_halfOpenCounted c \<and> tc_halfOpenIP c = ip"

abbreviation live_at :: "addr \<Rightarrow> tcpConn \<Rightarrow> bool" where
  "live_at ip c \<equiv> tc_liveCounted c \<and> tc_halfOpenIP c = ip"

definition demux_inv :: "'m tcp_stack_scheme \<Rightarrow> threads \<Rightarrow> bool" where
  "demux_inv s ps \<longleftrightarrow>
     (\<forall>cid c. td_cstore s cid = Some c \<longrightarrow> cid < td_cnext s \<and> conn_inv (td_conns s) ps cid c)
     \<and> (\<forall>k cid. td_conns s k = Some cid \<longrightarrow> (\<exists>c. td_cstore s cid = Some c \<and> tc_key c = k))
     \<and> (\<forall>cid effs. (cid, effs) \<in> set ps \<longrightarrow> td_cstore s cid \<noteq> None)
     \<and> (\<forall>ip. counter (td_halfOpen s) ip = card (flagged (half_open_at ip) (td_cstore s))
          \<and> counter (td_halfOpen s) ip \<le> maxHalfOpenPerSession)
     \<and> (\<forall>ip. counter (td_liveConns s) ip = card (flagged (live_at ip) (td_cstore s))
          \<and> counter (td_liveConns s) ip \<le> maxLiveConnsPerSession)
     \<and> (\<not> st_tcpHandler s \<longrightarrow> (\<forall>cid. td_cstore s cid = None))"

lemma demux_invI:
  assumes "\<And>cid c. td_cstore s cid = Some c \<Longrightarrow> cid < td_cnext s"
    and "\<And>cid c. td_cstore s cid = Some c \<Longrightarrow> conn_inv (td_conns s) ps cid c"
    and "\<And>k cid. td_conns s k = Some cid \<Longrightarrow> \<exists>c. td_cstore s cid = Some c \<and> tc_key c = k"
    and "\<And>cid effs. (cid, effs) \<in> set ps \<Longrightarrow> td_cstore s cid \<noteq> None"
    and "\<And>ip. counter (td_halfOpen s) ip = card (flagged (half_open_at ip) (td_cstore s))"
    and "\<And>ip. counter (td_halfOpen s) ip \<le> maxHalfOpenPerSession"
    and "\<And>ip. counter (td_liveConns s) ip = card (flagged (live_at ip) (td_cstore s))"
    and "\<And>ip. counter (td_liveConns s) ip \<le> maxLiveConnsPerSession"
    and "\<And>cid. \<not> st_tcpHandler s \<Longrightarrow> td_cstore s cid = None"
  shows "demux_inv s ps"
  unfolding demux_inv_def using assms by blast

lemma demux_invD:
  assumes "demux_inv s ps"
  shows "td_cstore s cid = Some c \<Longrightarrow> cid < td_cnext s"
    and "td_cstore s cid = Some c \<Longrightarrow> conn_inv (td_conns s) ps cid c"
    and "td_conns s k = Some cid \<Longrightarrow> \<exists>c. td_cstore s cid = Some c \<and> tc_key c = k"
    and "(cid, effs) \<in> set ps \<Longrightarrow> td_cstore s cid \<noteq> None"
    and "counter (td_halfOpen s) ip = card (flagged (half_open_at ip) (td_cstore s))"
    and "counter (td_halfOpen s) ip \<le> maxHalfOpenPerSession"
    and "counter (td_liveConns s) ip = card (flagged (live_at ip) (td_cstore s))"
    and "counter (td_liveConns s) ip \<le> maxLiveConnsPerSession"
    and "\<not> st_tcpHandler s \<Longrightarrow> td_cstore s cid = None"
  using assms unfolding demux_inv_def by blast+

lemma flagged_upd: "flagged P (st(cid \<mapsto> c)) = (if P c then insert cid (flagged P st) else flagged P st - {cid})"
  by (auto simp: flagged_def split: if_splits)

lemma flagged_finite: "demux_inv s ps \<Longrightarrow> finite (flagged P (td_cstore s))"
  by (rule finite_subset [of _ "{..<td_cnext s}"]) (auto simp: flagged_def demux_inv_def)

lemma counter_decrement: "counter (decrement ip m) x = (if x = ip then counter m ip - 1 else counter m x)"
  by (auto simp: counter_def decrement_def split: option.split)

lemma counter_upd: "counter (m(ip \<mapsto> n)) x = (if x = ip then n else counter m x)"
  by (simp add: counter_def)

lemma asked_append: "asked e cid (ps @ qs) \<longleftrightarrow> asked e cid ps \<or> asked e cid qs"
  by (auto simp: asked_def)

lemma asked_Cons: "asked e cid ((x, effs) # ps) \<longleftrightarrow> cid = x \<and> e \<in> set effs \<or> asked e cid ps"
  by (auto simp: asked_def)

lemma asked_Nil [simp]: "\<not> asked e cid []"
  by (simp add: asked_def)

text \<open>The fields of the demux, which sending and the layers below leave alone.\<close>

lemma tcp_frame:
  assumes "udp_stack.more s' = udp_stack.more s"
  shows "td_listeners s' = td_listeners s" "td_conns s' = td_conns s" "td_halfOpen s' = td_halfOpen s"
    "td_liveConns s' = td_liveConns s" "td_lstore s' = td_lstore s" "td_cstore s' = td_cstore s"
    "td_cnext s' = td_cnext s" "td_lnext s' = td_lnext s"
  using assms by (cases s; cases s'; simp)+

lemma udp_more: "stack.more s' = stack.more s \<Longrightarrow> udp_stack.more s' = udp_stack.more s"
  for s s' :: "'m tcp_stack_scheme"
  by (cases s; cases s'; simp)

lemma demux_inv_frame:
  assumes "demux_inv s ps" and "udp_stack.more s' = udp_stack.more s" and "st_tcpHandler s' = st_tcpHandler s"
  shows "demux_inv s' ps"
  using assms(1) unfolding demux_inv_def tcp_frame [OF assms(2)] assms(3) .

text \<open>The part of the invariant on one connection when an operation has run.\<close>

lemma conn_inv_op:
  assumes "conn_inv table ps cid c" and "conn_op_ok c c' effs"
    and "asked RemoveConn cid ps' \<longleftrightarrow> asked RemoveConn cid ps \<or> RemoveConn \<in> set effs"
    and "asked ReleaseHalfOpen cid ps' \<longleftrightarrow> asked ReleaseHalfOpen cid ps \<or> ReleaseHalfOpen \<in> set effs"
  shows "conn_inv table ps' cid c'"
  using assms unfolding conn_inv_def conn_op_ok_def ident_of_def prod.inject by metis

lemma conn_inv_asked:
  assumes "conn_inv table ps cid c" and "asked RemoveConn cid ps' \<longleftrightarrow> asked RemoveConn cid ps"
    and "asked ReleaseHalfOpen cid ps' \<longleftrightarrow> asked ReleaseHalfOpen cid ps"
  shows "conn_inv table ps' cid c"
  using assms(1) unfolding conn_inv_def assms(2,3) .

lemma inv_op:
  assumes inv: "demux_inv s ps" and c: "td_cstore s cid = Some c" and op: "conn_op_ok c c' effs"
    and rem: "\<And>x. asked RemoveConn x ps' \<longleftrightarrow> asked RemoveConn x ps \<or> x = cid \<and> RemoveConn \<in> set effs"
    and rel: "\<And>x. asked ReleaseHalfOpen x ps' \<longleftrightarrow> asked ReleaseHalfOpen x ps \<or> x = cid \<and> ReleaseHalfOpen \<in> set effs"
    and ths: "fst ` set ps' \<subseteq> insert cid (fst ` set ps)"
  shows "demux_inv (put_conn cid c' s) ps'"
proof -
  let ?s = "put_conn cid c' s"
  have id: "tc_key c' = tc_key c" "tc_halfOpenCounted c' = tc_halfOpenCounted c"
    "tc_halfOpenIP c' = tc_halfOpenIP c" "tc_liveCounted c' = tc_liveCounted c"
    using op by (simp_all add: conn_op_ok_def ident_of_def)
  have fl: "flagged (half_open_at ip) (td_cstore ?s) = flagged (half_open_at ip) (td_cstore s)"
    "flagged (live_at ip) (td_cstore ?s) = flagged (live_at ip) (td_cstore s)" for ip
    using c id by (auto simp: put_conn_def flagged_def)
  have eqs: "td_conns ?s = td_conns s" "td_cnext ?s = td_cnext s" "td_halfOpen ?s = td_halfOpen s"
    "td_liveConns ?s = td_liveConns s" "st_tcpHandler ?s = st_tcpHandler s"
    "td_cstore ?s = (td_cstore s)(cid \<mapsto> c')"
    by (simp_all add: put_conn_def)
  show ?thesis
  proof (rule demux_invI, unfold eqs(1-5) fl)
    fix x d
    assume d: "td_cstore ?s x = Some d"
    show "x < td_cnext s"
      using d c demux_invD(1) [OF inv] by (auto simp: eqs split: if_splits)
    show "conn_inv (td_conns s) ps' x d"
    proof (cases "x = cid")
      case True
      from conn_inv_op [OF demux_invD(2) [OF inv c] op, of ps'] rem [of cid] rel [of cid] d True show ?thesis
        by (simp add: eqs)
    next
      case False
      then have "conn_inv (td_conns s) ps x d"
        using d demux_invD(2) [OF inv] by (simp add: eqs)
      then show ?thesis
        by (rule conn_inv_asked) (use rem rel False in simp_all)
    qed
  next
    fix k x
    assume "td_conns s k = Some x"
    from demux_invD(3) [OF inv this] c id(1) show "\<exists>d. td_cstore ?s x = Some d \<and> tc_key d = k"
      by (auto simp: eqs)
  next
    fix x es
    assume "(x, es) \<in> set ps'"
    then have "x \<in> insert cid (fst ` set ps)"
      using ths by force
    then show "td_cstore ?s x \<noteq> None"
      using demux_invD(4) [OF inv] by (auto simp: eqs)
  next
    fix x
    assume "\<not> st_tcpHandler s"
    with demux_invD(9) [OF inv] c show "td_cstore ?s x = None"
      by (metis option.distinct(1))
  qed (rule demux_invD [OF inv])+
qed

lemma demux_inv_cong:
  assumes "demux_inv s ps" and "td_cstore s' = td_cstore s" "td_conns s' = td_conns s" "td_cnext s' = td_cnext s"
    "td_halfOpen s' = td_halfOpen s" "td_liveConns s' = td_liveConns s" "st_tcpHandler s' = st_tcpHandler s"
  shows "demux_inv s' ps"
  using assms(1) unfolding demux_inv_def assms(2-7) .

lemma inv_threads:
  assumes "demux_inv s ps" and "\<And>x c. td_cstore s x = Some c \<Longrightarrow> conn_inv (td_conns s) ps' x c"
    and "fst ` set ps' \<subseteq> fst ` set ps"
  shows "demux_inv s ps'"
proof (rule demux_invI)
  fix x es
  assume "(x, es) \<in> set ps'"
  with assms(3) have "x \<in> fst ` set ps" by force
  then show "td_cstore s x \<noteq> None"
    using demux_invD(4) [OF assms(1)] by auto
qed (use assms(2) demux_invD [OF assms(1)] in blast)+

lemma inv_same_asked:
  assumes "demux_inv s ps" and "\<And>x. asked RemoveConn x ps' \<longleftrightarrow> asked RemoveConn x ps"
    and "\<And>x. asked ReleaseHalfOpen x ps' \<longleftrightarrow> asked ReleaseHalfOpen x ps" and "fst ` set ps' \<subseteq> fst ` set ps"
  shows "demux_inv s ps'"
  by (rule inv_threads [OF assms(1) _ assms(4)])
    (rule conn_inv_asked [OF demux_invD(2) [OF assms(1)] assms(2,3)])

lemma conn_inv_cleared:
  assumes "conn_inv table ps cid c"
  shows "tc_state c \<noteq> stateSynRcvd \<Longrightarrow> conn_inv table ps cid (c\<lparr>tc_halfOpenCounted := False\<rparr>)"
    and "tc_state c = stateClosed \<Longrightarrow> conn_inv table ps cid (c\<lparr>tc_liveCounted := False\<rparr>)"
    and "tc_state c = stateClosed \<Longrightarrow> conn_inv (table(tc_key c := None)) ps cid c"
    and "table k \<noteq> Some cid \<Longrightarrow> conn_inv (table(k := None)) ps cid c"
proof -
  have sel: "tc_state (c\<lparr>tc_halfOpenCounted := False\<rparr>) = tc_state c" "tc_key (c\<lparr>tc_halfOpenCounted := False\<rparr>) = tc_key c"
    "tc_halfOpenIP (c\<lparr>tc_halfOpenCounted := False\<rparr>) = tc_halfOpenIP c"
    "tc_liveCounted (c\<lparr>tc_halfOpenCounted := False\<rparr>) = tc_liveCounted c" "\<not> tc_halfOpenCounted (c\<lparr>tc_halfOpenCounted := False\<rparr>)"
    "tc_state (c\<lparr>tc_liveCounted := False\<rparr>) = tc_state c" "tc_key (c\<lparr>tc_liveCounted := False\<rparr>) = tc_key c"
    "tc_halfOpenIP (c\<lparr>tc_liveCounted := False\<rparr>) = tc_halfOpenIP c" "\<not> tc_liveCounted (c\<lparr>tc_liveCounted := False\<rparr>)"
    "tc_halfOpenCounted (c\<lparr>tc_liveCounted := False\<rparr>) = tc_halfOpenCounted c"
    by simp_all
  show "tc_state c \<noteq> stateSynRcvd \<Longrightarrow> conn_inv table ps cid (c\<lparr>tc_halfOpenCounted := False\<rparr>)"
    using assms unfolding conn_inv_def using sel by metis
  show "tc_state c = stateClosed \<Longrightarrow> conn_inv table ps cid (c\<lparr>tc_liveCounted := False\<rparr>)"
    using assms unfolding conn_inv_def using sel by metis
  show "tc_state c = stateClosed \<Longrightarrow> conn_inv (table(tc_key c := None)) ps cid c"
    using assms unfolding conn_inv_def fun_upd_apply by (metis option.distinct(1))
  show "table k \<noteq> Some cid \<Longrightarrow> conn_inv (table(k := None)) ps cid c"
    using assms unfolding conn_inv_def fun_upd_apply by (metis option.distinct(1))
qed

text \<open>Clearing a flag takes the connection out of the set that the counter counts.\<close>

lemma card_cleared:
  assumes "demux_inv s ps" and "td_cstore s cid = Some c" and "\<not> P c'"
  shows "card (flagged P ((td_cstore s)(cid \<mapsto> c'))) = card (flagged P (td_cstore s)) - of_bool (P c)"
proof (cases "P c")
  case True
  then have "cid \<in> flagged P (td_cstore s)"
    using assms(2) by (auto simp: flagged_def)
  then show ?thesis
    using assms(3) True flagged_finite [OF assms(1), of P] by (simp add: flagged_upd card_Diff_singleton)
next
  case False
  then have "flagged P (td_cstore s) - {cid} = flagged P (td_cstore s)"
    using assms(2) by (auto simp: flagged_def)
  with False assms(3) show ?thesis
    by (simp add: flagged_upd)
qed

lemma releaseHalfOpen_fields:
  assumes "td_cstore s cid = Some c"
  shows "td_cstore (releaseHalfOpen cid s) = (td_cstore s)(cid \<mapsto> c\<lparr>tc_halfOpenCounted := False\<rparr>)"
    "td_conns (releaseHalfOpen cid s) = td_conns s" "td_cnext (releaseHalfOpen cid s) = td_cnext s"
    "td_liveConns (releaseHalfOpen cid s) = td_liveConns s" "st_tcpHandler (releaseHalfOpen cid s) = st_tcpHandler s"
    "counter (td_halfOpen (releaseHalfOpen cid s)) ip = counter (td_halfOpen s) ip - of_bool (half_open_at ip c)"
  using assms by (auto simp: releaseHalfOpen_def put_conn_def Let_def counter_decrement)

lemma releaseLiveConn_fields:
  assumes "td_cstore s cid = Some c"
  shows "td_cstore (releaseLiveConn cid s) = (td_cstore s)(cid \<mapsto> c\<lparr>tc_liveCounted := False\<rparr>)"
    "td_conns (releaseLiveConn cid s) = td_conns s" "td_cnext (releaseLiveConn cid s) = td_cnext s"
    "td_halfOpen (releaseLiveConn cid s) = td_halfOpen s" "st_tcpHandler (releaseLiveConn cid s) = st_tcpHandler s"
    "counter (td_liveConns (releaseLiveConn cid s)) ip = counter (td_liveConns s) ip - of_bool (live_at ip c)"
  using assms by (auto simp: releaseLiveConn_def put_conn_def Let_def counter_decrement)

text \<open>An update of one connection that keeps its key, with new counters.\<close>

lemma inv_update:
  assumes inv: "demux_inv s ps" and c: "td_cstore s cid = Some c" and key: "tc_key c' = tc_key c"
    and st: "td_cstore s' = (td_cstore s)(cid \<mapsto> c')" and eqs: "td_conns s' = td_conns s"
      "td_cnext s' = td_cnext s" "st_tcpHandler s' = st_tcpHandler s"
    and ci: "conn_inv (td_conns s) ps cid c'"
    and ho: "\<And>ip. counter (td_halfOpen s') ip = card (flagged (half_open_at ip) (td_cstore s'))
      \<and> counter (td_halfOpen s') ip \<le> maxHalfOpenPerSession"
    and li: "\<And>ip. counter (td_liveConns s') ip = card (flagged (live_at ip) (td_cstore s'))
      \<and> counter (td_liveConns s') ip \<le> maxLiveConnsPerSession"
  shows "demux_inv s' ps"
proof (rule demux_invI, unfold eqs)
  fix x d
  assume d: "td_cstore s' x = Some d"
  show "x < td_cnext s"
    using d c demux_invD(1) [OF inv] by (auto simp: st split: if_splits)
  show "conn_inv (td_conns s) ps x d"
    using d ci demux_invD(2) [OF inv] by (auto simp: st split: if_splits)
next
  fix k x
  assume "td_conns s k = Some x"
  from demux_invD(3) [OF inv this] c key show "\<exists>d. td_cstore s' x = Some d \<and> tc_key d = k"
    by (auto simp: st)
next
  fix x es
  assume "(x, es) \<in> set ps"
  from demux_invD(4) [OF inv this] show "td_cstore s' x \<noteq> None"
    by (simp add: st)
next
  fix x
  assume "\<not> st_tcpHandler s"
  with demux_invD(9) [OF inv] c show "td_cstore s' x = None"
    by (metis option.distinct(1))
qed (use ho li in blast)+

lemma releaseHalfOpen_inv:
  assumes inv: "demux_inv s ps" and c: "td_cstore s cid = Some c" and st: "tc_state c \<noteq> stateSynRcvd"
  shows "demux_inv (releaseHalfOpen cid s) ps"
proof (rule inv_update [OF inv c _ releaseHalfOpen_fields(1) [OF c]])
  let ?c = "c\<lparr>tc_halfOpenCounted := False\<rparr>"
  show "conn_inv (td_conns s) ps cid ?c"
    using conn_inv_cleared(1) [OF demux_invD(2) [OF inv c] st] .
  fix ip
  have "card (flagged (half_open_at ip) ((td_cstore s)(cid \<mapsto> ?c)))
      = card (flagged (half_open_at ip) (td_cstore s)) - of_bool (half_open_at ip c)"
    by (rule card_cleared [OF inv c]) simp
  then show "counter (td_halfOpen (releaseHalfOpen cid s)) ip
      = card (flagged (half_open_at ip) (td_cstore (releaseHalfOpen cid s)))
      \<and> counter (td_halfOpen (releaseHalfOpen cid s)) ip \<le> maxHalfOpenPerSession"
    unfolding releaseHalfOpen_fields [OF c]
    using demux_invD(5,6) [OF inv, of ip] by simp
  have "flagged (live_at ip) ((td_cstore s)(cid \<mapsto> ?c)) = flagged (live_at ip) (td_cstore s)"
    using c by (auto simp: flagged_def)
  then show "counter (td_liveConns (releaseHalfOpen cid s)) ip
      = card (flagged (live_at ip) (td_cstore (releaseHalfOpen cid s)))
      \<and> counter (td_liveConns (releaseHalfOpen cid s)) ip \<le> maxLiveConnsPerSession"
    unfolding releaseHalfOpen_fields [OF c] using demux_invD(7,8) [OF inv, of ip] by simp
qed (simp_all add: releaseHalfOpen_fields [OF c])

lemma releaseLiveConn_inv:
  assumes inv: "demux_inv s ps" and c: "td_cstore s cid = Some c" and st: "tc_state c = stateClosed"
  shows "demux_inv (releaseLiveConn cid s) ps"
proof (rule inv_update [OF inv c _ releaseLiveConn_fields(1) [OF c]])
  let ?c = "c\<lparr>tc_liveCounted := False\<rparr>"
  show "conn_inv (td_conns s) ps cid ?c"
    using conn_inv_cleared(2) [OF demux_invD(2) [OF inv c] st] .
  fix ip
  have "card (flagged (live_at ip) ((td_cstore s)(cid \<mapsto> ?c)))
      = card (flagged (live_at ip) (td_cstore s)) - of_bool (live_at ip c)"
    by (rule card_cleared [OF inv c]) simp
  then show "counter (td_liveConns (releaseLiveConn cid s)) ip
      = card (flagged (live_at ip) (td_cstore (releaseLiveConn cid s)))
      \<and> counter (td_liveConns (releaseLiveConn cid s)) ip \<le> maxLiveConnsPerSession"
    unfolding releaseLiveConn_fields [OF c]
    using demux_invD(7,8) [OF inv, of ip] by simp
  have "flagged (half_open_at ip) ((td_cstore s)(cid \<mapsto> ?c)) = flagged (half_open_at ip) (td_cstore s)"
    using c by (auto simp: flagged_def)
  then show "counter (td_halfOpen (releaseLiveConn cid s)) ip
      = card (flagged (half_open_at ip) (td_cstore (releaseLiveConn cid s)))
      \<and> counter (td_halfOpen (releaseLiveConn cid s)) ip \<le> maxHalfOpenPerSession"
    unfolding releaseLiveConn_fields [OF c] using demux_invD(5,6) [OF inv, of ip] by simp
qed (simp_all add: releaseLiveConn_fields [OF c])

definition unlist :: "nat \<Rightarrow> tcpConn \<Rightarrow> 'm tcp_stack_scheme \<Rightarrow> 'm tcp_stack_scheme" where
  "unlist cid c s = (if td_conns s (tc_key c) = Some cid
     then s\<lparr>td_conns := (td_conns s)(tc_key c := None)\<rparr> else s)"

lemma unlist_fields [simp]: "td_cstore (unlist cid c s) = td_cstore s" "td_cnext (unlist cid c s) = td_cnext s"
  "td_halfOpen (unlist cid c s) = td_halfOpen s" "td_liveConns (unlist cid c s) = td_liveConns s"
  "st_tcpHandler (unlist cid c s) = st_tcpHandler s" "td_lstore (unlist cid c s) = td_lstore s"
  "td_listeners (unlist cid c s) = td_listeners s" "td_lnext (unlist cid c s) = td_lnext s"
  by (simp_all add: unlist_def)

lemma unlist_inv:
  assumes inv: "demux_inv s ps" and c: "td_cstore s cid = Some c" and st: "tc_state c = stateClosed"
  shows "demux_inv (unlist cid c s) ps"
proof (rule demux_invI, unfold unlist_fields)
  fix x d
  assume d: "td_cstore s x = Some d"
  note old = demux_invD(2) [OF inv d]
  show "conn_inv (td_conns (unlist cid c s)) ps x d"
  proof (cases "x = cid")
    case True
    then show ?thesis
      using old conn_inv_cleared(3) [OF old] st c d by (simp add: unlist_def)
  next
    case False
    then show ?thesis
      using old conn_inv_cleared(4) [OF old, of "tc_key c"] by (simp add: unlist_def)
  qed
next
  fix k x
  assume "td_conns (unlist cid c s) k = Some x"
  then have "td_conns s k = Some x"
    by (auto simp: unlist_def split: if_splits)
  from demux_invD(3) [OF inv this] show "\<exists>c. td_cstore s x = Some c \<and> tc_key c = k" .
qed (use demux_invD [OF inv] in blast)+

lemma removeConn_inv:
  assumes inv: "demux_inv s ps" and c: "td_cstore s cid = Some c" and st: "tc_state c = stateClosed"
    and ask: "\<And>x. x \<noteq> cid \<Longrightarrow> asked RemoveConn x ps' \<longleftrightarrow> asked RemoveConn x ps"
      "\<And>x. x \<noteq> cid \<Longrightarrow> asked ReleaseHalfOpen x ps' \<longleftrightarrow> asked ReleaseHalfOpen x ps"
    and ths: "fst ` set ps' \<subseteq> fst ` set ps"
  shows "demux_inv (removeConn cid s) ps'"
proof -
  let ?s1 = "unlist cid c s"
  let ?s2 = "releaseHalfOpen cid ?s1"
  let ?c2 = "c\<lparr>tc_halfOpenCounted := False\<rparr>"
  have s: "removeConn cid s = releaseLiveConn cid ?s2"
    using c by (simp add: removeConn_def unlist_def)
  have c1: "td_cstore ?s1 cid = Some c"
    using c by simp
  note f2 = releaseHalfOpen_fields [OF c1]
  have i1: "demux_inv ?s1 ps"
    using unlist_inv [OF inv c st] .
  have i2: "demux_inv ?s2 ps"
    using releaseHalfOpen_inv [OF i1 c1] st by simp
  have c2: "td_cstore ?s2 cid = Some ?c2"
    by (simp add: f2)
  note f3 = releaseLiveConn_fields [OF c2]
  have i3: "demux_inv (releaseLiveConn cid ?s2) ps"
    using releaseLiveConn_inv [OF i2 c2] st by simp
  show ?thesis
    unfolding s
  proof (rule inv_threads [OF i3 _ ths])
    fix x d
    assume d: "td_cstore (releaseLiveConn cid ?s2) x = Some d"
    note old = demux_invD(2) [OF i3 d]
    show "conn_inv (td_conns (releaseLiveConn cid ?s2)) ps' x d"
    proof (cases "x = cid")
      case True
      then have dd: "d = ?c2\<lparr>tc_liveCounted := False\<rparr>"
        using d by (simp add: f3)
      have "td_conns (releaseLiveConn cid ?s2) (tc_key d) \<noteq> Some cid"
        unfolding f3(2) f2(2) dd by (simp add: unlist_def)
      moreover have "tc_state d = stateClosed" "\<not> tc_liveCounted d" "\<not> tc_halfOpenCounted d"
        by (simp_all add: dd st)
      moreover have "tc_halfOpenIP d = ft_remoteIP (tc_key d)"
        using old by (simp add: conn_inv_def)
      ultimately show ?thesis
        unfolding conn_inv_def True by (metis tcpState.distinct)
    next
      case False
      with ask old show ?thesis
        by (intro conn_inv_asked [OF old]) simp_all
    qed
  qed
qed

lemma handleSYN_cases:
  assumes "handleSYN isn lid n src seg s = (r, s')"
  obtains (refused) f where "r = None" "s' = tcp_count f s"
  | (opened) c where "r = Some (td_cnext s)" "counter (td_halfOpen s) src < maxHalfOpenPerSession"
      "counter (td_liveConns s) src < maxLiveConnsPerSession" "tc_key c = packet_key src seg"
      "tc_state c = stateSynRcvd" "tc_halfOpenCounted c" "tc_liveCounted c" "tc_halfOpenIP c = src"
      "s' = s\<lparr>td_halfOpen := (td_halfOpen s)(src \<mapsto> counter (td_halfOpen s) src + 1),
              td_liveConns := (td_liveConns s)(src \<mapsto> counter (td_liveConns s) src + 1),
              td_conns := (td_conns s)(packet_key src seg \<mapsto> td_cnext s),
              td_cstore := (td_cstore s)(td_cnext s \<mapsto> c), td_cnext := td_cnext s + 1\<rparr>"
proof (cases "r = None")
  case True
  have "s = tcp_count (\<lambda>t. t) s"
    by (simp add: tcp_count_def)
  with assms True that(1) show ?thesis
    by (auto simp: handleSYN_def Let_def split: option.splits if_splits)
next
  case False
  let ?c = "(newTCPConn lid n (packet_key src seg) isn (sg_seq seg) (sg_window seg) (syn_mss seg s))
    \<lparr>tc_halfOpenCounted := True, tc_halfOpenIP := src, tc_liveCounted := True\<rparr>"
  show ?thesis
    using assms False
    by (intro that(2) [of ?c])
      (auto simp: handleSYN_def Let_def packet_key_def newTCPConn_def not_le split: option.splits if_splits)
qed

lemma syn_inv:
  assumes inv: "demux_inv s ps" and on: "st_tcpHandler s" and free: "td_conns s (tc_key c) = None"
    and c: "tc_state c = stateSynRcvd" "tc_halfOpenCounted c" "tc_liveCounted c" "tc_halfOpenIP c = ft_remoteIP (tc_key c)"
    and room: "counter (td_halfOpen s) (tc_halfOpenIP c) < maxHalfOpenPerSession"
      "counter (td_liveConns s) (tc_halfOpenIP c) < maxLiveConnsPerSession"
  shows "demux_inv (s\<lparr>td_halfOpen := (td_halfOpen s)(tc_halfOpenIP c \<mapsto> counter (td_halfOpen s) (tc_halfOpenIP c) + 1),
              td_liveConns := (td_liveConns s)(tc_halfOpenIP c \<mapsto> counter (td_liveConns s) (tc_halfOpenIP c) + 1),
              td_conns := (td_conns s)(tc_key c \<mapsto> td_cnext s),
              td_cstore := (td_cstore s)(td_cnext s \<mapsto> c), td_cnext := td_cnext s + 1\<rparr>)
     (ps @ [(td_cnext s, [SendSegments segs])])"
    (is "demux_inv ?s ?ps")
proof -
  have fresh: "td_cstore s (td_cnext s) = None"
    using demux_invD(1) [OF inv, of "td_cnext s"] by (cases "td_cstore s (td_cnext s)") auto
  have ask: "asked e x ?ps \<longleftrightarrow> asked e x ps" if "\<And>l. e \<noteq> SendSegments l" for e x
    using that by (auto simp: asked_append asked_Cons)
  have nobody: "\<not> asked e (td_cnext s) ps" for e
    using demux_invD(4) [OF inv] fresh unfolding asked_def by blast
  have new: "td_cnext s \<notin> flagged P (td_cstore s)" for P
    using fresh by (simp add: flagged_def)
  have card: "card (flagged P ((td_cstore s)(td_cnext s \<mapsto> c))) = card (flagged P (td_cstore s)) + of_bool (P c)" for P
    using new [of P] flagged_finite [OF inv, of P] by (simp add: flagged_upd)
  have eqs: "td_cstore ?s = (td_cstore s)(td_cnext s \<mapsto> c)" "td_cnext ?s = td_cnext s + 1"
    "td_conns ?s = (td_conns s)(tc_key c \<mapsto> td_cnext s)" "st_tcpHandler ?s = st_tcpHandler s"
    "counter (td_halfOpen ?s) ip = counter (td_halfOpen s) ip + of_bool (ip = tc_halfOpenIP c)"
    "counter (td_liveConns ?s) ip = counter (td_liveConns s) ip + of_bool (ip = tc_halfOpenIP c)" for ip
    by (simp_all add: counter_upd)
  show ?thesis
  proof (rule demux_invI, unfold eqs card)
    fix x d
    assume d: "((td_cstore s)(td_cnext s \<mapsto> c)) x = Some d"
    show "x < td_cnext s + 1"
      using d demux_invD(1) [OF inv, of x d] by (auto split: if_splits)
    show "conn_inv ((td_conns s)(tc_key c \<mapsto> td_cnext s)) ?ps x d"
    proof (cases "x = td_cnext s")
      case True
      then show ?thesis
        using d c nobody by (simp add: conn_inv_def ask)
    next
      case False
      then have old: "conn_inv (td_conns s) ps x d"
        using d demux_invD(2) [OF inv] by simp
      have same: "((td_conns s)(tc_key c \<mapsto> td_cnext s)) (tc_key d) = Some x \<longleftrightarrow> td_conns s (tc_key d) = Some x"
        using False free by auto
      have "conn_inv ((td_conns s)(tc_key c \<mapsto> td_cnext s)) ps x d"
        using old unfolding conn_inv_def same .
      then show ?thesis
        by (rule conn_inv_asked) (simp_all add: ask)
    qed
  next
    fix k x
    assume "((td_conns s)(tc_key c \<mapsto> td_cnext s)) k = Some x"
    then show "\<exists>d. ((td_cstore s)(td_cnext s \<mapsto> c)) x = Some d \<and> tc_key d = k"
      using demux_invD(3) [OF inv, of k x] fresh by (auto split: if_splits)
  next
    fix x es
    assume "(x, es) \<in> set ?ps"
    then show "((td_cstore s)(td_cnext s \<mapsto> c)) x \<noteq> None"
      using demux_invD(4) [OF inv, of x es] by auto
  next
    fix ip
    show "counter (td_halfOpen s) ip + of_bool (ip = tc_halfOpenIP c)
        = card (flagged (half_open_at ip) (td_cstore s)) + of_bool (half_open_at ip c)"
      "counter (td_liveConns s) ip + of_bool (ip = tc_halfOpenIP c)
        = card (flagged (live_at ip) (td_cstore s)) + of_bool (live_at ip c)"
      "counter (td_halfOpen s) ip + of_bool (ip = tc_halfOpenIP c) \<le> maxHalfOpenPerSession"
      "counter (td_liveConns s) ip + of_bool (ip = tc_halfOpenIP c) \<le> maxLiveConnsPerSession"
      using demux_invD(5-8) [OF inv, of ip] c(2,3) room by auto
  qed (use on in simp)
qed

section \<open>Every step keeps the invariant\<close>

definition lst_inv :: "'m tcp_stack_scheme \<Rightarrow> bool" where
  "lst_inv s \<longleftrightarrow>
     (\<forall>p lid. td_listeners s p = Some lid \<longrightarrow>
        p \<noteq> 0 \<and> (\<exists>l. td_lstore s lid = Some l \<and> tl_port l = p \<and> \<not> tl_closed l))
     \<and> (\<forall>lid l. td_lstore s lid = Some l \<longrightarrow> lid < td_lnext s \<and> length (tl_backlog l) \<le> defaultBacklog
          \<and> (\<not> tl_closed l \<longrightarrow> td_listeners s (tl_port l) = Some lid))
     \<and> (\<not> st_tcpHandler s \<longrightarrow> (\<forall>lid. td_lstore s lid = None))"

lemma lst_inv_cong:
  assumes "lst_inv s" and "td_listeners s' = td_listeners s" "td_lstore s' = td_lstore s" "td_lnext s' = td_lnext s"
    "st_tcpHandler s' = st_tcpHandler s"
  shows "lst_inv s'"
  using assms(1) unfolding lst_inv_def assms(2-5) .

definition tcp_inv :: "'m tcp_stack_scheme \<Rightarrow> threads \<Rightarrow> bool" where
  "tcp_inv s ps \<longleftrightarrow> demux_inv s ps \<and> lst_inv s"

lemma tcp_inv_frame:
  assumes "tcp_inv s ps" and "udp_stack.more s' = udp_stack.more s" and "st_tcpHandler s' = st_tcpHandler s"
  shows "tcp_inv s' ps"
  using assms demux_inv_frame [OF _ assms(2,3)] lst_inv_cong [of s s'] tcp_frame [OF assms(2)]
  by (simp add: tcp_inv_def)

lemma tcp_inv_count: "tcp_inv s ps \<Longrightarrow> tcp_inv (tcp_count f s) ps"
  unfolding tcp_inv_def by (auto simp: tcp_count_def intro: demux_inv_cong lst_inv_cong)

lemma sent_frame:
  fixes s :: "'m tcp_stack_scheme"
  shows "udp_stack.more (snd (writePacket wr n pkt s)) = udp_stack.more s"
    and "st_tcpHandler (snd (writePacket wr n pkt s)) = st_tcpHandler s"
proof -
  show "udp_stack.more (snd (writePacket wr n pkt s)) = udp_stack.more s"
    by (rule udp_more) (rule writePacket_more)
  show "st_tcpHandler (snd (writePacket wr n pkt s)) = st_tcpHandler s"
    using writePacket_core [of s wr n pkt] by (simp add: same_core_def)
qed

lemma sendSegments_frame:
  fixes s :: "'m tcp_stack_scheme"
  shows "udp_stack.more (sendSegments wr c segs s) = udp_stack.more s \<and> st_tcpHandler (sendSegments wr c segs s) = st_tcpHandler s"
  unfolding sendSegments_def
proof (induction segs arbitrary: s)
  case (Cons seg segs)
  have "udp_stack.more (sendOne wr c seg s) = udp_stack.more s" "st_tcpHandler (sendOne wr c seg s) = st_tcpHandler s"
    by (simp_all add: sendOne_def Let_def sent_frame)
  with Cons.IH [of "sendOne wr c seg s"] show ?case by simp
qed simp

lemma sendRST_inv: "tcp_inv s ps \<Longrightarrow> tcp_inv (sendRST wr n l r seg s) ps"
  unfolding sendRST_def Let_def by (intro tcp_inv_count tcp_inv_frame [OF _ sent_frame])

lemma put_conn_lst: "lst_inv (put_conn cid c s) = lst_inv s"
  by (simp add: lst_inv_def put_conn_def)

lemma release_lst:
  "lst_inv (releaseHalfOpen cid s) = lst_inv s" "lst_inv (releaseLiveConn cid s) = lst_inv s"
  by (simp_all add: lst_inv_def releaseHalfOpen_def releaseLiveConn_def put_conn_def Let_def split: option.split)

lemma removeConn_lst: "lst_inv (removeConn cid s) = lst_inv s"
proof (cases "td_cstore s cid")
  case (Some c)
  then have "removeConn cid s = releaseLiveConn cid (releaseHalfOpen cid (unlist cid c s))"
    by (simp add: removeConn_def unlist_def)
  then show ?thesis
    by (simp add: release_lst) (simp add: lst_inv_def)
qed (simp add: removeConn_def)

lemma op_inv:
  assumes "tcp_inv s ps" and "td_cstore s cid = Some c" and "conn_op_ok c c' effs"
  shows "tcp_inv (put_conn cid c' s) (ps @ [(cid, effs)])"
proof -
  have "demux_inv (put_conn cid c' s) (ps @ [(cid, effs)])"
    by (rule inv_op [OF _ assms(2,3)]) (use assms(1) in \<open>auto simp: tcp_inv_def asked_append asked_Cons\<close>)
  with assms(1) show ?thesis
    by (simp add: tcp_inv_def put_conn_lst)
qed

lemma packet_inv:
  assumes inv: "tcp_inv s ps" and on: "st_tcpHandler s" and res: "tcp_packet wr isn n src dst payload s = (t, s')"
  shows "tcp_inv s' (ps @ threads_of t)"
proof (cases "parseTCP payload")
  case (Inl e)
  then have "t = None" "s' = bump (\<lambda>c. c\<lparr>malformedDropped := malformedDropped c + 1\<rparr>) s"
    using res by (auto simp: tcp_packet_def)
  moreover have "tcp_inv (bump f s) ps" for f
    by (rule tcp_inv_frame [OF inv udp_more]) simp_all
  ultimately show ?thesis
    by (simp add: threads_of_def)
next
  case (Inr seg)
  show ?thesis
  proof (cases "td_conns s (packet_key src seg)")
    case (Some cid)
    obtain c where c: "td_cstore s cid = Some c"
      using demux_invD(3) [of s ps] inv Some unfolding tcp_inv_def by blast
    obtain c' effs where h: "handleSegment seg c = (c', effs)"
      by fastforce
    from op_inv [OF inv c handleSegment_contract [OF h]] res Inr Some c h show ?thesis
      by (auto simp: tcp_packet_def threads_of_def)
  next
    case None
    show ?thesis
    proof (cases "\<exists>lid. \<not> has_flag flagRST seg \<and> has_flag flagSYN seg \<and> \<not> has_flag flagACK seg
        \<and> td_listeners s (sg_dstPort seg) = Some lid")
      case False
      with res Inr None inv sendRST_inv [OF inv] show ?thesis
        by (auto simp: tcp_packet_def threads_of_def split: if_splits option.splits)
    next
      case True
      then obtain lid where syn: "\<not> has_flag flagRST seg" "has_flag flagSYN seg" "\<not> has_flag flagACK seg"
        "td_listeners s (sg_dstPort seg) = Some lid" by blast
      obtain r s1 where hs: "handleSYN isn lid n src seg s = (r, s1)"
        by fastforce
      then show ?thesis
      proof (cases rule: handleSYN_cases)
        case (refused f)
        with res Inr None syn hs tcp_inv_count [OF inv, of f] show ?thesis
          by (auto simp: tcp_packet_def threads_of_def)
      next
        case (opened c)
        have key: "tc_halfOpenIP c = ft_remoteIP (tc_key c)" "td_conns s (tc_key c) = None"
          using opened(4,8) None by (simp_all add: packet_key_def)
        have "lst_inv s1" "td_cstore s1 (td_cnext s) = Some c"
          using inv by (simp_all add: opened(9) tcp_inv_def lst_inv_def)
        moreover from this(2) have "t = Some (td_cnext s, [SendSegments [synAckSegment (maxSegmentSize s1) c]])" "s' = s1"
          using res Inr None syn hs opened(1) by (auto simp: tcp_packet_def)
        moreover have "demux_inv s1 (ps @ [(td_cnext s, [SendSegments [synAckSegment (maxSegmentSize s1) c]])])"
          using syn_inv [OF _ on key(2) opened(5-7) key(1)] inv opened(2,3,4,8,9) by (simp add: tcp_inv_def)
        ultimately show ?thesis
          by (simp add: tcp_inv_def threads_of_def)
      qed
    qed
  qed
qed

lemma demux_inv_lstore: "demux_inv (s\<lparr>td_lstore := x\<rparr>) ps = demux_inv s ps"
  "demux_inv (s\<lparr>td_listeners := y\<rparr>) ps = demux_inv s ps" "demux_inv (s\<lparr>td_lnext := z\<rparr>) ps = demux_inv s ps"
  by (simp_all add: demux_inv_def)

lemma lst_invD:
  assumes "lst_inv s"
  shows "td_lstore s lid = Some l \<Longrightarrow> lid < td_lnext s"
    and "td_lstore s lid = Some l \<Longrightarrow> length (tl_backlog l) \<le> defaultBacklog"
    and "td_lstore s lid = Some l \<Longrightarrow> \<not> tl_closed l \<Longrightarrow> td_listeners s (tl_port l) = Some lid"
    and "td_listeners s p = Some lid \<Longrightarrow> p \<noteq> 0"
    and "td_listeners s p = Some lid \<Longrightarrow> \<exists>l. td_lstore s lid = Some l \<and> tl_port l = p \<and> \<not> tl_closed l"
    and "\<not> st_tcpHandler s \<Longrightarrow> td_lstore s lid = None"
  using assms unfolding lst_inv_def by blast+

lemma lst_invI:
  assumes "\<And>lid l. td_lstore s lid = Some l \<Longrightarrow> lid < td_lnext s"
    and "\<And>lid l. td_lstore s lid = Some l \<Longrightarrow> length (tl_backlog l) \<le> defaultBacklog"
    and "\<And>lid l. td_lstore s lid = Some l \<Longrightarrow> \<not> tl_closed l \<Longrightarrow> td_listeners s (tl_port l) = Some lid"
    and "\<And>p lid. td_listeners s p = Some lid \<Longrightarrow> p \<noteq> 0"
    and "\<And>p lid. td_listeners s p = Some lid \<Longrightarrow> \<exists>l. td_lstore s lid = Some l \<and> tl_port l = p \<and> \<not> tl_closed l"
    and "\<And>lid. \<not> st_tcpHandler s \<Longrightarrow> td_lstore s lid = None"
  shows "lst_inv s"
  unfolding lst_inv_def using assms by blast

lemma lst_inv_update:
  assumes "lst_inv s" and "td_lstore s lid = Some l" and "tl_port l' = tl_port l" "tl_closed l' = tl_closed l"
    and "length (tl_backlog l') \<le> defaultBacklog"
  shows "lst_inv (s\<lparr>td_lstore := (td_lstore s)(lid \<mapsto> l')\<rparr>)"
  using assms unfolding lst_inv_def by (auto split: if_splits) (metis option.inject)+

text \<open>What joins the accept queue, or is reset.\<close>

lemma enqueue_cases:
  assumes "tcp_enqueue cid s = (s', fu)"
  obtains (gone) "s' = s" "fu = []"
  | (reset) c c' effs where "td_cstore s cid = Some c" "tcp_abort c = (c', effs)" "s' = put_conn cid c' s"
      "set fu = set effs \<or> set fu = insert CountBacklogOverflow (set effs)"
  | (queued) lid l where "td_lstore s lid = Some l" "length (tl_backlog l) < defaultBacklog" "fu = []"
      "s' = s\<lparr>td_lstore := (td_lstore s)(lid \<mapsto> l\<lparr>tl_backlog := tl_backlog l @ [cid]\<rparr>)\<rparr>"
proof (cases "td_cstore s cid")
  case None
  with assms that(1) show ?thesis by (simp add: tcp_enqueue_def)
next
  case (Some c)
  obtain c' effs where ab: "tcp_abort c = (c', effs)" by fastforce
  show ?thesis
  proof (cases "td_lstore s (tc_listener c)")
    case None
    with assms Some that(1) show ?thesis by (simp add: tcp_enqueue_def)
  next
    case (Some l)
    with \<open>td_cstore s cid = Some c\<close> assms ab that(2) [OF _ ab] that(3) [OF Some] show ?thesis
      by (auto simp: tcp_enqueue_def split: if_splits)
  qed
qed

lemma effect_inv:
  assumes inv: "tcp_inv s (ps @ (cid, e # effs) # qs)" and res: "effect_step wr cid e s = (s', fu)"
  shows "tcp_inv s' (ps @ (cid, fu @ effs) # qs)"
proof -
  let ?old = "ps @ (cid, e # effs) # qs"
  obtain c where c: "td_cstore s cid = Some c"
    using demux_invD(4) [of s ?old cid "e # effs"] inv unfolding tcp_inv_def by auto
  have dinv: "demux_inv s ?old" and linv: "lst_inv s"
    using inv by (simp_all add: tcp_inv_def)
  note ci = demux_invD(2) [OF dinv c]
  have quiet: "demux_inv s (ps @ (cid, effs) # qs)" if "e \<noteq> RemoveConn" "e \<noteq> ReleaseHalfOpen"
    by (rule inv_same_asked [OF dinv]) (use that in \<open>auto simp: asked_append asked_Cons\<close>)
  then have qinv: "tcp_inv s (ps @ (cid, effs) # qs)" if "e \<noteq> RemoveConn" "e \<noteq> ReleaseHalfOpen"
    using that linv by (simp add: tcp_inv_def)
  have counted: ?thesis if "effect_step wr cid e s = (tcp_count f s, [])" "e \<noteq> RemoveConn" "e \<noteq> ReleaseHalfOpen" for f
    using tcp_inv_count [OF qinv [OF that(2,3)], of f] res that(1) by simp
  show ?thesis
  proof (cases e)
    case RemoveConn
    have closed: "tc_state c = stateClosed"
      using ci unfolding conn_inv_def asked_append asked_Cons RemoveConn by simp
    have "demux_inv (removeConn cid s) (ps @ (cid, effs) # qs)"
      by (rule removeConn_inv [OF dinv c closed]) (auto simp: asked_append asked_Cons RemoveConn)
    with res RemoveConn linv show ?thesis
      by (auto simp: tcp_inv_def removeConn_lst)
  next
    case ReleaseHalfOpen
    have st: "tc_state c \<noteq> stateSynRcvd"
      using ci unfolding conn_inv_def asked_append asked_Cons ReleaseHalfOpen by simp
    note r = releaseHalfOpen_inv [OF dinv c st]
    have "demux_inv (releaseHalfOpen cid s) (ps @ (cid, effs) # qs)"
    proof (rule inv_threads [OF r])
      fix x d
      assume d: "td_cstore (releaseHalfOpen cid s) x = Some d"
      note old = demux_invD(2) [OF r d]
      show "conn_inv (td_conns (releaseHalfOpen cid s)) (ps @ (cid, effs) # qs) x d"
      proof (cases "x = cid")
        case True
        then have "\<not> tc_halfOpenCounted d" "tc_state d \<noteq> stateSynRcvd"
          using d st by (auto simp: releaseHalfOpen_fields [OF c])
        moreover have "asked RemoveConn x (ps @ (cid, effs) # qs) \<longleftrightarrow> asked RemoveConn x ?old"
          by (auto simp: asked_append asked_Cons ReleaseHalfOpen)
        ultimately show ?thesis
          using old unfolding conn_inv_def by (elim conjE) (intro conjI; blast)
      next
        case False
        then show ?thesis
          by (intro conn_inv_asked [OF old]) (auto simp: asked_append asked_Cons)
      qed
    qed auto
    with res ReleaseHalfOpen linv show ?thesis
      by (auto simp: tcp_inv_def release_lst)
  next
    case EnqueueListener
    then have q: "tcp_inv s (ps @ (cid, effs) # qs)"
      by (intro qinv) simp_all
    have "tcp_enqueue cid s = (s', fu)"
      using res EnqueueListener by simp
    then show ?thesis
    proof (cases rule: enqueue_cases)
      case gone
      with q show ?thesis by simp
    next
      case (reset d d' es)
      have "demux_inv (put_conn cid d' s) (ps @ (cid, fu @ effs) # qs)"
      proof (rule inv_op [OF quiet reset(1) close_contracts(2) [OF reset(2)]])
        show "asked RemoveConn x (ps @ (cid, fu @ effs) # qs)
            \<longleftrightarrow> asked RemoveConn x (ps @ (cid, effs) # qs) \<or> x = cid \<and> RemoveConn \<in> set es"
          "asked ReleaseHalfOpen x (ps @ (cid, fu @ effs) # qs)
            \<longleftrightarrow> asked ReleaseHalfOpen x (ps @ (cid, effs) # qs) \<or> x = cid \<and> ReleaseHalfOpen \<in> set es" for x
          using reset(4) by (auto simp: asked_append asked_Cons)
      qed (auto simp: EnqueueListener)
      with reset(3) linv show ?thesis
        by (simp add: tcp_inv_def put_conn_lst)
    next
      case (queued lid l)
      with q lst_inv_update [OF linv queued(1), of "l\<lparr>tl_backlog := tl_backlog l @ [cid]\<rparr>"] show ?thesis
        by (simp add: tcp_inv_def demux_inv_lstore)
    qed
  next
    case (SendSegments segs)
    then have q: "tcp_inv s (ps @ (cid, effs) # qs)"
      by (intro qinv) simp_all
    have "s' = sendSegments wr c segs s" "fu = []"
      using res SendSegments c by (auto simp: with_conn_def)
    with tcp_inv_frame [OF q conjunct1 [OF sendSegments_frame] conjunct2 [OF sendSegments_frame]] show ?thesis
      by simp
  next
    case CountRSTSent
    show ?thesis by (rule counted) (unfold CountRSTSent effect_step.simps, rule refl, simp_all)
  next
    case CountRSTReceived
    show ?thesis by (rule counted) (unfold CountRSTReceived effect_step.simps, rule refl, simp_all)
  next
    case CountReorderDropped
    show ?thesis by (rule counted) (unfold CountReorderDropped effect_step.simps, rule refl, simp_all)
  next
    case CountBacklogOverflow
    show ?thesis by (rule counted) (unfold CountBacklogOverflow effect_step.simps, rule refl, simp_all)
  qed
qed

lemma listen_inv_tcp:
  assumes inv: "tcp_inv s ps" and res: "ListenTCP port s = (r, s')"
  shows "tcp_inv s' ps"
proof (cases "port = 0")
  case False
  define d where "d = (if st_tcpHandler s then s else (newTCPDemux s)\<lparr>st_tcpHandler := True\<rparr>)"
  have d: "tcp_inv d ps \<and> st_tcpHandler d"
  proof (cases "st_tcpHandler s")
    case False
    then have none: "td_cstore s cid = None" "td_lstore s lid = None" for cid lid
      using inv by (simp_all add: tcp_inv_def demux_inv_def lst_inv_def)
    have "ps = []"
      using inv none by (cases ps) (auto simp: tcp_inv_def demux_inv_def)
    then have "demux_inv d ps" "lst_inv d"
      using none False
      by (simp_all add: d_def newTCPDemux_def demux_inv_def lst_inv_def counter_def flagged_def)
    with False show ?thesis
      by (simp add: tcp_inv_def d_def)
  qed (use inv d_def in simp)
  have res': "tcp_listen port d = (r, s')"
    using res False by (simp add: ListenTCP_def d_def)
  show ?thesis
  proof (cases "td_listeners d port")
    case None
    have li: "lst_inv d"
      using d by (simp add: tcp_inv_def)
    have fresh: "td_lstore d (td_lnext d) = None"
      using lst_invD(1) [OF li, of "td_lnext d"] by (cases "td_lstore d (td_lnext d)") auto
    let ?l = "\<lparr>tl_port = port, tl_closed = False, tl_backlog = []\<rparr>"
    have s': "s' = d\<lparr>td_listeners := (td_listeners d)(port \<mapsto> td_lnext d),
        td_lstore := (td_lstore d)(td_lnext d \<mapsto> ?l), td_lnext := td_lnext d + 1\<rparr>"
      using res' None by (auto simp: tcp_listen_def)
    have "lst_inv s'"
    proof (rule lst_invI)
      fix x m
      assume m: "td_lstore s' x = Some m"
      show "x < td_lnext s'" "length (tl_backlog m) \<le> defaultBacklog"
        using m lst_invD(1,2) [OF li, of x m] by (auto simp: s' split: if_splits)
      show "td_listeners s' (tl_port m) = Some x" if "\<not> tl_closed m"
        using m that lst_invD(3) [OF li, of x m] None by (auto simp: s' split: if_splits)
    next
      fix p x
      assume p: "td_listeners s' p = Some x"
      show "p \<noteq> 0" "\<exists>m. td_lstore s' x = Some m \<and> tl_port m = p \<and> \<not> tl_closed m"
        using p False lst_invD(4,5) [OF li, of p x] fresh by (auto simp: s' split: if_splits)
    qed (use d in \<open>simp add: s'\<close>)
    moreover have "demux_inv s' ps"
      using d by (simp add: s' tcp_inv_def demux_inv_lstore)
    ultimately show ?thesis
      by (simp add: tcp_inv_def)
  qed (use res' d in \<open>simp add: tcp_listen_def\<close>)
qed (use assms in \<open>simp add: ListenTCP_def\<close>)

lemma close_mark_inv:
  assumes "tcp_inv s ps"
  shows "tcp_inv (close_mark lid s) ps"
proof (cases "\<exists>l. td_lstore s lid = Some l \<and> \<not> tl_closed l")
  case True
  then obtain l where l: "td_lstore s lid = Some l" "\<not> tl_closed l"
    by blast
  have li: "lst_inv s"
    using assms by (simp add: tcp_inv_def)
  then have port: "td_listeners s (tl_port l) = Some lid"
    using l by (simp add: lst_inv_def)
  have m: "close_mark lid s = s\<lparr>td_lstore := (td_lstore s)(lid \<mapsto> l\<lparr>tl_closed := True\<rparr>),
      td_listeners := (td_listeners s)(tl_port l := None)\<rparr>"
    using l by (simp add: close_mark_def removeListener_def)
  have "lst_inv (close_mark lid s)"
    unfolding m
  proof (rule lst_invI, goal_cases)
    case (1 x d)
    then show ?case
      using lst_invD(1) [OF li] l by (auto split: if_splits)
  next
    case (2 x d)
    then show ?case
      using lst_invD(2) [OF li] l by (auto split: if_splits)
  next
    case (3 x d)
    then have "x \<noteq> lid" "td_lstore s x = Some d"
      by (auto split: if_splits)
    with lst_invD(3) [OF li this(2) 3(2)] port show ?case
      by auto
  next
    case (4 p x)
    then show ?case
      using lst_invD(4) [OF li] by (auto split: if_splits)
  next
    case (5 p x)
    then have p: "td_listeners s p = Some x" "p \<noteq> tl_port l"
      by (auto split: if_splits)
    with lst_invD(5) [OF li p(1)] l show ?case
      by auto
  next
    case (6 x)
    then show ?case
      using lst_invD(6) [OF li, of lid] l by simp
  qed
  moreover have "demux_inv (close_mark lid s) ps"
    using assms unfolding m by (simp add: tcp_inv_def demux_inv_lstore)
  ultimately show ?thesis
    by (simp add: tcp_inv_def)
next
  case False
  with assms show ?thesis
    by (auto simp: close_mark_def split: option.split)
qed

lemma drain_inv:
  assumes inv: "tcp_inv s ps" and l: "td_lstore s lid = Some l" and res: "drain_one lid l s = (t, s')"
  shows "tcp_inv s' (ps @ threads_of t)"
proof (cases "tl_backlog l")
  case (Cons cid rest)
  let ?s = "s\<lparr>td_lstore := (td_lstore s)(lid \<mapsto> l\<lparr>tl_backlog := rest\<rparr>)\<rparr>"
  have "length rest \<le> defaultBacklog"
    using lst_invD(2) [of s lid l] inv l Cons by (simp add: tcp_inv_def)
  then have i: "tcp_inv ?s ps"
    using inv lst_inv_update [OF _ l, of "l\<lparr>tl_backlog := rest\<rparr>"] by (simp add: tcp_inv_def demux_inv_lstore)
  show ?thesis
  proof (cases "td_cstore s cid")
    case None
    with res Cons i show ?thesis by (auto simp: drain_one_def threads_of_def)
  next
    case (Some c)
    obtain c' effs where ab: "tcp_abort c = (c', effs)" by fastforce
    have "td_cstore ?s cid = Some c"
      using Some by simp
    from op_inv [OF i this close_contracts(2) [OF ab]] res Cons Some ab show ?thesis
      by (auto simp: drain_one_def threads_of_def)
  qed
qed (use res inv in \<open>auto simp: drain_one_def threads_of_def\<close>)

lemma accept_inv:
  assumes "tcp_inv s ps" and "td_lstore s lid = Some l" and "Accept pick l = (r, l')"
  shows "tcp_inv (s\<lparr>td_lstore := (td_lstore s)(lid \<mapsto> l')\<rparr>) ps"
proof -
  have "tl_port l' = tl_port l" "tl_closed l' = tl_closed l" "length (tl_backlog l') \<le> length (tl_backlog l)"
    using assms(3) by (auto simp: Accept_def split: if_splits)
  moreover have "length (tl_backlog l) \<le> defaultBacklog"
    using assms(1,2) lst_invD(2) by (auto simp: tcp_inv_def)
  ultimately have "lst_inv (s\<lparr>td_lstore := (td_lstore s)(lid \<mapsto> l')\<rparr>)"
    using assms(1) by (intro lst_inv_update [OF _ assms(2)]) (simp_all add: tcp_inv_def)
  with assms(1) show ?thesis
    by (simp add: tcp_inv_def demux_inv_lstore)
qed

lemma tcp_sys_inv: "tcp_sys s0 s ps \<Longrightarrow> tcp_inv s0 [] \<Longrightarrow> tcp_inv s ps"
proof (induction rule: tcp_sys.induct)
  case (ts_listen s ps port r s')
  then show ?case by (blast intro: listen_inv_tcp)
next
  case (ts_packet s ps wr isn n src dst payload t s')
  then show ?case by (blast intro: packet_inv)
next
  case (ts_op s ps cid c c' effs)
  then show ?case by (blast intro: op_inv conn_op_contract)
next
  case (ts_effect s ps cid e effs qs wr s' more_effs)
  then show ?case by (blast intro: effect_inv)
next
  case (ts_accept s ps lid l pick r l')
  then show ?case by (blast intro: accept_inv)
next
  case (ts_close s ps lid)
  then show ?case by (blast intro: close_mark_inv)
next
  case (ts_drain s ps lid l t s')
  then show ?case by (blast intro: drain_inv)
next
  case (ts_stack s ps s')
  then show ?case by (blast intro: tcp_inv_frame)
qed

section \<open>A packet handled alone\<close>

lemma abort_effects: "tcp_abort c = (c', effs) \<Longrightarrow> EnqueueListener \<notin> set effs"
  by (auto simp: tcp_abort_def give_up_def split: if_splits)

lemma effect_followup:
  assumes "effect_step wr cid e s = (s', fu)"
  shows "EnqueueListener \<notin> set fu" "e \<noteq> EnqueueListener \<Longrightarrow> fu = []"
proof -
  have "EnqueueListener \<notin> set fu" if "tcp_enqueue cid s = (s', fu)"
    using that
  proof (cases rule: enqueue_cases)
    case (reset c c' effs)
    with abort_effects [OF reset(2)] show ?thesis by auto
  qed auto
  with assms show "EnqueueListener \<notin> set fu" "e \<noteq> EnqueueListener \<Longrightarrow> fu = []"
    by (cases e; auto)+
qed

lemma run_plain_inv:
  assumes "tcp_inv s [(cid, effs @ rest)]" and "EnqueueListener \<notin> set effs"
  shows "tcp_inv (run_plain wr cid effs s) [(cid, rest)]"
  using assms
proof (induction effs arbitrary: s)
  case (Cons e effs)
  obtain s' fu where st: "effect_step wr cid e s = (s', fu)"
    by fastforce
  have "fu = []"
    using effect_followup(2) [OF st] Cons.prems(2) by auto
  with effect_inv [of s "[]" cid e "effs @ rest" "[]", OF _ st] Cons.prems have "tcp_inv s' [(cid, effs @ rest)]"
    by simp
  from Cons.IH [OF this] Cons.prems(2) st show ?case
    by (simp add: run_plain_def)
qed (simp add: run_plain_def)

lemma run_effects_inv:
  assumes "tcp_inv s [(cid, effs)]"
  shows "tcp_inv (run_effects wr cid effs s) []"
  using assms
proof (induction effs arbitrary: s)
  case Nil
  have "demux_inv s []"
    by (rule inv_same_asked [of s "[(cid, [])]"]) (use Nil in \<open>auto simp: tcp_inv_def asked_Cons\<close>)
  with Nil show ?case
    by (simp add: tcp_inv_def run_effects_def)
next
  case (Cons e effs)
  obtain s' fu where st: "effect_step wr cid e s = (s', fu)"
    by fastforce
  have "tcp_inv s' [(cid, fu @ effs)]"
    using effect_inv [of s "[]" cid e effs "[]", OF _ st] Cons.prems by simp
  from Cons.IH [OF run_plain_inv [OF this effect_followup(1) [OF st]]] st show ?case
    by (simp add: run_effects_def)
qed

lemma tcp_handlePacket_inv:
  assumes "tcp_inv s []" and "st_tcpHandler s"
  shows "tcp_inv (tcp_handlePacket wr isn n src dst payload s) []"
proof -
  obtain t s' where p: "tcp_packet wr isn n src dst payload s = (t, s')"
    by fastforce
  have i: "tcp_inv s' (threads_of t)"
    using packet_inv [OF assms p] by simp
  show ?thesis
  proof (cases t)
    case None
    with p i show ?thesis by (simp add: tcp_handlePacket_def threads_of_def)
  next
    case (Some th)
    obtain cid effs where th: "th = (cid, effs)" by fastforce
    with p i Some run_effects_inv show ?thesis
      by (simp add: tcp_handlePacket_def threads_of_def)
  qed
qed

section \<open>Isolation of sessions\<close>

text \<open>Nothing changed for the connections and budgets of other addresses.\<close>

definition others_same :: "addr \<Rightarrow> 'm tcp_stack_scheme \<Rightarrow> 'm tcp_stack_scheme \<Rightarrow> bool" where
  "others_same ip s s' \<longleftrightarrow>
     (\<forall>cid c. td_cstore s cid = Some c \<and> ft_remoteIP (tc_key c) \<noteq> ip \<longrightarrow> td_cstore s' cid = Some c)
     \<and> (\<forall>k. ft_remoteIP k \<noteq> ip \<longrightarrow> td_conns s' k = td_conns s k)
     \<and> (\<forall>x. x \<noteq> ip \<longrightarrow> counter (td_halfOpen s') x = counter (td_halfOpen s) x
          \<and> counter (td_liveConns s') x = counter (td_liveConns s) x)"

definition at_addr :: "addr \<Rightarrow> nat \<Rightarrow> 'm tcp_stack_scheme \<Rightarrow> bool" where
  "at_addr ip cid s \<longleftrightarrow> (\<exists>c. td_cstore s cid = Some c \<and> ft_remoteIP (tc_key c) = ip \<and> tc_halfOpenIP c = ip)"

lemma others_same_refl [simp]: "others_same ip s s"
  by (simp add: others_same_def)

lemma others_same_trans: "others_same ip s t \<Longrightarrow> others_same ip t u \<Longrightarrow> others_same ip s u"
  by (simp add: others_same_def)

lemma others_same_fields:
  assumes "td_cstore s' = td_cstore s" "td_conns s' = td_conns s" "td_halfOpen s' = td_halfOpen s"
    "td_liveConns s' = td_liveConns s"
  shows "others_same ip s s'" "at_addr ip cid s' = at_addr ip cid s"
  by (simp_all add: others_same_def at_addr_def assms)

lemma put_isolated:
  assumes "at_addr ip cid s" and "td_cstore s cid = Some c" and "tc_key c' = tc_key c" "tc_halfOpenIP c' = tc_halfOpenIP c"
  shows "others_same ip s (put_conn cid c' s) \<and> at_addr ip cid (put_conn cid c' s)"
  using assms by (auto simp: others_same_def at_addr_def put_conn_def)

lemma release_isolated:
  assumes "at_addr ip cid s"
  shows "others_same ip s (releaseHalfOpen cid s) \<and> at_addr ip cid (releaseHalfOpen cid s)"
    and "others_same ip s (releaseLiveConn cid s) \<and> at_addr ip cid (releaseLiveConn cid s)"
proof -
  obtain c where c: "td_cstore s cid = Some c" "ft_remoteIP (tc_key c) = ip" "tc_halfOpenIP c = ip"
    using assms by (auto simp: at_addr_def)
  show "others_same ip s (releaseHalfOpen cid s) \<and> at_addr ip cid (releaseHalfOpen cid s)"
    using c(2,3) by (auto simp: others_same_def at_addr_def releaseHalfOpen_fields [OF c(1)] c(1))
  show "others_same ip s (releaseLiveConn cid s) \<and> at_addr ip cid (releaseLiveConn cid s)"
    using c(2,3) by (auto simp: others_same_def at_addr_def releaseLiveConn_fields [OF c(1)] c(1))
qed

lemma remove_isolated:
  assumes "at_addr ip cid s"
  shows "others_same ip s (removeConn cid s) \<and> at_addr ip cid (removeConn cid s)"
proof -
  obtain c where c: "td_cstore s cid = Some c" "ft_remoteIP (tc_key c) = ip" "tc_halfOpenIP c = ip"
    using assms by (auto simp: at_addr_def)
  have r: "removeConn cid s = releaseLiveConn cid (releaseHalfOpen cid (unlist cid c s))"
    using c(1) by (simp add: removeConn_def unlist_def)
  have "others_same ip s (unlist cid c s)" "at_addr ip cid (unlist cid c s)"
    using c by (auto simp: others_same_def at_addr_def unlist_def)
  with release_isolated show ?thesis
    unfolding r by (meson others_same_trans)
qed

lemma effect_isolated:
  assumes a: "at_addr ip cid s" and res: "effect_step wr cid e s = (s', fu)"
  shows "others_same ip s s' \<and> at_addr ip cid s'"
proof -
  have frame: ?thesis if "udp_stack.more s' = udp_stack.more s"
    using a others_same_fields [OF tcp_frame(6,2,3,4) [OF that]] by simp
  have count: "others_same ip s (tcp_count f s) \<and> at_addr ip cid (tcp_count f s)" for f
    using a others_same_fields [of "tcp_count f s" s] by (simp add: tcp_count_def)
  show ?thesis
  proof (cases e)
    case EnqueueListener
    then have "tcp_enqueue cid s = (s', fu)"
      using res by simp
    then show ?thesis
    proof (cases rule: enqueue_cases)
      case (reset c c' effs)
      have "ident_of c' = ident_of c"
        using close_contracts(2) [OF reset(2)] by (simp add: conn_op_ok_def)
      with put_isolated [OF a reset(1)] reset(3) show ?thesis
        by (simp add: ident_of_def)
    next
      case (queued lid l)
      with a others_same_fields [of s' s] show ?thesis by simp
    qed (use a in simp)
  next
    case (SendSegments segs)
    then have "s' = with_conn cid (\<lambda>c. sendSegments wr c segs) s"
      using res by simp
    then have "udp_stack.more s' = udp_stack.more s"
      using sendSegments_frame by (auto simp: with_conn_def split: option.split)
    then show ?thesis by (rule frame)
  qed (use res a remove_isolated [OF a] release_isolated(1) [OF a] count in auto)
qed

lemma run_isolated:
  assumes "at_addr ip cid s"
  shows "others_same ip s (run_plain wr cid effs s) \<and> at_addr ip cid (run_plain wr cid effs s)"
    and "others_same ip s (run_effects wr cid effs s) \<and> at_addr ip cid (run_effects wr cid effs s)"
proof -
  have plain: "others_same ip t (run_plain wr cid es t) \<and> at_addr ip cid (run_plain wr cid es t)"
    if "at_addr ip cid t" for es t
    using that
  proof (induction es arbitrary: t)
    case (Cons e es)
    obtain t' fu where st: "effect_step wr cid e t = (t', fu)" by fastforce
    from effect_isolated [OF Cons.prems st] Cons.IH [of t'] st show ?case
      by (auto simp: run_plain_def intro: others_same_trans)
  qed (simp add: run_plain_def)
  then show "others_same ip s (run_plain wr cid effs s) \<and> at_addr ip cid (run_plain wr cid effs s)"
    using assms by blast
  show "others_same ip s (run_effects wr cid effs s) \<and> at_addr ip cid (run_effects wr cid effs s)"
    using assms
  proof (induction effs arbitrary: s)
    case (Cons e es)
    obtain t fu where st: "effect_step wr cid e s = (t, fu)" by fastforce
    have "others_same ip s (run_plain wr cid fu t) \<and> at_addr ip cid (run_plain wr cid fu t)"
      using effect_isolated [OF Cons.prems st] plain [of t fu] by (auto intro: others_same_trans)
    with Cons.IH [of "run_plain wr cid fu t"] st show ?case
      by (auto simp: run_effects_def intro: others_same_trans)
  qed (simp add: run_effects_def)
qed

lemma sendRST_more:
  "td_cstore (sendRST wr n l r seg s) = td_cstore s" "td_conns (sendRST wr n l r seg s) = td_conns s"
  "td_halfOpen (sendRST wr n l r seg s) = td_halfOpen s" "td_liveConns (sendRST wr n l r seg s) = td_liveConns s"
  by (simp_all add: sendRST_def Let_def tcp_count_def tcp_frame [OF sent_frame(1)])

lemma packet_isolated:
  assumes inv: "demux_inv s ps" and res: "tcp_packet wr isn n src dst payload s = (t, s')"
  shows "others_same src s s' \<and> (\<forall>cid effs. t = Some (cid, effs) \<longrightarrow> at_addr src cid s')"
proof (cases "parseTCP payload")
  case (Inl e)
  then have "t = None" "s' = bump (\<lambda>c. c\<lparr>malformedDropped := malformedDropped c + 1\<rparr>) s"
    using res by (auto simp: tcp_packet_def)
  moreover have "others_same src s (bump f s)" for f
    by (rule others_same_fields(1) [OF tcp_frame(6,2,3,4)]; rule udp_more; simp)
  ultimately show ?thesis
    by simp
next
  case (Inr seg)
  show ?thesis
  proof (cases "td_conns s (packet_key src seg)")
    case (Some cid)
    obtain c where c: "td_cstore s cid = Some c" "tc_key c = packet_key src seg"
      using demux_invD(3) [OF inv Some] by blast
    obtain c' effs where h: "handleSegment seg c = (c', effs)"
      by fastforce
    have "at_addr src cid s"
      using c demux_invD(2) [OF inv c(1)] by (simp add: at_addr_def conn_inv_def packet_key_def)
    moreover have "ident_of c' = ident_of c"
      using handleSegment_contract [OF h] by (simp add: conn_op_ok_def)
    ultimately show ?thesis
      using put_isolated [of src cid s c c'] c(1) res Inr Some h
      by (auto simp: tcp_packet_def ident_of_def)
  next
    case None
    show ?thesis
    proof (cases "\<exists>lid. \<not> has_flag flagRST seg \<and> has_flag flagSYN seg \<and> \<not> has_flag flagACK seg
        \<and> td_listeners s (sg_dstPort seg) = Some lid")
      case False
      with res Inr None others_same_fields(1) [OF sendRST_more] show ?thesis
        by (auto simp: tcp_packet_def split: if_splits option.splits)
    next
      case True
      then obtain lid where syn: "\<not> has_flag flagRST seg" "has_flag flagSYN seg" "\<not> has_flag flagACK seg"
        "td_listeners s (sg_dstPort seg) = Some lid" by blast
      obtain r s1 where hs: "handleSYN isn lid n src seg s = (r, s1)"
        by fastforce
      then show ?thesis
      proof (cases rule: handleSYN_cases)
        case (refused f)
        with res Inr None syn hs others_same_fields(1) [of "tcp_count f s" s] show ?thesis
          by (auto simp: tcp_packet_def tcp_count_def)
      next
        case (opened c)
        have st: "td_cstore s1 (td_cnext s) = Some c"
          by (simp add: opened(9))
        then have t: "t = Some (td_cnext s, [SendSegments [synAckSegment (maxSegmentSize s1) c]])" "s' = s1"
          using res Inr None syn hs opened(1) by (auto simp: tcp_packet_def)
        have "x \<noteq> td_cnext s" if "td_cstore s x = Some d" for x d
          using demux_invD(1) [OF inv that] by simp
        then have "others_same src s s1"
          by (auto simp: others_same_def opened(9) counter_upd packet_key_def)
        moreover have "at_addr src (td_cnext s) s1"
          using st opened(4,8) by (simp add: at_addr_def packet_key_def)
        ultimately show ?thesis
          using t by simp
      qed
    qed
  qed
qed

lemma handle_isolated:
  assumes "demux_inv s ps"
  shows "others_same src s (tcp_handlePacket wr isn n src dst payload s)"
proof -
  obtain t s' where p: "tcp_packet wr isn n src dst payload s = (t, s')"
    by fastforce
  note iso = packet_isolated [OF assms p]
  show ?thesis
  proof (cases t)
    case None
    with iso p show ?thesis by (simp add: tcp_handlePacket_def)
  next
    case (Some th)
    obtain cid effs where th: "t = Some (cid, effs)"
      using Some by (metis surj_pair)
    then have "at_addr src cid s'" "others_same src s s'"
      using iso by blast+
    with run_isolated(2) [of src cid s' wr effs] p th show ?thesis
      by (auto simp: tcp_handlePacket_def intro: others_same_trans)
  qed
qed

section \<open>The stack with both transports\<close>

lemma same_core_tcp [simp]:
  "same_core s (s'\<lparr>td_cstore := a\<rparr>) = same_core s s'" "same_core s (s'\<lparr>td_conns := b\<rparr>) = same_core s s'"
  "same_core s (s'\<lparr>td_halfOpen := h\<rparr>) = same_core s s'" "same_core s (s'\<lparr>td_liveConns := h\<rparr>) = same_core s s'"
  "same_core s (s'\<lparr>td_stats := t\<rparr>) = same_core s s'" "same_core s (s'\<lparr>td_lstore := l\<rparr>) = same_core s s'"
  "same_core s (s'\<lparr>td_cnext := k\<rparr>) = same_core s s'"
  by (simp_all add: same_core_def)

lemma release_core: "same_core s (releaseHalfOpen cid s)" "same_core s (releaseLiveConn cid s)"
  by (simp_all add: releaseHalfOpen_def releaseLiveConn_def put_conn_def Let_def split: option.split)

lemma removeConn_core: "same_core s (removeConn cid s)"
proof (cases "td_cstore s cid")
  case (Some c)
  then have "removeConn cid s = releaseLiveConn cid (releaseHalfOpen cid (unlist cid c s))"
    by (simp add: removeConn_def unlist_def)
  moreover have "same_core s (unlist cid c s)"
    by (simp add: unlist_def)
  ultimately show ?thesis
    by (metis release_core same_core_trans)
qed (simp add: removeConn_def)

lemma sendSegments_core: "same_core s (sendSegments wr c segs s)"
  unfolding sendSegments_def
proof (induction segs arbitrary: s)
  case (Cons seg segs)
  have "same_core s (sendOne wr c seg s)"
    by (simp add: sendOne_def Let_def writePacket_core)
  with Cons.IH [of "sendOne wr c seg s"] show ?case
    by (auto intro: same_core_trans)
qed simp

lemma effect_core:
  assumes "effect_step wr cid e s = (s', fu)"
  shows "same_core s s'"
proof (cases e)
  case EnqueueListener
  then have "tcp_enqueue cid s = (s', fu)"
    using assms by simp
  then show ?thesis
    by (cases rule: enqueue_cases) (simp_all add: put_conn_def)
next
  case (SendSegments segs)
  with assms sendSegments_core [of s wr _ segs] show ?thesis
    by (auto simp: with_conn_def split: option.splits)
qed (use assms removeConn_core release_core(1) in \<open>auto simp: tcp_count_def\<close>)

lemma run_core: "same_core s (run_effects wr cid effs s)"
proof -
  have plain: "same_core t (run_plain wr cid es t)" for es t
  proof (induction es arbitrary: t)
    case (Cons e es)
    obtain t' fu where st: "effect_step wr cid e t = (t', fu)" by fastforce
    from effect_core [OF st] Cons.IH [of t'] st show ?case
      by (auto simp: run_plain_def intro: same_core_trans)
  qed (simp add: run_plain_def)
  show ?thesis
  proof (induction effs arbitrary: s)
    case (Cons e es)
    obtain t fu where st: "effect_step wr cid e s = (t, fu)" by fastforce
    from effect_core [OF st] plain [of t fu] Cons.IH [of "run_plain wr cid fu t"] st show ?case
      by (auto simp: run_effects_def intro: same_core_trans)
  qed (simp add: run_effects_def)
qed

lemma tcp_packet_core:
  assumes "tcp_packet wr isn n src dst payload s = (t, s')"
  shows "same_core s s'"
proof -
  have rst: "same_core s (sendRST wr n l r seg s)" for l r seg
    by (simp add: sendRST_def Let_def tcp_count_def writePacket_core)
  have syn: "same_core s s1" if "handleSYN isn lid n src seg s = (r, s1)" for lid seg r s1
    using that by (cases rule: handleSYN_cases) (simp_all add: tcp_count_def)
  show ?thesis
    using assms rst
    by (auto simp: tcp_packet_def put_conn_def split: sum.splits option.splits if_splits prod.splits dest: syn)
qed

lemma tcp_handler_core: "same_core s (tcp_handlePacket wr isn n src dst payload s)"
proof -
  obtain t s' where p: "tcp_packet wr isn n src dst payload s = (t, s')"
    by fastforce
  from tcp_packet_core [OF p] same_core_trans [OF tcp_packet_core [OF p] run_core] p show ?thesis
    by (auto simp: tcp_handlePacket_def split: option.split)
qed

interpretation tcp_demux: protocol_handler "tcp_handlePacket wr isn" for wr isn
  by unfold_locales (rule tcp_handler_core)

interpretation transports: stack_handlers "udp_handlePacket env" "tcp_handlePacket wr isn" for env wr isn
  by unfold_locales

text \<open>
  What a delivered packet amounts to: bookkeeping of the stack below, and at most one call
  of a transport's handler with the addresses that were checked.
\<close>

lemma handleICMP_more: "stack.more (handleICMP wr n hdr msg s) = stack.more s"
proof -
  define s1 where "s1 = bump (\<lambda>c. c\<lparr>icmpEchoRequests := icmpEchoRequests c + 1\<rparr>) s"
  define reply where "reply = buildIPv4 [] (st_serverIP s) (ih_src hdr) protocolICMP (icmp_reply msg)"
  obtain e s2 where w: "writePacket wr n reply s1 = (e, s2)"
    by fastforce
  have "stack.more s2 = stack.more s"
    using writePacket_more [of wr n reply s1] w by (simp add: s1_def)
  then show ?thesis
    unfolding handleICMP_def Let_def s1_def [symmetric] reply_def [symmetric] w
    by (simp split: option.split)
qed

definition called :: "'m handler \<Rightarrow> 'm handler \<Rightarrow> nat \<Rightarrow> addr \<Rightarrow> addr \<Rightarrow> 'm stack_scheme \<Rightarrow> 'm stack_scheme \<Rightarrow> bool" where
  "called udp tcp n src dst s r \<longleftrightarrow>
     (\<exists>t payload. stack.more t = stack.more s \<and> st_tcpHandler t = st_tcpHandler s \<and> st_udpHandler t = st_udpHandler s
        \<and> (r = t \<or> st_udpHandler s \<and> r = udp n src dst payload t \<or> st_tcpHandler s \<and> r = tcp n src dst payload t))"

lemma called_quiet: "stack.more t = stack.more s \<Longrightarrow> same_core s t \<Longrightarrow> called udp tcp n src dst s t"
  by (auto simp: called_def same_core_def)

lemma dispatch_called:
  assumes "stack.more t = stack.more s" and "st_tcpHandler t = st_tcpHandler s" "st_udpHandler t = st_udpHandler s"
  shows "called udp tcp n (ih_src hdr) (ih_dst hdr) s (dispatch wr udp tcp n hdr pkt t)"
proof -
  have icmp: "stack.more (handleICMP wr n hdr m t) = stack.more s" "st_tcpHandler (handleICMP wr n hdr m t) = st_tcpHandler s"
    "st_udpHandler (handleICMP wr n hdr m t) = st_udpHandler s" for m
    using assms handleICMP_more [of wr n hdr m t] handleICMP_core [of t wr n hdr m] by (simp_all add: same_core_def)
  have "called udp tcp n (ih_src hdr) (ih_dst hdr) s (handleICMP wr n hdr m t)" for m
    unfolding called_def using icmp by blast
  moreover have "called udp tcp n (ih_src hdr) (ih_dst hdr) s (bump f t)" for f
    unfolding called_def using assms by (intro exI [of _ "bump f t"]) simp
  moreover have "st_udpHandler s \<Longrightarrow> called udp tcp n (ih_src hdr) (ih_dst hdr) s (udp n (ih_src hdr) (ih_dst hdr) p t)"
    "st_tcpHandler s \<Longrightarrow> called udp tcp n (ih_src hdr) (ih_dst hdr) s (tcp n (ih_src hdr) (ih_dst hdr) p t)" for p
    unfolding called_def using assms by blast+
  ultimately show ?thesis
    using assms(2,3) by (simp add: dispatch_def Let_def)
qed

lemma deliver_called:
  assumes att: "st_atts s n = Some a" and inv: "reasm_inv (at_reasm a)"
  shows "called udp tcp n (at_ip a) (st_serverIP s) s (deliver wr udp tcp now n pkt s)"
proof -
  have quiet: "called udp tcp n x y s t" if "stack.more t = stack.more s" "st_tcpHandler t = st_tcpHandler s"
    "st_udpHandler t = st_udpHandler s" for x y t
    using that by (auto simp: called_def)
  let ?s = "bump (\<lambda>c. c\<lparr>packetsReceived := packetsReceived c + 1\<rparr>) s"
  show ?thesis
  proof (cases "parseIPv4 pkt")
    case (Inl e)
    with att show ?thesis
      by (simp add: deliver_def Let_def quiet)
  next
    case (Inr hdr)
    show ?thesis
    proof (cases "ih_src hdr = at_ip a \<and> ih_dst hdr = st_serverIP s")
      case False
      with att Inr show ?thesis
        by (simp add: deliver_def Let_def quiet)
    next
      case ok: True
      show ?thesis
      proof (cases "isFragment hdr")
        case False
        with att Inr ok dispatch_called [of ?s s udp tcp n hdr wr pkt] show ?thesis
          by (simp add: deliver_def Let_def)
      next
        case True
        obtain r d out e where res: "add now hdr pkt (at_reasm a) = (r, d, out, e)"
          by (rule prod_cases4)
        define s2 where "s2 = (let s1 = ?s\<lparr>st_atts := (st_atts ?s)(n \<mapsto> a\<lparr>at_reasm := r\<rparr>)\<rparr> in
          if e > 0 then bump (\<lambda>c. c\<lparr>reassemblyTimeouts := reassemblyTimeouts c + of_nat e\<rparr>) s1 else s1)"
        have s2: "stack.more s2 = stack.more s" "st_tcpHandler s2 = st_tcpHandler s" "st_udpHandler s2 = st_udpHandler s"
          by (simp_all add: s2_def Let_def)
        have frag: "deliver wr udp tcp now n pkt s = deliver_fragment wr udp tcp now n a hdr pkt ?s"
          using att Inr ok True by (simp add: deliver_def Let_def)
        show ?thesis
        proof (cases "out = reasmComplete")
          case True
          from reasm.checked_stays_checked [OF inv Inr \<open>isFragment hdr\<close> _ _ res [unfolded True]] ok obtain p h
            where h: "d = Some p" "parseIPv4 p = Inr h" "ih_src h = at_ip a" "ih_dst h = st_serverIP s"
            by blast
          let ?t = "bump (\<lambda>c. c\<lparr>fragmentsReassembled := fragmentsReassembled c + 1\<rparr>) s2"
          have "deliver_fragment wr udp tcp now n a hdr pkt ?s = dispatch wr udp tcp n h p ?t"
            using res True h by (simp add: deliver_fragment_def Let_def s2_def)
          with dispatch_called [of ?t s udp tcp n h wr p] s2 frag h show ?thesis
            by simp
        next
          case False
          have "called udp tcp n (at_ip a) (st_serverIP s) s (bump f s2)"
            "called udp tcp n (at_ip a) (st_serverIP s) s s2" for f
            using s2 by (simp_all add: quiet)
          then show ?thesis
            unfolding frag deliver_fragment_def res Let_def prod.case s2_def [unfolded Let_def, symmetric]
            using False by (cases out) simp_all
        qed
      qed
    qed
  qed
qed

section \<open>Properties\<close>

definition tcp_fresh :: "'m tcp_stack_scheme \<Rightarrow> bool" where
  "tcp_fresh s \<longleftrightarrow> td_listeners s = Map.empty \<and> td_conns s = Map.empty \<and> td_halfOpen s = Map.empty
     \<and> td_liveConns s = Map.empty \<and> td_lstore s = Map.empty \<and> td_cstore s = Map.empty"

lemma tcp_fresh_inv: "tcp_fresh s \<Longrightarrow> tcp_inv s []"
  by (simp add: tcp_fresh_def tcp_inv_def demux_inv_def lst_inv_def counter_def flagged_def)

definition in_handshake :: "addr \<Rightarrow> 'm tcp_stack_scheme \<Rightarrow> nat set" where
  "in_handshake ip s = {cid. \<exists>c. td_cstore s cid = Some c \<and> tc_state c = stateSynRcvd \<and> ft_remoteIP (tc_key c) = ip}"

definition not_closed :: "addr \<Rightarrow> 'm tcp_stack_scheme \<Rightarrow> nat set" where
  "not_closed ip s = {cid. \<exists>c. td_cstore s cid = Some c \<and> tc_state c \<noteq> stateClosed \<and> ft_remoteIP (tc_key c) = ip}"

lemma budget_sets:
  assumes "demux_inv s ps"
  shows "in_handshake ip s \<subseteq> flagged (half_open_at ip) (td_cstore s)"
    and "not_closed ip s \<subseteq> flagged (live_at ip) (td_cstore s)"
    and "list_all (\<lambda>th. snd th = []) ps \<Longrightarrow> in_handshake ip s = flagged (half_open_at ip) (td_cstore s)"
    and "list_all (\<lambda>th. snd th = []) ps \<Longrightarrow> not_closed ip s = flagged (live_at ip) (td_cstore s)"
proof -
  note ci = demux_invD(2) [OF assms, unfolded conn_inv_def]
  have idle: "\<not> asked e cid ps" if "list_all (\<lambda>th. snd th = []) ps" for e cid
    using that by (auto simp: asked_def list_all_iff)
  show sub: "in_handshake ip s \<subseteq> flagged (half_open_at ip) (td_cstore s)"
    "not_closed ip s \<subseteq> flagged (live_at ip) (td_cstore s)"
    using ci by (auto simp: in_handshake_def not_closed_def flagged_def)
  have "x \<in> in_handshake ip s" if q: "list_all (\<lambda>th. snd th = []) ps" and m: "x \<in> flagged (half_open_at ip) (td_cstore s)" for x
  proof -
    obtain c where c: "td_cstore s x = Some c" "half_open_at ip c"
      using m by (auto simp: flagged_def)
    with ci [OF c(1)] idle [OF q] show ?thesis
      by (auto simp: in_handshake_def)
  qed
  moreover have "x \<in> not_closed ip s" if q: "list_all (\<lambda>th. snd th = []) ps" and m: "x \<in> flagged (live_at ip) (td_cstore s)" for x
  proof -
    obtain c where c: "td_cstore s x = Some c" "live_at ip c"
      using m by (auto simp: flagged_def)
    with ci [OF c(1)] idle [OF q] show ?thesis
      by (auto simp: not_closed_def)
  qed
  ultimately show "list_all (\<lambda>th. snd th = []) ps \<Longrightarrow> in_handshake ip s = flagged (half_open_at ip) (td_cstore s)"
    "list_all (\<lambda>th. snd th = []) ps \<Longrightarrow> not_closed ip s = flagged (live_at ip) (td_cstore s)"
    using sub by blast+
qed

text \<open>
  C20. The limits on connections hold in every interleaving. From a stack without TCP, after
  any sequence of listens, packets, timer firings, application calls, accepts, closes and
  detached sessions, with the work the code leaves for after a mutex done in any order and
  mixture: no address ever has more than 8 connections in the handshake or more than 64
  that are not closed, and no accept queue holds more than 16. Nothing leaks: whenever no
  such work is left over, the two counters of an address are exactly the numbers of these
  connections, so every closed connection has given back its units, and the 4-tuple table
  holds exactly the connections that are not closed.
\<close>

theorem tcp_budgets_hold:
  assumes sys: "tcp_sys s0 s ps" and fresh: "tcp_fresh s0"
  shows "card (in_handshake ip s) \<le> 8 \<and> card (not_closed ip s) \<le> 64
    \<and> (\<forall>lid l. td_lstore s lid = Some l \<longrightarrow> length (tl_backlog l) \<le> 16)
    \<and> (list_all (\<lambda>th. snd th = []) ps \<longrightarrow>
         counter (td_halfOpen s) ip = card (in_handshake ip s)
         \<and> counter (td_liveConns s) ip = card (not_closed ip s)
         \<and> (\<forall>k cid. td_conns s k = Some cid \<longleftrightarrow>
              (\<exists>c. td_cstore s cid = Some c \<and> tc_key c = k \<and> tc_state c \<noteq> stateClosed)))"
proof -
  have inv: "demux_inv s ps" and li: "lst_inv s"
    using tcp_sys_inv [OF sys tcp_fresh_inv [OF fresh]] by (simp_all add: tcp_inv_def)
  note b = budget_sets [OF inv, of ip]
  have "card (in_handshake ip s) \<le> counter (td_halfOpen s) ip" "card (not_closed ip s) \<le> counter (td_liveConns s) ip"
    unfolding demux_invD(5,7) [OF inv, of ip] using b(1,2) flagged_finite [OF inv] by (simp_all add: card_mono)
  then have "card (in_handshake ip s) \<le> 8" "card (not_closed ip s) \<le> 64"
    using demux_invD(6,8) [OF inv, of ip] by (simp_all add: govpn_consts)
  moreover have "length (tl_backlog l) \<le> 16" if "td_lstore s lid = Some l" for lid l
    using lst_invD(2) [OF li that] by (simp add: govpn_consts)
  moreover have "td_conns s k = Some cid \<longleftrightarrow> (\<exists>c. td_cstore s cid = Some c \<and> tc_key c = k \<and> tc_state c \<noteq> stateClosed)"
    if idle: "list_all (\<lambda>th. snd th = []) ps" for k cid
  proof -
    have "\<not> asked RemoveConn cid ps"
      using idle by (auto simp: asked_def list_all_iff)
    with demux_invD(2) [OF inv, unfolded conn_inv_def] demux_invD(3) [OF inv, of k cid] show ?thesis
      by blast
  qed
  ultimately show ?thesis
    using demux_invD(5,7) [OF inv, of ip] b(3,4) by simp
qed

definition with_tcp :: "udp_stack \<Rightarrow> tcp_stack" where
  "with_tcp s = udp_stack.extend s (tcp_stack.fields Map.empty Map.empty Map.empty Map.empty zero_tcp_stats
     Map.empty 0 Map.empty 0)"

lemma with_tcp_fields [simp]:
  "td_listeners (with_tcp s) = Map.empty" "td_conns (with_tcp s) = Map.empty" "td_halfOpen (with_tcp s) = Map.empty"
  "td_liveConns (with_tcp s) = Map.empty" "td_lstore (with_tcp s) = Map.empty" "td_cstore (with_tcp s) = Map.empty"
  "td_lnext (with_tcp s) = 0" "td_cnext (with_tcp s) = 0" "st_tcpHandler (with_tcp s) = st_tcpHandler s"
  "st_mtu (with_tcp s) = st_mtu s" "st_serverIP (with_tcp s) = st_serverIP s" "st_atts (with_tcp s) = st_atts s"
  by (simp_all add: with_tcp_def udp_stack.extend_def tcp_stack.fields_def)

lemma with_tcp_fresh: "tcp_fresh (with_tcp s)"
  by (simp add: tcp_fresh_def)

definition demo_net :: tcp_stack where
  "demo_net = with_tcp (with_udp (demo_stack\<lparr>st_atts := [0 \<mapsto> \<lparr>at_ip = 0x0A080002, at_stopped = False,
     at_reasm = fresh_reassembler\<rparr>]\<rparr>))"

definition demo_listening :: tcp_stack where
  "demo_listening = snd (ListenTCP 80 demo_net)"

lemma demo_listening_fields:
  "ListenTCP 80 demo_net = (Inr 0, demo_listening)" "st_tcpHandler demo_listening"
  "td_listeners demo_listening = [80 \<mapsto> 0]" "td_conns demo_listening = Map.empty"
  "td_lstore demo_listening = [0 \<mapsto> \<lparr>tl_port = 80, tl_closed = False, tl_backlog = []\<rparr>]"
  "td_halfOpen demo_listening = Map.empty" "td_liveConns demo_listening = Map.empty" "td_cnext demo_listening = 0"
  "st_atts demo_listening = st_atts demo_net" "st_mtu demo_listening = 1500" "td_cstore demo_listening = Map.empty"
  "st_serverIP demo_listening = 0x0A080001"
  by (simp_all add: demo_listening_def demo_net_def ListenTCP_def tcp_listen_def newTCPDemux_def demo_stack_def)

definition demo_syn :: bytes where
  "demo_syn = buildTCP [] (demo_seg 500 0 flagSYN []) 0x0A080002 0x0A080001"

lemma demo_syn_parse: "parseTCP demo_syn = Inr (demo_seg 500 0 flagSYN [])"
  unfolding demo_syn_def by (rule parse_buildTCP(1)) (simp add: wf_segment_def demo_seg_def)

theorem tcp_budgets_hold_witness:
  "\<exists>t s. tcp_packet (\<lambda>_ _. True) 7 0 0x0A080002 0x0A080001 demo_syn demo_listening = (t, s)
     \<and> t \<noteq> None \<and> card (in_handshake 0x0A080002 s) \<le> 8 \<and> card (not_closed 0x0A080002 s) \<le> 64"
proof -
  obtain t s where p: "tcp_packet (\<lambda>_ _. True) 7 0 0x0A080002 0x0A080001 demo_syn demo_listening = (t, s)"
    by fastforce
  have "tcp_sys demo_net s (threads_of t)"
    using ts_packet [OF ts_listen [OF ts_start demo_listening_fields(1)] demo_listening_fields(2) p] by simp
  moreover have "tcp_fresh demo_net"
    by (simp add: demo_net_def with_tcp_fresh)
  ultimately have "card (in_handshake 0x0A080002 s) \<le> 8 \<and> card (not_closed 0x0A080002 s) \<le> 64"
    using tcp_budgets_hold [of demo_net s "threads_of t" "0x0A080002"] by blast
  moreover have "t \<noteq> None"
    using p by (auto simp: tcp_packet_def demo_syn_parse demo_listening_fields handleSYN_def Let_def counter_def
        demo_seg_def has_flag_def tcp_flags govpn_consts)
  ultimately show ?thesis
    using p by blast
qed

lemma udp_handle_more: "udp_stack.more (udp_handlePacket env n src dst payload s) = udp_stack.more s"
  by (auto simp: udp_handlePacket_def bump_def Let_def split: sum.split option.split prod.split)

text \<open>
  C21. One session cannot touch another's connections. Whatever packet arrives on an
  attachment, malformed, spoofed, fragmented or addressed to another port: through access
  checks, reassembly, both transports and everything a segment sets off, every connection
  of another tunnel address stays exactly as it was, the table still finds it, and the
  half-open and live budgets of other addresses are untouched. A flood of one client's SYNs
  costs the others nothing.
\<close>

theorem tcp_sessions_isolated:
  assumes "tcp_sys s0 s ps" and "tcp_fresh s0" and att: "st_atts s n = Some a" and reasm: "reasm_inv (at_reasm a)"
    and s': "s' = deliver wr (udp_handlePacket env) (tcp_handlePacket wr isn) now n pkt s"
  shows "(\<forall>cid c. td_cstore s cid = Some c \<and> ft_remoteIP (tc_key c) \<noteq> at_ip a \<longrightarrow> td_cstore s' cid = Some c)
    \<and> (\<forall>k. ft_remoteIP k \<noteq> at_ip a \<longrightarrow> td_conns s' k = td_conns s k)
    \<and> (\<forall>ip. ip \<noteq> at_ip a \<longrightarrow> counter (td_halfOpen s') ip = counter (td_halfOpen s) ip
         \<and> counter (td_liveConns s') ip = counter (td_liveConns s) ip)"
proof -
  have inv: "demux_inv s ps"
    using tcp_sys_inv [OF assms(1) tcp_fresh_inv [OF assms(2)]] by (simp add: tcp_inv_def)
  obtain t payload where t: "stack.more t = stack.more s" "st_tcpHandler t = st_tcpHandler s"
    and r: "s' = t \<or> s' = udp_handlePacket env n (at_ip a) (st_serverIP s) payload t
      \<or> s' = tcp_handlePacket wr isn n (at_ip a) (st_serverIP s) payload t"
    using deliver_called [OF att reasm, of "udp_handlePacket env" "tcp_handlePacket wr isn" wr now pkt]
    unfolding called_def s' by blast
  note more_t = udp_more [OF t(1)]
  have same: "others_same (at_ip a) s u" if "udp_stack.more u = udp_stack.more s" for u
    by (rule others_same_fields(1) [OF tcp_frame(6,2,3,4)]) (rule that)+
  have "others_same (at_ip a) t (tcp_handlePacket wr isn n (at_ip a) (st_serverIP s) payload t)"
    by (rule handle_isolated [OF demux_inv_frame [OF inv more_t t(2)]])
  then have "others_same (at_ip a) s s'"
    using r same [OF more_t] same [of s'] more_t udp_handle_more [of env n "at_ip a" "st_serverIP s" payload t]
    by (auto intro: others_same_trans)
  then show ?thesis
    by (simp add: others_same_def)
qed

theorem tcp_sessions_isolated_witness:
  "td_conns (deliver (\<lambda>_ _. True) (udp_handlePacket alone) (tcp_handlePacket (\<lambda>_ _. True) 7) 0 0
     (buildIPv4 [] 0x0A080002 0x0A080001 6 demo_syn) demo_listening) (demo_key\<lparr>ft_remoteIP := 0x0A080003\<rparr>) = None"
proof -
  let ?s' = "deliver (\<lambda>_ _. True) (udp_handlePacket alone) (tcp_handlePacket (\<lambda>_ _. True) 7) 0 0
     (buildIPv4 [] 0x0A080002 0x0A080001 6 demo_syn) demo_listening"
  let ?a = "\<lparr>at_ip = 0x0A080002, at_stopped = False, at_reasm = fresh_reassembler\<rparr>"
  have sys: "tcp_sys demo_net demo_listening []"
    using ts_listen [OF ts_start demo_listening_fields(1)] .
  have fr: "tcp_fresh demo_net"
    by (simp add: demo_net_def with_tcp_fresh)
  have att: "st_atts demo_listening 0 = Some ?a"
    unfolding demo_listening_fields by (simp add: demo_net_def)
  have "reasm_inv (at_reasm ?a)"
    using new_inv by simp
  note all = conjunct1 [OF conjunct2 [OF tcp_sessions_isolated [OF sys fr att this refl,
      of "\<lambda>_ _. True" alone 7 0 "buildIPv4 [] 0x0A080002 0x0A080001 6 demo_syn"]]]
  have "ft_remoteIP (demo_key\<lparr>ft_remoteIP := 0x0A080003\<rparr>) \<noteq> at_ip ?a"
    by simp
  with all have "td_conns ?s' (demo_key\<lparr>ft_remoteIP := 0x0A080003\<rparr>) = td_conns demo_listening (demo_key\<lparr>ft_remoteIP := 0x0A080003\<rparr>)"
    by blast
  then show ?thesis
    unfolding demo_listening_fields(4) by simp
qed



end
