(* ===== verification/Spec2Isabelle.thy ===== *)
theory Spec2Isabelle
  imports Wire Reliable Tls_Crypt Key_Deriv Data_Chan Ip_Pool Cipher_Neg Push Ctrl_Conn
    Fragment_Order Stack Transit Udp Tcp_Demux
begin

text \<open>
  A verification development of govpn, an OpenVPN server library in Go with a user-space
  IPv4 stack. This root theory imports all others and holds the properties that span
  components; every other theory opens with a note on what it models.

  \<^bold>\<open>The program.\<close> A client's UDP datagrams carry two channels. On the control channel a
  datagram is authenticated and decrypted by tls-crypt, parsed as a control packet, and fed
  into a reliability layer that orders, acknowledges and retransmits; the ordered bytes are
  the TLS stream on which Key Method 2, cipher negotiation and the push exchange run. On the
  data channel a packet is sealed and opened with AES-GCM under the derived keys. Tunnel
  addresses come from a pool. Decrypted IPv4 packets enter the user-space stack, which checks
  their addresses, reassembles fragments and dispatches to ICMP, UDP and TCP.

  \<^bold>\<open>Theories and sources.\<close>
  \<^item> \<open>Govpn_Prelude\<close>: machine words, slices, in-place overwriting, big-endian integers, the
    interface \<open>be_codec\<close> of a fixed-width encoding.
  \<^item> \<open>Wire\<close> (\<^verbatim>\<open>internal/wire\<close>): control packets; parsing decides exactly and is inverse to
    serialising.
  \<^item> \<open>Reliable\<close> (\<^verbatim>\<open>internal/reliable\<close>): send and receive windows over 32-bit ids with their
    wrap-around, acknowledgements, retransmission with 64-bit durations. Interfaces
    \<open>ordered_delivery\<close> and \<open>ack_store\<close>.
  \<^item> \<open>Replay\<close>, \<open>Sealed_Channel\<close>: the two replay windows and the abstract guard they refine
    (interface \<open>replay_guard\<close>); \<open>sealed_channel\<close> is an authenticated channel over such a guard,
    with its theorems on loss, reordering and repetition proved once.
  \<^item> \<open>Crypto_Ops\<close>, \<open>Key_Deriv\<close> (\<^verbatim>\<open>internal/keyderiv\<close>): the primitives as parameters; PRF, key
    expansion, slot layout, Key Method 2 messages.
  \<^item> \<open>Data_Chan\<close> (\<^verbatim>\<open>internal/datachan\<close>), \<open>Tls_Crypt\<close> (\<^verbatim>\<open>internal/tlscrypt\<close>): the two
    channels; both interpret \<open>sealed_channel\<close>.
  \<^item> \<open>Ctrl_Conn\<close> (\<^verbatim>\<open>internal/ctrlconn\<close>): the connection that joins wrapper, framing and
    reliability into a byte stream.
  \<^item> \<open>Ip_Pool\<close> (\<^verbatim>\<open>ippool.go\<close>), \<open>Go_Strings\<close>, \<open>Cipher_Neg\<close> (\<^verbatim>\<open>cipher.go\<close>), \<open>Push\<close>
    (\<^verbatim>\<open>push.go\<close>): address leases, string functions of the Go library, negotiation, the
    pushed options.
  \<^item> \<open>Frame\<close> (\<^verbatim>\<open>netstack/internal/frame\<close>), \<open>Ipv4\<close> (\<^verbatim>\<open>netstack/ipv4.go\<close>): checksums
    (interface \<open>ones_checksum\<close>), builders, the IPv4 parser, the fragmenter.
  \<^item> \<open>Reassembly\<close> (\<^verbatim>\<open>netstack/reassembly.go\<close>), \<open>Fragment_Order\<close>: the hole-list reassembler
    (interface \<open>fragment_store\<close>), and the fragmenter against the reassembler.
  \<^item> \<open>Stack\<close> (\<^verbatim>\<open>netstack/stack.go\<close>, \<^verbatim>\<open>netstack/icmp.go\<close>): routes, attachments, the
    receiving and sending paths, ICMP echo. Interfaces \<open>protocol_handler\<close> and
    \<open>stack_handlers\<close>; the stack is an extensible record that the layers above extend.
  \<^item> \<open>Transit\<close>: a packet from one stack to another, through fragmentation and any order of
    arrival; the transport layers use it.
  \<^item> \<open>Deadline\<close> (\<^verbatim>\<open>netstack/deadline.go\<close>), \<open>Udp\<close> (\<^verbatim>\<open>netstack/udp.go\<close>): deadlines with
    the race of their timer callback; the port table, bounded queues with their overflow
    policies, and the sockets.
  \<^item> \<open>Tcp_Segment\<close> (\<^verbatim>\<open>netstack/tcp_segment.go\<close>), \<open>Tcp_Conn\<close> (\<^verbatim>\<open>netstack/tcp_conn.go\<close>,
    \<^verbatim>\<open>tcp_state.go\<close>, \<^verbatim>\<open>tcp_timer.go\<close>): segments, and one connection with its state machine,
    buffers and timers; what the code does after it releases the connection's mutex is a list
    of effects.
  \<^item> \<open>Tcp_Stream\<close>, \<open>Tcp_Limits\<close>: every history of a connection: the byte streams in both
    directions, the bounds of its buffers, resets, the retransmission budget, and the
    histories in which a lost FIN or a closed window is mishandled.
  \<^item> \<open>Tcp_Listener\<close> (\<^verbatim>\<open>netstack/tcp_listener.go\<close>), \<open>Tcp_Demux\<close>: the 4-tuple table, the
    listeners and the per-address budgets; every interleaving of the goroutines as a step
    relation with its invariant; both transports as handlers of one stack, and the isolation
    of sessions.

  \<^bold>\<open>How code corresponds to definitions.\<close> A struct is a record and a method a function from
  the record to the record with its result; errors are the left side of a sum. Integers whose
  overflow can be observed are words of their width; lengths that the code has checked are
  natural numbers. A mutex makes a method one step. Pointers that are shared (attachments, sockets,
  connections, listeners) are
  indices into a store. Clock readings, the outcome of writing to a transport or session and
  what a read returned are arguments. A call that would block is a value of its own.

  \<^bold>\<open>Parameters.\<close> SHA-256, MD5, SHA-1, the AES-CTR key stream and the AEAD are arguments of the
  definitions that use them; \<open>digest_len\<close> and \<open>aead_ok\<close> state what the code relies on (a digest
  has its documented length, opening undoes sealing, a ciphertext is as long as its plaintext)
  and each theorem with such a hypothesis has a witness with a concrete function.

  \<^bold>\<open>Termination and bounds.\<close> Every definition is total; loops that the code runs until a
  condition holds are functions with a termination proof, and the retransmission tick, which can
  run for ever, takes the list of its clock readings and reports when it was not over
  after them. No fuel is used elsewhere.

  \<^bold>\<open>Not modelled.\<close> The server and session objects (\<^verbatim>\<open>ovpn.go\<close>, \<^verbatim>\<open>session.go\<close>) drive
  goroutines, crypto/tls and sockets around the components above. Command-line tools, the example web site, the
  test harnesses and the clock wrapper hold no protocol logic.
\<close>

unbundle bit_operations_syntax

section \<open>The control stream end to end\<close>

text \<open>
  What an endpoint does with a datagram of its session: unwrap it, read the header, parse the
  body, absorb the packet. Anything that fails a step is dropped.
\<close>

definition recv_datagram ::
  "hash_fn \<Rightarrow> ctr_fn \<Rightarrow> tls_wrapper \<times> ctrl_conn \<Rightarrow> bytes \<Rightarrow> tls_wrapper \<times> ctrl_conn" where
  "recv_datagram sha256 aes_ctr rc b =
     (case rc of (r, c) \<Rightarrow>
        (case Unwrap sha256 aes_ctr r [] b of
           (r', Inl e) \<Rightarrow> (r', c)
         | (r', Inr (header, plaintext)) \<Rightarrow>
             let (opcode, keyID) = ParseHeaderByte (hd header)
             in (case ParseControlPacket plaintext
                   \<lparr>hd_opcode = opcode, hd_keyID = keyID, hd_sessionID = tl header\<rparr> of
                   Inl e \<Rightarrow> (r', c)
                 | Inr cp \<Rightarrow> (r', absorb c cp))))"

text \<open>
  A sender between two states: it writes, possibly in several calls when the window is full,
  and absorbs what its peer acknowledges. The relation collects the datagrams handed to the
  transport and the bytes of the application they carry.
\<close>

inductive tx_reach ::
  "hash_fn \<Rightarrow> ctr_fn \<Rightarrow> tls_wrapper \<Rightarrow> ctrl_conn \<Rightarrow> tls_wrapper \<Rightarrow> ctrl_conn \<Rightarrow> bytes list \<Rightarrow> bytes
   \<Rightarrow> bool" for sha256 aes_ctr w c where
  tx_start: "tx_reach sha256 aes_ctr w c w c [] []"
| tx_write: "tx_reach sha256 aes_ctr w c w1 c1 pkts stream \<Longrightarrow>
    Conn_Write sha256 aes_ctr env 0 w1 c1 p 0 [] = (w2, c2, bs, n, res) \<Longrightarrow>
    \<forall>e. res \<noteq> SendFailed (ConnWrap e) \<Longrightarrow>
    tx_reach sha256 aes_ctr w c w2 c2 (pkts @ bs) (stream @ take (MaxPayload * length bs) p)"
| tx_absorb: "tx_reach sha256 aes_ctr w c w1 c1 pkts stream \<Longrightarrow>
    tx_reach sha256 aes_ctr w c w1 (absorb c1 cp) pkts stream"

lemma Ack_packetID: "r_packetID (Ack r ids) = r_packetID r"
  unfolding Ack_def by (induction ids arbitrary: r) (simp_all add: ack_one_def)

lemma absorb_same: "same_peer w c w (absorb c cp) \<and>
    r_packetID (cc_sendRel (absorb c cp)) = r_packetID (cc_sendRel c)"
  by (auto simp: absorb_def Let_def same_peer_def Ack_packetID split: prod.split put_result.split)

lemma tx_reach_sends:
  assumes "tx_reach sha256 aes_ctr w c w' c' pkts stream"
  shows "\<exists>chunks. sends sha256 aes_ctr w c w' c' pkts chunks \<and> stream = concat chunks"
  using assms
proof induction
  case tx_start
  then show ?case by (auto intro!: exI [of _ "[]"] sends_refl simp: same_peer_def)
next
  case (tx_write w1 c1 pkts stream env p w2 c2 bs n res)
  from Conn_Write_sends [OF tx_write.hyps(2,3)] obtain ch where
    ch: "sends sha256 aes_ctr w1 c1 w2 c2 bs ch" "wrote p 0 n ch res" by auto
  from tx_write.IH obtain ch0 where ch0: "sends sha256 aes_ctr w c w1 c1 pkts ch0"
    "stream = concat ch0" by blast
  have "length bs = length ch" using ch(1) by (simp add: sends_def)
  with ch(2) ch0(2) have "stream @ take (MaxPayload * length bs) p = concat (ch0 @ ch)"
    by (simp add: wrote_def)
  with sends_trans [OF ch0(1) ch(1)] show ?case by blast
next
  case (tx_absorb w1 c1 pkts stream cp)
  from tx_absorb.IH obtain ch where ch: "sends sha256 aes_ctr w c w1 c1 pkts ch" "stream = concat ch"
    by blast
  have "sends sha256 aes_ctr w1 c1 w1 (absorb c1 cp) [] []"
    using absorb_same by (intro sends_refl) blast+
  from sends_trans [OF ch(1) this] ch(2) show ?case by auto
qed

lemma recv_carries:
  assumes "tls_linked sha256 w r" and "carries sha256 aes_ctr w c OpControlV1 pid payload b"
    and "length (cc_localSID c) = 8" and "length (cc_remoteSID c) = 8" and "cc_keyID c < 8"
  shows "\<exists>r'. tls_linked sha256 w r' \<and>
    (recv_datagram sha256 aes_ctr (r, d) b = (r', d) \<or>
     (\<exists>cp. cp_opcode cp = OpControlV1 \<and> cp_packetID cp = pid \<and> cp_payload cp = payload \<and>
        recv_datagram sha256 aes_ctr (r, d) b = (r', absorb d cp)))"
proof -
  define h where "h = AppendHeaderByte [] OpControlV1 (cc_keyID c) @ cc_localSID c"
  from assms(2) obtain seq ts acks where acks: "length acks \<le> 8"
    and b: "b = tls_packet sha256 aes_ctr w seq (h, ts,
      AppendPlaintext \<lparr>cp_opcode = OpControlV1, cp_keyID = cc_keyID c, cp_sessionID = cc_localSID c,
        cp_acks = acks, cp_remoteSessionID = cc_remoteSID c, cp_packetID = pid,
        cp_payload = payload\<rparr> [])"
    unfolding carries_def h_def by blast
  define cp where "cp = \<lparr>cp_opcode = OpControlV1, cp_keyID = cc_keyID c,
      cp_sessionID = cc_localSID c, cp_acks = acks,
      cp_remoteSessionID = (if acks = [] then replicate SessionIDSize 0 else cc_remoteSID c),
      cp_packetID = pid, cp_payload = payload\<rparr>"
  have bp: "b = tls_packet sha256 aes_ctr w seq (h, ts, AppendPlaintext cp [])"
    unfolding b cp_def by (simp add: AppendPlaintext_def)
  have gen: "tls_genuine (h, ts, AppendPlaintext cp [])"
    using assms(3) by (simp add: tls_genuine_def AppendHeaderByte_def h_def)
  have hdr: "ParseHeaderByte (hd h) = (OpControlV1, cc_keyID c)" and tl: "tl h = cc_localSID c"
    using parse_header_byte [of OpControlV1 "cc_keyID c"] assms(5)
    by (simp_all add: AppendHeaderByte_def h_def)
  have "wf_packet cp"
    using acks assms(4) by (simp add: cp_def wf_packet_def ValidOpcode_def govpn_consts)
  moreover have "packet_header cp =
      \<lparr>hd_opcode = OpControlV1, hd_keyID = cc_keyID c, hd_sessionID = cc_localSID c\<rparr>"
    by (simp add: packet_header_def cp_def)
  ultimately have parse: "ParseControlPacket (AppendPlaintext cp [])
      \<lparr>hd_opcode = OpControlV1, hd_keyID = cc_keyID c, hd_sessionID = cc_localSID c\<rparr> = Inr cp"
    using parse_appended_body [of cp] by simp
  let ?r = "fst (Unwrap sha256 aes_ctr r [] b)"
  have "recv_datagram sha256 aes_ctr (r, d) b = (?r, d) \<or>
      recv_datagram sha256 aes_ctr (r, d) b = (?r, absorb d cp)"
    using Unwrap_packet [OF assms(1) gen, of aes_ctr "[]" seq]
    by (cases "snd (tlscrypt_accept (tw_replay r) seq)")
      (simp_all add: recv_datagram_def bp tls_deliver_def hdr tl parse)
  moreover have "tls_linked sha256 w ?r" using assms(1) by (simp add: Unwrap_linked)
  moreover have "cp_opcode cp = OpControlV1" "cp_packetID cp = pid" "cp_payload cp = payload"
    by (simp_all add: cp_def)
  ultimately show ?thesis by blast
qed

lemma recv_run:
  assumes "tls_linked sha256 w r"
    and "\<forall>b\<in>set bs. \<exists>i<length chunks.
      carries sha256 aes_ctr w c OpControlV1 (of_nat i) (chunks ! i) b"
    and "length (cc_localSID c) = 8" and "length (cc_remoteSID c) = 8" and "cc_keyID c < 8"
    and "foldl (recv_datagram sha256 aes_ctr) (r, d) bs = (r', d')"
  shows "\<exists>cps. d' = fst (conn_run d (map CAbsorb cps) []) \<and>
    (\<forall>cp\<in>set cps. \<exists>i<length chunks. cp_packetID cp = of_nat i \<and> cp_payload cp = chunks ! i)"
  using assms(1,2,6)
proof (induction bs arbitrary: r d)
  case Nil
  then show ?case by (intro exI [of _ "[]"]) simp
next
  case (Cons b bs)
  from Cons.prems(2) obtain i where i: "i < length chunks"
    and "carries sha256 aes_ctr w c OpControlV1 (of_nat i) (chunks ! i) b" by auto
  from recv_carries [OF Cons.prems(1) this(2) assms(3-5), of d] obtain r1 d1 where
    r1: "tls_linked sha256 w r1" "recv_datagram sha256 aes_ctr (r, d) b = (r1, d1)"
    and d1: "d1 = d \<or> (\<exists>cp. cp_packetID cp = of_nat i \<and> cp_payload cp = chunks ! i \<and> d1 = absorb d cp)"
    by blast
  from Cons.IH [OF r1(1), of d1] Cons.prems(2,3) r1(2) obtain cps where
    cps: "d' = fst (conn_run d1 (map CAbsorb cps) [])"
    "\<forall>cp\<in>set cps. \<exists>i<length chunks. cp_packetID cp = of_nat i \<and> cp_payload cp = chunks ! i"
    by auto
  from d1 show ?case
  proof
    assume "d1 = d"
    with cps show ?thesis by blast
  next
    assume "\<exists>cp. cp_packetID cp = of_nat i \<and> cp_payload cp = chunks ! i \<and> d1 = absorb d cp"
    then obtain cp where "cp_packetID cp = of_nat i" "cp_payload cp = chunks ! i" "d1 = absorb d cp"
      by blast
    with cps i show ?thesis by (intro exI [of _ "cp # cps"]) auto
  qed
qed

lemma conn_run_absorbs: "conn_run d (map CAbsorb cps) got = (fst (conn_run d (map CAbsorb cps) []), got)"
  by (induction cps arbitrary: d) auto

lemma absorbed_prefix:
  assumes "NewWithKeyID lsid rsid kid = Some d" and "length chunks < 2 ^ 32"
    and "\<forall>cp\<in>set cps. \<exists>i<length chunks. cp_packetID cp = of_nat i \<and> cp_payload cp = chunks ! i"
  shows "\<exists>n. cc_readBuf (fst (conn_run d (map CAbsorb cps) [])) = concat (take n chunks)"
proof -
  have small: "unat (of_nat i :: u32) = i" if "i \<le> length chunks" for i
    using that assms(2) by (simp add: unat_of_nat)
  have absorbed: "absorbed (map CAbsorb cps) = set cps" by (auto simp: absorbed_def)
  have "events_agree (\<lambda>k. chunks ! unat k) (map CAbsorb cps)"
    unfolding events_agree_def absorbed using assms(3) small by fastforce
  from fresh_stream [OF assms(1) this conn_run_absorbs] obtain n where
    n: "cc_readBuf (fst (conn_run d (map CAbsorb cps) [])) =
      concat (map (\<lambda>k. chunks ! unat (of_nat k :: u32)) [0..<n])"
    and put: "\<forall>k<n. \<exists>cp\<in>set cps. cp_packetID cp = of_nat k"
    unfolding absorbed append_Nil by blast
  have "n \<le> length chunks"
  proof (rule ccontr)
    assume "\<not> n \<le> length chunks"
    then obtain i where "i < length chunks" "(of_nat i :: u32) = of_nat (length chunks)"
      using put assms(3) by (metis not_le)
    then show False using small [of i] small [of "length chunks"] by simp
  qed
  then have "map (\<lambda>k. chunks ! unat (of_nat k :: u32)) [0..<n] = take n chunks"
    using small by (intro nth_equalityI) simp_all
  with n show ?thesis by auto
qed

text \<open>
  C1. The control channel is a reliable byte stream end to end, through fragmentation, packet
  serialisation, tls-crypt, the network and reordering: feed a fresh receiving connection any
  datagrams out of those a sender produced, in any order and number; what it has then
  delivered is a prefix of what the sender's application wrote.
\<close>

theorem control_stream_end_to_end:
  assumes "NewWithKeyID lsid rsid kid = Some c" and "NewWithKeyID lsid' rsid' kid' = Some d"
    and "length lsid = 8" and "length rsid = 8" and "kid < 8"
    and "tls_linked sha256 w r"
    and "tx_reach sha256 aes_ctr w c w' c' pkts stream" and "length pkts < 2 ^ 32"
    and "set bs \<subseteq> set pkts"
    and "foldl (recv_datagram sha256 aes_ctr) (r, d) bs = (r', d')"
  shows "\<exists>rest. stream = cc_readBuf d' @ rest"
proof -
  note fresh = NewWithKeyID_fresh [OF assms(1)]
  have remote: "cc_remoteSID c = rsid"
    using assms(1) by (auto simp: NewWithKeyID_def split: option.splits)
  from tx_reach_sends [OF assms(7)] obtain chunks where
    sent: "sends sha256 aes_ctr w c w' c' pkts chunks" and stream: "stream = concat chunks" by blast
  have pid0: "r_packetID (cc_sendRel c) = 0"
    using New_reliable_rec_ok [of 6 "cc_sendRel c"] fresh by simp
  have "\<forall>b\<in>set bs. \<exists>i<length chunks.
      carries sha256 aes_ctr w c OpControlV1 (of_nat i) (chunks ! i) b"
  proof
    fix b
    assume "b \<in> set bs"
    then obtain i where "i < length pkts" and "b = pkts ! i"
      using assms(9) by (metis in_set_conv_nth subsetD)
    then show "\<exists>i<length chunks. carries sha256 aes_ctr w c OpControlV1 (of_nat i) (chunks ! i) b"
      using sent pid0 by (auto simp: sends_def)
  qed
  from recv_run [OF assms(6) this _ _ _ assms(10)] fresh remote assms(3-5) obtain cps where
    d': "d' = fst (conn_run d (map CAbsorb cps) [])"
    and cps: "\<forall>cp\<in>set cps. \<exists>i<length chunks. cp_packetID cp = of_nat i \<and> cp_payload cp = chunks ! i"
    by auto
  have "length chunks < 2 ^ 32" using sent assms(8) by (simp add: sends_def)
  from absorbed_prefix [OF assms(2) this cps] obtain n where "cc_readBuf d' = concat (take n chunks)"
    unfolding d' by blast
  with stream show ?thesis by (metis append_take_drop_id concat_append)
qed

theorem control_stream_end_to_end_witness:
  "\<exists>c d w r w' c' b n rest. NewWithKeyID (replicate 8 2) (replicate 8 1) 0 = Some c \<and>
     NewWithKeyID (replicate 8 1) (replicate 8 2) 0 = Some d \<and>
     Tls_NewWrapper (replicate 256 7) True = Inr w \<and> Tls_NewWrapper (replicate 256 7) False = Inr r \<and>
     Conn_Write (sum_hash 32) sum_ctr (\<lambda>_. ((100, 100), 0, True)) 0 w c [1, 2, 3] 0 []
       = (w', c', [b], n, Sent ()) \<and>
     [1, 2, 3] = cc_readBuf (snd (foldl (recv_datagram (sum_hash 32) sum_ctr) (r, d) [b, b])) @ rest"
proof -
  let ?env = "\<lambda>_ :: nat. ((100, 100) :: int \<times> int, 0 :: int, True)"
  obtain d where d: "NewWithKeyID (replicate 8 1) (replicate 8 2) 0 = Some d"
    by (simp add: NewWithKeyID_def New_reliable_def govpn_consts)
  obtain w r where w: "Tls_NewWrapper (replicate 256 7) True = Inr w"
    "Tls_NewWrapper (replicate 256 7) False = Inr r"
    by (simp add: Tls_NewWrapper_def Let_def)
  then have link: "tls_linked (sum_hash 32) w r" and "w = demo_tls"
    by (auto simp: Tls_NewWrapper_def Let_def demo_tls_def tls_linked_def digest_len_sum_hash)
  from demo_writeChunk obtain w' c' b where
    wc: "writeChunk (sum_hash 32) sum_ctr (100, 100) 0 True demo_tls demo_conn OpControlV1 [1, 2, 3]
      = (w', c', [b], Sent ())" by blast
  then have cw: "Conn_Write (sum_hash 32) sum_ctr ?env 0 w demo_conn [1, 2, 3] 0 []
      = (w', c', [b], 3, Sent ())"
    unfolding \<open>w = demo_tls\<close>
    by (subst Conn_Write.simps) (simp add: govpn_consts Conn_Write.simps)
  have "tx_reach (sum_hash 32) sum_ctr w demo_conn w' c' ([] @ [b]) ([] @ take (MaxPayload * length [b]) [1, 2, 3])"
    by (rule tx_write [OF tx_start cw]) simp
  then have tx: "tx_reach (sum_hash 32) sum_ctr w demo_conn w' c' [b] [1, 2, 3]"
    by (simp add: govpn_consts)
  obtain r' d' where run: "foldl (recv_datagram (sum_hash 32) sum_ctr) (r, d) [b, b] = (r', d')"
    by (cases "foldl (recv_datagram (sum_hash 32) sum_ctr) (r, d) [b, b]")
  have "\<exists>rest. [1, 2, 3] = cc_readBuf d' @ rest"
    by (rule control_stream_end_to_end [OF demo_conn_new d _ _ _ link tx _ _ run]) simp_all
  with w d cw run demo_conn_new show ?thesis by (metis snd_conv)
qed

section \<open>Key directions\<close>

text \<open>
  The two protections take their keys from opposite halves of a 256-byte key block: the
  half the server encrypts with in tls-crypt is the half it decrypts with on the data
  channel, and the other way round, so one block never serves the same direction twice.
\<close>

theorem key_directions_opposite:
  assumes "NewKey2 raw = Inr k" and "Tls_NewWrapper raw True = Inr w"
  shows "sl_cipher (tw_encrypt w) = dk_DecryptCipher (ServerSlots k len) \<and>
    sl_cipher (tw_decrypt w) = dk_EncryptCipher (ServerSlots k len) \<and>
    take 8 (sl_hmac (tw_encrypt w)) = dk_DecryptImplicitIV (ServerSlots k len) \<and>
    take 8 (sl_hmac (tw_decrypt w)) = dk_EncryptImplicitIV (ServerSlots k len)"
  using assms
  by (auto simp: NewKey2_def Tls_NewWrapper_def ServerSlots_bytes Let_def slice_def split: if_splits)

theorem key_directions_opposite_witness:
  "\<exists>k w. NewKey2 (map of_nat [0..<256]) = Inr k \<and> Tls_NewWrapper (map of_nat [0..<256]) True = Inr w \<and>
     sl_cipher (tw_encrypt w) = dk_DecryptCipher (ServerSlots k 32)"
proof -
  let ?raw = "map of_nat [0..<256] :: bytes"
  obtain k w where "NewKey2 ?raw = Inr k" "Tls_NewWrapper ?raw True = Inr w"
    by (simp add: NewKey2_def Tls_NewWrapper_def Let_def)
  then show ?thesis using key_directions_opposite by blast
qed

end
